(* ===== verification/Prelude.thy ===== *)
theory Prelude
  imports Main "HOL-Library.Word"
begin

text \<open>
  Shared vocabulary of the development: machine integer types, the ways in which a C call can
  fail to return normally and how calls are sequenced, the linear search that most tables of the
  kernel are built on, the removal of a table entry by shifting the entries behind it, arithmetic on
  ring indices, and words read as natural and as signed numbers.
  The contract that the slot tables of the kernel share is the locale \<open>slot_table\<close>; the
  component theories interpret it on their own operations.
\<close>

unbundle bit_operations_syntax

section \<open>Machine integers and outcomes of C calls\<close>

type_synonym u8 = "8 word"
type_synonym u16 = "16 word"
type_synonym u32 = "32 word"
type_synonym u64 = "64 word"

text \<open>
  A C call returns a value, or it stops: it performs an access that the language leaves
  undefined, it waits for an event that has not happened, it ends the process, it replaces the process by
  another program, or it panics.
\<close>

datatype stop =
    Null_Deref
  | Out_Of_Bounds
  | Use_After_Free
  | Double_Free
  | Div_By_Zero
  | Blocked
  | Exits int
  | Execs string
  | Panics string

type_synonym 'a outcome = "stop + 'a"

text \<open>The state of a heap block as seen through the pointer that was set to it.\<close>

datatype block = Null_Ptr | Live | Freed

definition c_free :: "block \<Rightarrow> block outcome" where
  "c_free b = (case b of Null_Ptr \<Rightarrow> Inr Null_Ptr | Live \<Rightarrow> Inr Freed | Freed \<Rightarrow> Inl Double_Free)"

named_theorems outcome_simps \<open>evaluation of single steps of the C model\<close>

lemma c_free_simps [outcome_simps, simp]:
  "c_free Null_Ptr = Inr Null_Ptr" "c_free Live = Inr Freed" "c_free Freed = Inl Double_Free"
  by (simp_all add: c_free_def)

section \<open>Sequencing of C calls\<close>

text \<open>The rest of a computation runs on the value of the first part, or not at all.\<close>

definition obind :: "'a outcome \<Rightarrow> ('a \<Rightarrow> 'b outcome) \<Rightarrow> 'b outcome" where
  "obind m f = (case m of Inl e \<Rightarrow> Inl e | Inr x \<Rightarrow> f x)"

lemma obind_simps [simp]: "obind (Inl e) f = Inl e" "obind (Inr x) f = f x"
  by (simp_all add: obind_def)

lemma obind_cong [fundef_cong]:
  "m = m' \<Longrightarrow> (\<And>x. m' = Inr x \<Longrightarrow> f x = g x) \<Longrightarrow> obind m f = obind m' g"
  by (cases m') simp_all

lemma obind_Inr: "obind m f = Inr y \<longleftrightarrow> (\<exists>x. m = Inr x \<and> f x = Inr y)"
  by (cases m) simp_all

lemma obind_assoc: "obind (obind m f) g = obind m (\<lambda>x. obind (f x) g)"
  by (cases m) simp_all

section \<open>Linear search over a table\<close>

fun first_idx :: "('a \<Rightarrow> bool) \<Rightarrow> 'a list \<Rightarrow> nat option" where
  "first_idx P [] = None"
| "first_idx P (x # xs) = (if P x then Some 0 else map_option Suc (first_idx P xs))"

lemma first_idx_None [simp]: "first_idx P xs = None \<longleftrightarrow> (\<forall>x \<in> set xs. \<not> P x)"
  by (induction xs) auto

lemma first_idx_SomeD:
  "first_idx P xs = Some i \<Longrightarrow> i < length xs \<and> P (xs ! i) \<and> (\<forall>j < i. \<not> P (xs ! j))"
proof (induction xs arbitrary: i)
  case Nil
  then show ?case by simp
next
  case (Cons x xs)
  show ?case
  proof (cases "P x")
    case True
    with Cons.prems show ?thesis by simp
  next
    case False
    with Cons.prems obtain k where k: "first_idx P xs = Some k" "i = Suc k" by auto
    from Cons.IH [OF k(1)] k(2) False show ?thesis by (auto simp: less_Suc_eq_0_disj)
  qed
qed

lemma first_idx_SomeI:
  "i < length xs \<Longrightarrow> P (xs ! i) \<Longrightarrow> (\<And>j. j < i \<Longrightarrow> \<not> P (xs ! j)) \<Longrightarrow> first_idx P xs = Some i"
proof (induction xs arbitrary: i)
  case Nil
  then show ?case by simp
next
  case (Cons x xs)
  show ?case
  proof (cases i)
    case 0
    with Cons.prems show ?thesis by simp
  next
    case (Suc k)
    from Cons.prems(3) [of 0] Suc have "\<not> P x" by simp
    moreover have "first_idx P xs = Some k"
    proof (rule Cons.IH)
      show "k < length xs" "P (xs ! k)" using Cons.prems(1,2) Suc by simp_all
      show "\<not> P (xs ! j)" if "j < k" for j using Cons.prems(3) [of "Suc j"] that Suc by simp
    qed
    ultimately show ?thesis using Suc by simp
  qed
qed

lemma first_idx_Some_iff:
  "first_idx P xs = Some i \<longleftrightarrow> i < length xs \<and> P (xs ! i) \<and> (\<forall>j < i. \<not> P (xs ! j))"
  using first_idx_SomeD first_idx_SomeI by metis

lemma first_idx_less: "first_idx P xs = Some i \<Longrightarrow> i < length xs"
  by (simp add: first_idx_Some_iff)

lemma first_idx_ex: "i < length xs \<Longrightarrow> P (xs ! i) \<Longrightarrow> \<exists>k \<le> i. first_idx P xs = Some k"
proof -
  assume a: "i < length xs" "P (xs ! i)"
  then have "first_idx P xs \<noteq> None" by auto
  then obtain k where k: "first_idx P xs = Some k" by (cases "first_idx P xs") simp_all
  with a first_idx_SomeD [OF k] have "k \<le> i" by (meson not_le_imp_less)
  with k show ?thesis by blast
qed

section \<open>Removing a table entry by shifting\<close>

text \<open>
  \<^verbatim>\<open>for (j = i; j < n - 1; j++) t[j] = t[j + 1];\<close> on the first \<open>n\<close> entries of an array.
  The array keeps its length: the last entry is left in place twice.
\<close>

function shift_down :: "nat \<Rightarrow> nat \<Rightarrow> 'a list \<Rightarrow> 'a list" where
  "shift_down j n t = (if j + 1 < n then shift_down (Suc j) n (t[j := t ! Suc j]) else t)"
  by pat_completeness auto
termination
  by (relation "measure (\<lambda>(j, n, t). n - j)") auto

declare shift_down.simps [simp del]

lemma length_shift_down [simp]: "length (shift_down j n t) = length t"
  by (induction j n t rule: shift_down.induct) (subst shift_down.simps, simp)

lemma shift_down_nth:
  "n \<le> length t \<Longrightarrow> k < length t \<Longrightarrow>
   shift_down j n t ! k = (if j \<le> k \<and> k + 1 < n then t ! Suc k else t ! k)"
proof (induction j n t rule: shift_down.induct)
  case (1 j n t)
  show ?case
  proof (cases "j + 1 < n")
    case True
    with 1 have "shift_down (Suc j) n (t[j := t ! Suc j]) ! k =
        (if Suc j \<le> k \<and> k + 1 < n then t[j := t ! Suc j] ! Suc k else t[j := t ! Suc j] ! k)"
      by simp
    with True 1 show ?thesis by (subst shift_down.simps) (auto simp: nth_list_update)
  next
    case False
    then show ?thesis by (subst shift_down.simps) auto
  qed
qed

text \<open>The abstract effect: the live prefix loses its entry \<open>j\<close>.\<close>

definition remove_nth :: "nat \<Rightarrow> 'a list \<Rightarrow> 'a list" where
  "remove_nth j xs = take j xs @ drop (Suc j) xs"

lemma length_remove_nth [simp]: "j < length xs \<Longrightarrow> length (remove_nth j xs) = length xs - 1"
  by (simp add: remove_nth_def)

lemma remove_nth_nth:
  "k < length xs - 1 \<Longrightarrow> j < length xs \<Longrightarrow> remove_nth j xs ! k = (if k < j then xs ! k else xs ! Suc k)"
  by (auto simp: remove_nth_def nth_append)

lemma set_remove_nth_subset: "set (remove_nth j xs) \<subseteq> set xs"
  by (auto simp: remove_nth_def dest: in_set_takeD in_set_dropD)

lemma shift_down_take:
  assumes "n \<le> length t" "j < n"
  shows "take (n - 1) (shift_down j n t) = remove_nth j (take n t)"
proof (rule nth_equalityI)
  show "length (take (n - 1) (shift_down j n t)) = length (remove_nth j (take n t))"
    using assms by simp
next
  fix k assume "k < length (take (n - 1) (shift_down j n t))"
  then have k: "k < n - 1" "Suc k < n" using assms by simp_all
  then show "take (n - 1) (shift_down j n t) ! k = remove_nth j (take n t) ! k"
    using assms by (simp add: shift_down_nth remove_nth_nth)
qed

lemma set_insert_while: "set (takeWhile P xs @ x # dropWhile P xs) = insert x (set xs)"
  by (induction xs) auto

lemma sorted_wrt_neq: "sorted_wrt (\<noteq>) xs \<longleftrightarrow> distinct xs"
  by (induction xs) auto

section \<open>Ring indices\<close>

lemma mod_ring_inj:
  fixes h :: nat
  assumes "i < c" "j < c" "(h + i) mod c = (h + j) mod c"
  shows "i = j"
proof -
  from assms(3) have "int i mod int c = int j mod int c"
    by (metis add_diff_cancel_left' mod_diff_left_eq of_nat_add of_nat_mod zmod_int)
  with assms(1,2) show ?thesis by (simp flip: of_nat_mod)
qed

lemma ring_pred: "h < c \<Longrightarrow> ((h + Suc i) mod c + c - 1) mod c = (h + i) mod (c::nat)"
proof -
  assume "h < c"
  then have c: "0 < c" by simp
  have "((h + Suc i) mod c + c - 1) mod c = ((h + Suc i) mod c + (c - 1)) mod c"
    using c by simp
  also have "\<dots> = (h + Suc i + (c - 1)) mod c" by (simp add: mod_add_left_eq)
  also have "h + Suc i + (c - 1) = h + i + c" using c by simp
  finally show ?thesis by simp
qed

section \<open>Words read as natural numbers\<close>

lemma unat_take_bit: "unat (take_bit n (x :: 'a::len word)) = unat x mod 2 ^ n"
  by (subst unsigned_take_bit_eq) (simp add: take_bit_eq_mod)

lemma and_not_mask_eq: "x AND NOT (mask n) = x - take_bit n (x :: 'a::len word)"
proof -
  have "(x AND NOT (mask n)) + (x AND mask n) = (x AND NOT (mask n)) OR (x AND mask n)"
    by (rule disjunctive_add_eq_or) (simp add: bit_eq_iff bit_simps)
  also have "\<dots> = x" by (auto simp: bit_eq_iff bit_simps)
  finally show ?thesis by (simp add: take_bit_eq_mask eq_diff_eq)
qed

lemma unat_and_not_mask: "unat (x AND NOT (mask n) :: 'a::len word) = unat x - unat x mod 2 ^ n"
proof -
  have "take_bit n x \<le> x" by (simp add: word_le_nat_alt unat_take_bit)
  then show ?thesis by (simp add: and_not_mask_eq unat_sub unat_take_bit)
qed

lemma unat_add_no_wrap:
  "unat x + unat y < 2 ^ LENGTH('a) \<Longrightarrow> unat (x + y) = unat x + unat (y :: 'a::len word)"
  by (simp add: unat_add_lem)

lemma unat_exp2: "i < LENGTH('a) \<Longrightarrow> unat (2 ^ i :: 'a::len word) = 2 ^ i"
proof -
  assume "i < LENGTH('a)"
  then have "(2::nat) ^ i < 2 ^ LENGTH('a)" by simp
  then have "unat (of_nat (2 ^ i) :: 'a word) = 2 ^ i" by (simp only: unat_of_nat mod_less)
  then show ?thesis by simp
qed

lemma unat_less_32: "unat (x :: u32) < 4294967296"
  using unsigned_less [of x] by simp

section \<open>Signed words\<close>

lemma sint_Suc_word: "sint (n :: u32) < sint (m :: u32) \<Longrightarrow> sint (n + 1) = sint n + 1"
  using sint_ge [of n] sint_lt [of m] by (simp add: sint_word_ariths signed_take_bit_int_eq_self)

lemma unat_dec_word: "0 \<le> sint (n - 1 :: u32) \<Longrightarrow> Suc (unat (n - 1)) = unat n"
proof -
  assume a: "0 \<le> sint (n - 1)"
  have "n \<noteq> 0" using a by auto
  then show ?thesis by (simp add: unat_minus_one unat_gt_0)
qed

lemma sint_u32: "sint (x :: u32) = (if unat x < 2147483648 then int (unat x) else int (unat x) - 4294967296)"
proof -
  have r: "0 \<le> uint x" "uint x < 4294967296" using uint_lt2p [of x] by simp_all
  have "sint x = (uint x + 2147483648) mod 4294967296 - 2147483648"
    using int_word_sint [of "uint x", where ?'a = 32] by simp
  moreover have "(uint x + 2147483648) mod 4294967296 =
      (if uint x < 2147483648 then uint x + 2147483648 else uint x - 2147483648)"
    using r mod_pos_pos_trivial [of "uint x + 2147483648" 4294967296]
      mod_add_self2 [of "uint x - 2147483648" 4294967296]
      mod_pos_pos_trivial [of "uint x - 2147483648" 4294967296]
    by (auto simp: algebra_simps)
  moreover have "unat x < 2147483648 \<longleftrightarrow> uint x < 2147483648"
    by (subst of_nat_less_iff [where ?'a = int, symmetric]) (simp only: of_nat_unat of_nat_numeral)
  ultimately show ?thesis using r by simp
qed

lemma sint_u32_nonneg: "0 \<le> sint (x :: u32) \<longleftrightarrow> unat x < 2147483648"
  using uint_lt2p [of x] by (auto simp: sint_u32)

lemma sint_of_small: "unat (x :: u32) < 2147483648 \<Longrightarrow> sint x = int (unat x)"
  by (simp add: sint_u32)

lemma sint_less_small:
  "unat (x :: u32) < 2147483648 \<Longrightarrow> unat (y :: u32) < 2147483648 \<Longrightarrow> sint x < sint y \<longleftrightarrow> unat x < unat y"
  by (simp only: sint_of_small of_nat_less_iff)

lemma sint_diff_small:
  "unat (x :: u32) < 2147483648 \<Longrightarrow> unat (y :: u32) < 2147483648 \<Longrightarrow> nat (sint x - sint y) = unat x - unat y"
  by (simp only: sint_of_small nat_minus_as_int)

lemma unat_Suc_small: "unat (n :: u32) < 2147483648 \<Longrightarrow> unat (n + 1) = Suc (unat n)"
  by (subst unat_add_no_wrap) simp_all

lemma unat_uminus_u32: "sint (n :: u32) < 0 \<Longrightarrow> unat (- n) = nat (- sint n)"
proof -
  assume "sint n < 0"
  then have s: "\<not> unat n < 2147483648" "sint n = int (unat n) - 4294967296"
    by (simp_all only: sint_u32 split: if_splits) simp_all
  then have "n \<noteq> 0" by auto
  then have "unat (0 - n) = 4294967296 - unat n"
    unfolding unat_sub_if_size by (simp add: word_size unat_gt_0)
  then have "unat (- n) = 4294967296 - unat n" by simp
  then show ?thesis using unat_less_32 [of n] by (simp only: s(2))
qed

section \<open>Slot tables\<close>

text \<open>
  The scheduler, the process table, the file table and the thread table all allocate the
  first free slot of a fixed array and free it again. \<open>alloc\<close> answers the slot and the new
  table, \<open>release\<close> frees a slot; \<open>ok\<close> says which allocation requests leave the slot occupied.
\<close>

locale slot_table =
  fixes is_free :: "'s \<Rightarrow> bool"
    and ok :: "'c \<Rightarrow> bool"
    and alloc :: "'c \<Rightarrow> 's list \<Rightarrow> (nat \<times> 's list) option"
    and release :: "nat \<Rightarrow> 's list \<Rightarrow> 's list"
  assumes alloc_Some:
      "ok c \<Longrightarrow> alloc c t = Some (i, t') \<Longrightarrow>
         i < length t \<and> is_free (t ! i) \<and> (\<forall>j < i. \<not> is_free (t ! j)) \<and>
         \<not> is_free (t' ! i) \<and> (\<exists>v. t' = t[i := v])"
    and alloc_None: "alloc c t = None \<longleftrightarrow> (\<forall>x \<in> set t. \<not> is_free x)"
    and release_free: "i < length t \<Longrightarrow> is_free (release i t ! i)"
    and release_frame: "i < length t \<Longrightarrow> \<exists>v. release i t = t[i := v]"
begin

definition used :: "'s list \<Rightarrow> nat set" where
  "used t = {i. i < length t \<and> \<not> is_free (t ! i)}"

lemma finite_used [simp]: "finite (used t)"
  by (simp add: used_def)

lemma alloc_used:
  assumes "ok c" "alloc c t = Some (i, t')"
  shows "i \<notin> used t" "used t' = insert i (used t)" "length t' = length t"
proof -
  from alloc_Some [OF assms] obtain v where
    v: "t' = t[i := v]" "i < length t" "is_free (t ! i)" "\<not> is_free (t' ! i)" by metis
  then have nf: "\<not> is_free v" by simp
  show "i \<notin> used t" using v(3) by (simp add: used_def)
  show "length t' = length t" using v(1) by simp
  show "used t' = insert i (used t)"
    using v(2) nf unfolding v(1) by (auto simp: used_def nth_list_update)
qed

lemma release_used:
  assumes "i < length t"
  shows "used (release i t) = used t - {i}" "length (release i t) = length t"
proof -
  from release_frame [OF assms] obtain v where v: "release i t = t[i := v]" by metis
  with release_free [OF assms] assms have fv: "is_free v" by simp
  show "length (release i t) = length t" using v by simp
  show "used (release i t) = used t - {i}"
    using fv assms unfolding v used_def by (auto simp: nth_list_update split: if_split_asm)
qed

lemma alloc_full_iff: "alloc c t = None \<longleftrightarrow> card (used t) = length t"
proof -
  have "used t \<subseteq> {..<length t}" by (auto simp: used_def)
  then have "card (used t) = length t \<longleftrightarrow> used t = {..<length t}"
    by (metis card_lessThan card_subset_eq finite_lessThan)
  moreover have "used t = {..<length t} \<longleftrightarrow> (\<forall>x \<in> set t. \<not> is_free x)"
    unfolding used_def set_eq_iff all_set_conv_all_nth by simp blast
  ultimately show ?thesis using alloc_None by metis
qed

lemma alloc_after_release:
  assumes "i < length t"
  shows "alloc c (release i t) \<noteq> None"
proof -
  have "i < length (release i t)" "is_free (release i t ! i)"
    using assms release_used(2) release_free by auto
  then show ?thesis using alloc_None [of c "release i t"] nth_mem by metis
qed

text \<open>A run of allocations: the slots handed out, newest first.\<close>

fun alloc_run :: "'c list \<Rightarrow> 's list \<Rightarrow> (nat list \<times> 's list) option" where
  "alloc_run [] t = Some ([], t)"
| "alloc_run (c # cs) t =
     (case alloc c t of None \<Rightarrow> None
      | Some (i, t') \<Rightarrow> (case alloc_run cs t' of None \<Rightarrow> None | Some (is, t'') \<Rightarrow> Some (i # is, t'')))"

lemma alloc_run_distinct:
  "list_all ok cs \<Longrightarrow> alloc_run cs t = Some (is, t') \<Longrightarrow>
   distinct is \<and> set is \<inter> used t = {} \<and> used t' = used t \<union> set is \<and> length t' = length t"
proof (induction cs arbitrary: t "is" t')
  case Nil
  then show ?case by simp
next
  case (Cons c cs)
  then obtain i u js where a: "alloc c t = Some (i, u)" "alloc_run cs u = Some (js, t')" "is = i # js"
    by (auto split: option.splits)
  with Cons show ?case using alloc_used [OF _ a(1)] Cons.IH [OF _ a(2)] by auto
qed

lemma alloc_run_succeeds_iff:
  "list_all ok cs \<Longrightarrow> alloc_run cs t \<noteq> None \<longleftrightarrow> card (used t) + length cs \<le> length t"
proof (induction cs arbitrary: t)
  case Nil
  have "used t \<subseteq> {..<length t}" by (auto simp: used_def)
  then have "card (used t) \<le> length t" by (metis card_lessThan card_mono finite_lessThan)
  then show ?case by simp
next
  case (Cons c cs)
  show ?case
  proof (cases "alloc c t")
    case None
    then have "card (used t) = length t" by (simp add: alloc_full_iff)
    with None show ?thesis by simp
  next
    case (Some p)
    then obtain i u where p: "alloc c t = Some (i, u)" by (cases p) auto
    from Cons.prems alloc_used [OF _ p] have u: "card (used u) = Suc (card (used t))" "length u = length t"
      by auto
    from p have "alloc_run (c # cs) t \<noteq> None \<longleftrightarrow> alloc_run cs u \<noteq> None"
      by (simp split: option.splits)
    with Cons.IH [of u] Cons.prems u show ?thesis by simp
  qed
qed

end


section \<open>Allocators\<close>

text \<open>
  An allocator hands out blocks of an address space and takes them back. \<open>Get r\<close> is a request,
  \<open>Give i\<close> returns the \<open>i\<close>-th of the blocks that are held. A run ends with the blocks held and
  the final state, or with the fault of the operation that stopped it.
\<close>

datatype 'r mem_op = Get 'r | Give nat

fun mem_run :: "('r \<Rightarrow> 's \<Rightarrow> ('b \<times> 's) option) \<Rightarrow> ('b \<Rightarrow> 's \<Rightarrow> 's outcome) \<Rightarrow>
    'r mem_op list \<Rightarrow> 'b list \<Rightarrow> 's \<Rightarrow> ('b list \<times> 's) outcome" where
  "mem_run alloc release [] bs s = Inr (bs, s)"
| "mem_run alloc release (Get r # ops) bs s =
     (case alloc r s of
        None \<Rightarrow> mem_run alloc release ops bs s
      | Some (b, s') \<Rightarrow> mem_run alloc release ops (b # bs) s')"
| "mem_run alloc release (Give i # ops) bs s =
     (if i < length bs then
        (case release (bs ! i) s of
           Inl e \<Rightarrow> Inl e
         | Inr s' \<Rightarrow> mem_run alloc release ops (remove_nth i bs) s')
      else mem_run alloc release ops bs s)"

definition requests :: "'r mem_op list \<Rightarrow> 'r set" where
  "requests ops = {r. Get r \<in> set ops}"

locale allocator =
  fixes inv :: "'s \<Rightarrow> bool"
    and avail :: "'s \<Rightarrow> 'x set"
    and bytes :: "'b \<Rightarrow> 'x set"
    and legal :: "'s \<Rightarrow> 'b \<Rightarrow> bool"
    and req :: "'r \<Rightarrow> bool"
    and alloc :: "'r \<Rightarrow> 's \<Rightarrow> ('b \<times> 's) option"
    and release :: "'b \<Rightarrow> 's \<Rightarrow> 's outcome"
  assumes alloc_law: "inv s \<Longrightarrow> req r \<Longrightarrow> alloc r s = Some (b, s') \<Longrightarrow>
      inv s' \<and> legal s' b \<and> bytes b \<subseteq> avail s \<and> avail s' = avail s - bytes b \<and>
      (\<forall>c. legal s c \<longrightarrow> legal s' c)"
    and release_law: "inv s \<Longrightarrow> legal s b \<Longrightarrow> bytes b \<inter> avail s = {} \<Longrightarrow> release b s = Inr s' \<Longrightarrow>
      inv s' \<and> avail s' = avail s \<union> bytes b \<and> (\<forall>c. legal s c \<longrightarrow> legal s' c)"
begin

definition held :: "'b list \<Rightarrow> 'x set" where
  "held bs = (\<Union>b \<in> set bs. bytes b)"

definition consistent :: "'b list \<Rightarrow> 's \<Rightarrow> bool" where
  "consistent bs s \<longleftrightarrow> inv s \<and> (\<forall>b \<in> set bs. legal s b) \<and> held bs \<inter> avail s = {} \<and>
     sorted_wrt (\<lambda>b c. bytes b \<inter> bytes c = {}) bs"

lemma consistent_get:
  assumes "consistent bs s" "req r" "alloc r s = Some (b, s')"
  shows "consistent (b # bs) s'" "held (b # bs) \<union> avail s' = held bs \<union> avail s"
proof -
  have "inv s" using assms(1) by (simp add: consistent_def)
  note l = alloc_law [OF this assms(2,3)]
  have "\<forall>c \<in> set bs. bytes b \<inter> bytes c = {}"
    using assms(1) l unfolding consistent_def held_def by blast
  moreover have "held (b # bs) \<inter> avail s' = {}"
    using assms(1) l unfolding consistent_def held_def by auto
  ultimately show "consistent (b # bs) s'" using assms(1) l by (simp add: consistent_def)
  show "held (b # bs) \<union> avail s' = held bs \<union> avail s" using l unfolding held_def by auto
qed

lemma held_remove:
  assumes "i < length bs"
  shows "held bs = bytes (bs ! i) \<union> held (remove_nth i bs)"
proof -
  have "set bs = insert (bs ! i) (set (remove_nth i bs))"
    unfolding remove_nth_def by (metis Un_insert_right append.simps(2) assms id_take_nth_drop list.simps(15) set_append)
  then show ?thesis by (simp add: held_def)
qed

lemma consistent_give:
  assumes "consistent bs s" "i < length bs" "release (bs ! i) s = Inr s'"
  shows "consistent (remove_nth i bs) s'"
    "held (remove_nth i bs) \<union> avail s' = held bs \<union> avail s"
proof -
  have b: "inv s" "legal s (bs ! i)" using assms(1,2) by (simp_all add: consistent_def)
  have "bytes (bs ! i) \<inter> avail s = {}"
    using assms(1) held_remove [OF assms(2)] by (auto simp: consistent_def)
  note l = release_law [OF b this assms(3)]
  have split: "bs = take i bs @ bs ! i # drop (Suc i) bs" using assms(2) by (rule id_take_nth_drop)
  have sw: "sorted_wrt (\<lambda>b c. bytes b \<inter> bytes c = {}) (take i bs @ bs ! i # drop (Suc i) bs)"
    using assms(1) split by (simp add: consistent_def)
  then have "sorted_wrt (\<lambda>b c. bytes b \<inter> bytes c = {}) (remove_nth i bs)"
    by (simp add: remove_nth_def sorted_wrt_append)
  moreover have "bytes (bs ! i) \<inter> held (remove_nth i bs) = {}"
    using sw by (fastforce simp: remove_nth_def sorted_wrt_append held_def)
  then have "held (remove_nth i bs) \<inter> avail s' = {}"
    using l assms(1) held_remove [OF assms(2)] by (auto simp: consistent_def)
  moreover have "\<forall>b \<in> set (remove_nth i bs). legal s' b"
    using l assms(1) set_remove_nth_subset [of i bs] by (auto simp: consistent_def)
  ultimately show "consistent (remove_nth i bs) s'" using l by (simp add: consistent_def)
  show "held (remove_nth i bs) \<union> avail s' = held bs \<union> avail s"
    using l held_remove [OF assms(2)] by auto
qed

theorem mem_run_consistent:
  "consistent bs s \<Longrightarrow> \<forall>r \<in> requests ops. req r \<Longrightarrow> mem_run alloc release ops bs s = Inr (bs', s') \<Longrightarrow>
   consistent bs' s' \<and> held bs' \<union> avail s' = held bs \<union> avail s"
proof (induction ops arbitrary: bs s)
  case Nil
  then show ?case by simp
next
  case (Cons op ops)
  have req: "\<forall>r \<in> requests ops. req r" using Cons.prems(2) by (simp add: requests_def)
  show ?case
  proof (cases op)
    case (Get r)
    then have r: "req r" using Cons.prems(2) by (simp add: requests_def)
    show ?thesis
    proof (cases "alloc r s")
      case None
      with Get Cons.prems Cons.IH [OF _ req] show ?thesis by simp
    next
      case (Some p)
      then obtain b s1 where p: "alloc r s = Some (b, s1)" by (cases p) auto
      then have "mem_run alloc release ops (b # bs) s1 = Inr (bs', s')" using Get Cons.prems(3) by simp
      from Cons.IH [OF consistent_get(1) [OF Cons.prems(1) r p] req this]
        consistent_get(2) [OF Cons.prems(1) r p] show ?thesis by blast
    qed
  next
    case (Give i)
    show ?thesis
    proof (cases "i < length bs")
      case True
      with Give Cons.prems(3) obtain s1 where "release (bs ! i) s = Inr s1"
        "mem_run alloc release ops (remove_nth i bs) s1 = Inr (bs', s')" by (auto split: sum.splits)
      with consistent_give [OF Cons.prems(1) True] Cons.IH [OF _ req] show ?thesis by metis
    next
      case False
      with Give Cons.prems Cons.IH [OF _ req] show ?thesis by simp
    qed
  qed
qed

end

text \<open>An allocator whose releases of held blocks always return: no run stops with a fault.\<close>

locale total_allocator = allocator +
  assumes release_total: "inv s \<Longrightarrow> legal s b \<Longrightarrow> bytes b \<inter> avail s = {} \<Longrightarrow> \<exists>s'. release b s = Inr s'"
begin

lemma mem_run_returns:
  "consistent bs s \<Longrightarrow> \<forall>r \<in> requests ops. req r \<Longrightarrow> \<exists>bs' s'. mem_run alloc release ops bs s = Inr (bs', s')"
proof (induction ops arbitrary: bs s)
  case Nil
  then show ?case by simp
next
  case (Cons op ops)
  have req: "\<forall>r \<in> requests ops. req r" using Cons.prems(2) by (simp add: requests_def)
  show ?case
  proof (cases op)
    case (Get r)
    then have "req r" using Cons.prems(2) by (simp add: requests_def)
    with Get Cons.IH [OF _ req] Cons.prems(1) consistent_get(1) show ?thesis
      by (cases "alloc r s") auto
  next
    case (Give i)
    show ?thesis
    proof (cases "i < length bs")
      case True
      have "inv s" "legal s (bs ! i)" using Cons.prems(1) True by (simp_all add: consistent_def)
      moreover have "bytes (bs ! i) \<inter> avail s = {}"
        using Cons.prems(1) held_remove [OF True] by (auto simp: consistent_def)
      ultimately obtain s1 where "release (bs ! i) s = Inr s1" using release_total by blast
      with consistent_give(1) [OF Cons.prems(1) True] Cons.IH [OF _ req] Give True show ?thesis by simp
    next
      case False
      with Give Cons.IH [OF Cons.prems(1) req] show ?thesis by simp
    qed
  qed
qed

end

section \<open>Bytes of words\<close>

definition le_bytes :: "u32 \<Rightarrow> u8 list" where
  "le_bytes v = [ucast v, ucast (drop_bit 8 v), ucast (drop_bit 16 v), ucast (drop_bit 24 v)]"

definition of_le_bytes :: "u8 list \<Rightarrow> u32" where
  "of_le_bytes bs =
     (case bs of
        [a, b, c, d] \<Rightarrow> ucast a OR push_bit 8 (ucast b) OR push_bit 16 (ucast c) OR push_bit 24 (ucast d)
      | _ \<Rightarrow> 0)"

definition get32 :: "nat \<Rightarrow> u8 list \<Rightarrow> u32" where
  "get32 k bs = of_le_bytes (take 4 (drop k bs))"

lemma length_le_bytes [simp]: "length (le_bytes v) = 4"
  by (simp add: le_bytes_def)

lemma of_le_bytes_le_bytes [simp]: "of_le_bytes (le_bytes v) = v"
proof (rule bit_word_eqI)
  fix n assume "n < LENGTH(32)"
  then have "n < 8 \<or> 8 \<le> n \<and> n < 16 \<or> 16 \<le> n \<and> n < 24 \<or> 24 \<le> n \<and> n < 32" by auto
  then show "bit (of_le_bytes (le_bytes v)) n = bit v n"
    by (auto simp: of_le_bytes_def le_bytes_def bit_or_iff bit_push_bit_iff bit_unsigned_iff bit_drop_bit_eq)
qed

end
