(* ===== verification/Lmm.thy ===== *)
theory Lmm
  imports Prelude
begin

text \<open>
  The list memory manager of libmach (\<^verbatim>\<open>src/mach/libmach/lmm\<close>): regions of memory in descending
  order of priority, each with the list of its free blocks in ascending order of address.
  Addresses and sizes are 32-bit words, as in the 32-bit kernel library; a list of the model
  stands for the chain of \<^verbatim>\<open>next\<close> pointers. The assertions of the code are not executed (they
  are compiled out); they follow from the invariant \<open>lmm_ok\<close>, which every operation keeps.
\<close>

section \<open>Data\<close>

record lmm_node =
  n_addr :: u32
  n_size :: u32

record lmm_region =
  r_addr :: u32
  r_nodes :: "lmm_node list"
  r_flags :: u32
  r_pri :: int
  r_size :: u32
  r_free :: u32

type_synonym lmm = "lmm_region list"

definition ALIGN_MASK :: u32 where
  "ALIGN_MASK = 7"

definition sizeof_lmm_node :: u32 where
  "sizeof_lmm_node = 8"

definition sizeof_lmm_region :: u32 where
  "sizeof_lmm_region = 24"

text \<open>\<^verbatim>\<open>(x + ALIGN_MASK) & ~ALIGN_MASK\<close> and \<^verbatim>\<open>x & ~ALIGN_MASK\<close>.\<close>

definition align_down :: "u32 \<Rightarrow> u32" where
  "align_down x = x AND NOT ALIGN_MASK"

definition align_up :: "u32 \<Rightarrow> u32" where
  "align_up x = align_down (x + ALIGN_MASK)"

section \<open>Operations\<close>

definition lmm_init :: lmm where
  "lmm_init = []"

definition lmm_add :: "lmm \<Rightarrow> u32 \<Rightarrow> u32 \<Rightarrow> u32 \<Rightarrow> int \<Rightarrow> lmm" where
  "lmm_add lmm mn sz flags pri =
     (let mx = align_down (mn + sz); mn = align_up mn in
      if mx < mn \<or> mx - mn < sizeof_lmm_region + sizeof_lmm_node then lmm
      else
        let nodes = mn + sizeof_lmm_region;
            reg = \<lparr>r_addr = mn, r_nodes = [\<lparr>n_addr = nodes, n_size = mx - nodes\<rparr>], r_flags = flags,
                   r_pri = pri, r_size = mx - mn, r_free = mx - nodes\<rparr>;
            before = (\<lambda>r. r_pri r > pri \<or> (r_pri r = pri \<and> r_size r > r_size reg)) in
        takeWhile before lmm @ reg # dropWhile before lmm)"

text \<open>First fit in the free list of one region: the block and the remaining list.\<close>

fun alloc_nodes :: "u32 \<Rightarrow> lmm_node list \<Rightarrow> (u32 \<times> lmm_node list) option" where
  "alloc_nodes sz [] = None"
| "alloc_nodes sz (node # ns) =
     (if n_size node \<ge> sz then
        (if n_size node > sz
         then Some (n_addr node, \<lparr>n_addr = n_addr node + sz, n_size = n_size node - sz\<rparr> # ns)
         else Some (n_addr node, ns))
      else map_option (\<lambda>(a, ns'). (a, node # ns')) (alloc_nodes sz ns))"

text \<open>The loop over the regions; the address 0 is the null pointer.\<close>

fun alloc_regions :: "u32 \<Rightarrow> u32 \<Rightarrow> lmm \<Rightarrow> u32 \<times> lmm" where
  "alloc_regions sz flags [] = (0, [])"
| "alloc_regions sz flags (reg # rs) =
     (if flags AND NOT (r_flags reg) \<noteq> 0 then map_prod id (Cons reg) (alloc_regions sz flags rs)
      else case alloc_nodes sz (r_nodes reg) of
        None \<Rightarrow> map_prod id (Cons reg) (alloc_regions sz flags rs)
      | Some (a, ns) \<Rightarrow> (a, reg\<lparr>r_nodes := ns, r_free := r_free reg - sz\<rparr> # rs))"

definition lmm_alloc :: "lmm \<Rightarrow> u32 \<Rightarrow> u32 \<Rightarrow> u32 \<times> lmm" where
  "lmm_alloc lmm sz flags = alloc_regions (align_up sz) flags lmm"

text \<open>The alignment loop of \<open>lmm_alloc_gen\<close>: bit \<open>i\<close> up to \<open>align_bits\<close>.\<close>

function align_loop :: "nat \<Rightarrow> nat \<Rightarrow> u32 \<Rightarrow> u32 \<Rightarrow> u32" where
  "align_loop i align_bits align_ofs addr =
     (if i < align_bits
      then let b = push_bit i 1 in
        align_loop (Suc i) align_bits align_ofs
          (if (addr XOR align_ofs) AND b \<noteq> 0 then addr + b else addr)
      else addr)"
  by pat_completeness auto
termination
  by (relation "measure (\<lambda>(i, n, _). n - i)") auto

declare align_loop.simps [simp del]

text \<open>The loop over the free list of a region in \<open>lmm_alloc_gen\<close>: the block, the number of bytes
  taken and the remaining list; \<open>None\<close> when the loop ends or breaks without a block.\<close>

fun gen_nodes ::
  "u32 \<Rightarrow> nat \<Rightarrow> u32 \<Rightarrow> u32 \<Rightarrow> u32 \<Rightarrow> lmm_node list \<Rightarrow> (u32 \<times> u32 \<times> lmm_node list) option" where
  "gen_nodes sz align_bits align_ofs in_min in_max [] = None"
| "gen_nodes sz align_bits align_ofs in_min in_max (node # ns) =
     (let continue = map_option (\<lambda>(a, taken, ns'). (a, taken, node # ns'))
                       (gen_nodes sz align_bits align_ofs in_min in_max ns);
          addr = align_loop 0 align_bits align_ofs
                   (if n_addr node < in_min then in_min else n_addr node) in
      if n_size node < sz then continue
      else if addr - n_addr node + sz > n_size node then continue
      else if addr + sz > in_max then None
      else
        let anode = align_down addr;
            split_size = anode - n_addr node;
            asize = (if anode > n_addr node then n_size node - split_size else n_size node);
            front = (if anode > n_addr node then [node\<lparr>n_size := split_size\<rparr>] else []);
            taken = align_up ((addr AND ALIGN_MASK) + sz);
            back = (if asize > taken then [\<lparr>n_addr = anode + taken, n_size = asize - taken\<rparr>] else []) in
        Some (addr, taken, front @ back @ ns))"

fun gen_regions ::
  "u32 \<Rightarrow> u32 \<Rightarrow> nat \<Rightarrow> u32 \<Rightarrow> u32 \<Rightarrow> u32 \<Rightarrow> lmm \<Rightarrow> u32 \<times> lmm" where
  "gen_regions sz flags align_bits align_ofs in_min in_max [] = (0, [])"
| "gen_regions sz flags align_bits align_ofs in_min in_max (reg # rs) =
     (let continue = map_prod id (Cons reg) (gen_regions sz flags align_bits align_ofs in_min in_max rs) in
      if flags AND NOT (r_flags reg) \<noteq> 0 \<or> r_addr reg \<ge> in_max \<or> r_addr reg + r_size reg \<le> in_min
      then continue
      else case gen_nodes sz align_bits align_ofs in_min in_max (r_nodes reg) of
        None \<Rightarrow> continue
      | Some (a, taken, ns) \<Rightarrow> (a, reg\<lparr>r_nodes := ns, r_free := r_free reg - taken\<rparr> # rs))"

definition lmm_alloc_gen ::
  "lmm \<Rightarrow> u32 \<Rightarrow> u32 \<Rightarrow> nat \<Rightarrow> u32 \<Rightarrow> u32 \<Rightarrow> u32 \<Rightarrow> u32 \<times> lmm" where
  "lmm_alloc_gen lmm sz flags align_bits align_ofs in_min in_size =
     gen_regions sz flags align_bits align_ofs in_min (in_min + in_size) lmm"

definition lmm_alloc_aligned :: "lmm \<Rightarrow> u32 \<Rightarrow> u32 \<Rightarrow> nat \<Rightarrow> u32 \<Rightarrow> u32 \<times> lmm" where
  "lmm_alloc_aligned lmm sz flags align_bits align_ofs =
     lmm_alloc_gen lmm sz flags align_bits align_ofs 0 (- 1)"

text \<open>\<open>PAGE_SHIFT\<close> belongs to the machine-dependent headers and is a parameter;
  \<open>PAGE_SIZE\<close> is its power of two.\<close>

definition lmm_alloc_page :: "nat \<Rightarrow> lmm \<Rightarrow> u32 \<Rightarrow> u32 \<times> lmm" where
  "lmm_alloc_page page_shift lmm flags =
     lmm_alloc_gen lmm (push_bit page_shift 1) flags page_shift 0 0 (- 1)"

text \<open>Insertion into the free list of a region. \<open>bs\<close> are the nodes that the search loop passes,
  the last of them is \<^verbatim>\<open>prevnode\<close>; the first of \<open>as\<close> is \<^verbatim>\<open>nextnode\<close>, and address 0 when there
  is none.\<close>

definition free_nodes :: "u32 \<Rightarrow> u32 \<Rightarrow> lmm_node list \<Rightarrow> lmm_node list outcome" where
  "free_nodes node sz ns =
     (let bs = takeWhile (\<lambda>n. n_addr n < node) ns;
          as = dropWhile (\<lambda>n. n_addr n < node) ns;
          nextaddr = (case as of [] \<Rightarrow> 0 | nx # _ \<Rightarrow> n_addr nx) in
      if bs \<noteq> [] \<and> n_addr (last bs) + n_size (last bs) \<ge> node then
        (if node + sz \<ge> nextaddr then
           (case as of
              [] \<Rightarrow> Inl Null_Deref
            | nx # as' \<Rightarrow>
                Inr (butlast bs @ (last bs)\<lparr>n_size := n_size (last bs) + (sz + n_size nx)\<rparr> # as'))
         else Inr (butlast bs @ (last bs)\<lparr>n_size := n_size (last bs) + sz\<rparr> # as))
      else if node + sz \<ge> nextaddr then
        (case as of
           [] \<Rightarrow> Inl Null_Deref
         | nx # as' \<Rightarrow> Inr (bs @ \<lparr>n_addr = node, n_size = sz + n_size nx\<rparr> # as'))
      else Inr (bs @ \<lparr>n_addr = node, n_size = sz\<rparr> # as))"

fun free_regions :: "u32 \<Rightarrow> u32 \<Rightarrow> lmm \<Rightarrow> lmm outcome" where
  "free_regions node sz [] = Inl Null_Deref"
| "free_regions node sz (reg # rs) =
     (if node \<ge> r_addr reg \<and> node < r_addr reg + r_size reg then
        (case free_nodes node sz (r_nodes reg) of
           Inl e \<Rightarrow> Inl e
         | Inr ns \<Rightarrow> Inr (reg\<lparr>r_nodes := ns, r_free := r_free reg + sz\<rparr> # rs))
      else map_sum id (Cons reg) (free_regions node sz rs))"

definition lmm_free :: "lmm \<Rightarrow> u32 \<Rightarrow> u32 \<Rightarrow> lmm outcome" where
  "lmm_free lmm block sz =
     free_regions (align_down block) (align_up ((block AND ALIGN_MASK) + sz)) lmm"

definition lmm_avail :: "lmm \<Rightarrow> u32 \<Rightarrow> u32" where
  "lmm_avail lmm flags =
     fold (\<lambda>reg count. if flags AND NOT (r_flags reg) \<noteq> 0 then count else count + r_free reg) lmm 0"

text \<open>The search of \<open>lmm_find_free\<close> in one region; the triple is the lowest address, size and
  flags found so far.\<close>

fun find_free_nodes :: "u32 \<Rightarrow> u32 \<Rightarrow> u32 \<times> u32 \<times> u32 \<Rightarrow> lmm_node list \<Rightarrow> u32 \<times> u32 \<times> u32" where
  "find_free_nodes start_addr flags best [] = best"
| "find_free_nodes start_addr flags (lowest_addr, lowest_size, lowest_flags) (node # ns) =
     (if n_addr node \<ge> lowest_addr then (lowest_addr, lowest_size, lowest_flags)
      else if n_addr node + n_size node > start_addr then
        (if n_addr node > start_addr then (n_addr node, n_size node, flags)
         else (start_addr, n_size node - (start_addr - n_addr node), flags))
      else find_free_nodes start_addr flags (lowest_addr, lowest_size, lowest_flags) ns)"

definition lmm_find_free :: "lmm \<Rightarrow> u32 \<Rightarrow> u32 \<times> u32 \<times> u32" where
  "lmm_find_free lmm inout_addr =
     (let start_addr = align_up inout_addr in
      fold (\<lambda>reg best.
          if r_nodes reg = [] \<or> r_addr reg + r_size reg \<le> start_addr \<or> r_addr reg > fst best then best
          else find_free_nodes start_addr (r_flags reg) best (r_nodes reg))
        lmm (- 1, 0, 0))"


section \<open>The invariant\<close>

abbreviation lo :: "lmm_node \<Rightarrow> nat" where "lo n \<equiv> unat (n_addr n)"
abbreviation sz :: "lmm_node \<Rightarrow> nat" where "sz n \<equiv> unat (n_size n)"

text \<open>A free list between the addresses \<open>l\<close> and \<open>h\<close>: ascending, disjoint, aligned, no empty block.\<close>

fun nodes_ok :: "nat \<Rightarrow> nat \<Rightarrow> lmm_node list \<Rightarrow> bool" where
  "nodes_ok l h [] \<longleftrightarrow> l \<le> h"
| "nodes_ok l h (n # ns) \<longleftrightarrow> l \<le> lo n \<and> 8 dvd lo n \<and> 8 dvd sz n \<and> 0 < sz n \<and> nodes_ok (lo n + sz n) h ns"

definition node_bytes :: "lmm_node \<Rightarrow> nat set" where
  "node_bytes n = {lo n ..< lo n + sz n}"

definition free_bytes :: "lmm_node list \<Rightarrow> nat set" where
  "free_bytes ns = (\<Union>n \<in> set ns. node_bytes n)"

definition total :: "lmm_node list \<Rightarrow> nat" where
  "total ns = sum_list (map sz ns)"

lemma free_bytes_simps [simp]:
  "free_bytes [] = {}" "free_bytes (n # ns) = node_bytes n \<union> free_bytes ns"
  "free_bytes (xs @ ys) = free_bytes xs \<union> free_bytes ys"
  by (auto simp: free_bytes_def)

lemma total_simps [simp]:
  "total [] = 0" "total (n # ns) = sz n + total ns" "total (xs @ ys) = total xs + total ys"
  by (simp_all add: total_def)

lemma node_bytes_iff [simp]: "x \<in> node_bytes n \<longleftrightarrow> lo n \<le> x \<and> x < lo n + sz n"
  by (simp add: node_bytes_def)

lemma nodes_ok_le: "nodes_ok l h ns \<Longrightarrow> l + total ns \<le> h"
  by (induction ns arbitrary: l) fastforce+

lemma nodes_ok_mono: "nodes_ok l h ns \<Longrightarrow> l' \<le> l \<Longrightarrow> nodes_ok l' h ns"
  by (cases ns) auto

lemma nodes_ok_bounds: "nodes_ok l h ns \<Longrightarrow> n \<in> set ns \<Longrightarrow> l \<le> lo n \<and> lo n + sz n \<le> h \<and> 0 < sz n"
proof (induction ns arbitrary: l)
  case Nil
  then show ?case by simp
next
  case (Cons m ns)
  then have "lo m + sz m \<le> h" using nodes_ok_le [of "lo m + sz m" h ns] by simp
  with Cons show ?case by fastforce
qed

lemma free_bytes_bounds: "nodes_ok l h ns \<Longrightarrow> x \<in> free_bytes ns \<Longrightarrow> l \<le> x \<and> x < h"
proof -
  assume ok: "nodes_ok l h ns" and "x \<in> free_bytes ns"
  then obtain n where "n \<in> set ns" "lo n \<le> x" "x < lo n + sz n" by (auto simp: free_bytes_def)
  with nodes_ok_bounds [OF ok, of n] show ?thesis by linarith
qed

lemma nodes_ok_append:
  "nodes_ok l h (xs @ ys) \<longleftrightarrow> (\<exists>m. nodes_ok l m xs \<and> nodes_ok m h ys)"
proof (induction xs arbitrary: l)
  case Nil
  then show ?case using nodes_ok_mono by auto
next
  case (Cons x xs)
  then show ?case by auto
qed

lemma card_free_bytes: "nodes_ok l h ns \<Longrightarrow> card (free_bytes ns) = total ns \<and> finite (free_bytes ns)"
proof (induction ns arbitrary: l)
  case Nil
  then show ?case by simp
next
  case (Cons n ns)
  then have ok: "nodes_ok (lo n + sz n) h ns" by simp
  have "node_bytes n \<inter> free_bytes ns = {}" using free_bytes_bounds [OF ok] by fastforce
  moreover have "card (node_bytes n) = sz n" "finite (node_bytes n)" by (simp_all add: node_bytes_def)
  ultimately show ?case using Cons.IH [OF ok] by (simp add: card_Un_disjoint)
qed

subsection \<open>First fit\<close>

lemma alloc_nodes_None: "alloc_nodes s ns = None \<longleftrightarrow> (\<forall>n \<in> set ns. sz n < unat s)"
  by (induction ns) (auto simp: word_le_nat_alt)

lemma split_node:
  assumes "lo n + sz n < 2 ^ 32" "unat s \<le> sz n"
  shows "unat (n_addr n + s) = lo n + unat s" "unat (n_size n - s) = sz n - unat s"
  using assms by (simp_all add: unat_add_no_wrap unat_sub word_le_nat_alt)

lemma cut_front:
  assumes "\<And>x. x \<in> R \<Longrightarrow> a + z \<le> x" "s \<le> (z :: nat)"
  shows "({a ..< a + z} \<union> R) - {a ..< a + s} = {a + s ..< a + z} \<union> R"
  using assms by fastforce

lemma alloc_nodes_Some:
  assumes "alloc_nodes s ns = Some (a, ns')" "nodes_ok l h ns" "h < 2 ^ 32" "0 < unat s" "8 dvd unat s"
  shows "nodes_ok l h ns' \<and> l \<le> unat a \<and> unat a + unat s \<le> h \<and> 8 dvd unat a \<and>
     {unat a ..< unat a + unat s} \<subseteq> free_bytes ns \<and>
     free_bytes ns' = free_bytes ns - {unat a ..< unat a + unat s} \<and> total ns = total ns' + unat s"
  using assms
proof (induction ns arbitrary: l ns')
  case Nil
  then show ?case by simp
next
  case (Cons n ns)
  have ok: "nodes_ok (lo n + sz n) h ns" "l \<le> lo n" "8 dvd lo n" "8 dvd sz n" "0 < sz n"
    using Cons.prems(2) by simp_all
  have le: "lo n + sz n \<le> h" using nodes_ok_le [OF ok(1)] by simp
  have rest: "x \<in> free_bytes ns \<Longrightarrow> lo n + sz n \<le> x" for x using free_bytes_bounds [OF ok(1)] by blast
  consider (bigger) "unat s < sz n" | (equal) "unat s = sz n" | (smaller) "sz n < unat s" by linarith
  then show ?case
  proof cases
    case bigger
    let ?m = "\<lparr>n_addr = n_addr n + s, n_size = n_size n - s\<rparr>"
    have m: "lo ?m = lo n + unat s" "sz ?m = sz n - unat s"
      using split_node [of n s] bigger le Cons.prems(3) by simp_all
    have r: "a = n_addr n" "ns' = ?m # ns"
      using Cons.prems(1) bigger by (auto simp: word_le_nat_alt word_less_nat_alt)
    have "free_bytes ns' = free_bytes (n # ns) - {lo n ..< lo n + unat s}"
      using m bigger cut_front [of "free_bytes ns" "lo n" "sz n" "unat s"] rest unfolding r by (simp add: node_bytes_def)
    moreover have "nodes_ok l h ns'" using m ok bigger Cons.prems(5) unfolding r by (simp add: dvd_diff_nat)
    moreover have "{lo n ..< lo n + unat s} \<subseteq> free_bytes (n # ns)" using bigger by (auto simp: node_bytes_def)
    ultimately show ?thesis using r m ok bigger le by simp
  next
    case equal
    then have r: "a = n_addr n" "ns' = ns"
      using Cons.prems(1) by (auto simp: word_le_nat_alt word_less_nat_alt)
    have "nodes_ok l h ns" using nodes_ok_mono [OF ok(1)] ok(2) by simp
    moreover have "free_bytes ns = free_bytes (n # ns) - {lo n ..< lo n + sz n}"
      using cut_front [of "free_bytes ns" "lo n" "sz n" "sz n"] rest by (simp add: node_bytes_def)
    ultimately show ?thesis using r ok equal le by (simp add: node_bytes_def)
  next
    case smaller
    then obtain ns1 where r: "alloc_nodes s ns = Some (a, ns1)" "ns' = n # ns1"
      using Cons.prems(1) by (auto simp: word_le_nat_alt)
    note ih = Cons.IH [OF r(1) ok(1) Cons.prems(3-5)]
    then have "node_bytes n \<inter> {unat a ..< unat a + unat s} = {}" by (auto simp: node_bytes_def)
    then have "node_bytes n - {unat a ..< unat a + unat s} = node_bytes n" by blast
    with ih r(2) ok le show ?thesis by (simp add: Un_Diff le_supI2)
  qed
qed


subsection \<open>Insertion and coalescing\<close>

definition merge :: "lmm_node \<Rightarrow> lmm_node \<Rightarrow> lmm_node" where
  "merge a b = a\<lparr>n_size := n_size a + n_size b\<rparr>"

lemma merge_adjacent:
  assumes ok: "nodes_ok l h (xs @ a # b # ys)" and h: "h < 2 ^ 32" and adj: "lo a + sz a = lo b"
  shows "nodes_ok l h (xs @ merge a b # ys)"
    "free_bytes (xs @ merge a b # ys) = free_bytes (xs @ a # b # ys)"
    "total (xs @ merge a b # ys) = total (xs @ a # b # ys)"
proof -
  from nodes_ok_bounds [OF ok, of b] have "lo b + sz b \<le> h" by simp
  then have sz: "sz (merge a b) = sz a + sz b" using h adj by (simp add: merge_def unat_add_no_wrap)
  have lo: "lo (merge a b) = lo a" by (simp add: merge_def)
  have end_eq: "lo a + (sz a + sz b) = lo b + sz b" using adj by simp
  show "total (xs @ merge a b # ys) = total (xs @ a # b # ys)" by (simp add: sz)
  have "node_bytes (merge a b) = node_bytes a \<union> node_bytes b"
    using adj by (auto simp: node_bytes_def sz lo)
  then show "free_bytes (xs @ merge a b # ys) = free_bytes (xs @ a # b # ys)" by auto
  show "nodes_ok l h (xs @ merge a b # ys)"
    using ok by (auto simp: nodes_ok_append sz lo end_eq)
qed

lemma insert_node:
  assumes ok: "nodes_ok l h ns" and m: "l \<le> lo m" "lo m + sz m \<le> h" "8 dvd lo m" "8 dvd sz m" "0 < sz m"
    and disj: "node_bytes m \<inter> free_bytes ns = {}"
  shows "nodes_ok l h (takeWhile (\<lambda>n. n_addr n < n_addr m) ns @ m # dropWhile (\<lambda>n. n_addr n < n_addr m) ns)"
  using ok m(1) disj
proof (induction ns arbitrary: l)
  case Nil
  then show ?case using m by simp
next
  case (Cons n ns)
  have ok: "nodes_ok (lo n + sz n) h ns" "l \<le> lo n" "8 dvd lo n" "8 dvd sz n" "0 < sz n"
    using Cons.prems(1) by simp_all
  have d: "node_bytes m \<inter> node_bytes n = {}" "node_bytes m \<inter> free_bytes ns = {}" using Cons.prems(3) by auto
  show ?case
  proof (cases "n_addr n < n_addr m")
    case True
    then have "lo n < lo m" by (simp add: word_less_nat_alt)
    moreover have "lo m \<notin> node_bytes n" using d(1) m(5) by fastforce
    ultimately have "lo n + sz n \<le> lo m" by simp
    from Cons.IH [OF ok(1) this d(2)] True ok show ?thesis by simp
  next
    case False
    then have "lo m \<le> lo n" by (simp add: word_less_nat_alt)
    moreover have "lo n \<notin> node_bytes m" using d(1) ok(5) by fastforce
    ultimately have "lo m + sz m \<le> lo n" by simp
    with False Cons.prems(1,2) m show ?thesis by simp
  qed
qed

lemma free_bytes_insert:
  "free_bytes (takeWhile P ns @ m # dropWhile P ns) = node_bytes m \<union> free_bytes ns"
  "total (takeWhile P ns @ m # dropWhile P ns) = sz m + total ns"
proof -
  have "free_bytes ns = free_bytes (takeWhile P ns) \<union> free_bytes (dropWhile P ns)"
    "total ns = total (takeWhile P ns) + total (dropWhile P ns)"
    by (metis free_bytes_simps(3) takeWhile_dropWhile_id, metis total_simps(3) takeWhile_dropWhile_id)
  then show "free_bytes (takeWhile P ns @ m # dropWhile P ns) = node_bytes m \<union> free_bytes ns"
    "total (takeWhile P ns @ m # dropWhile P ns) = sz m + total ns" by auto
qed

text \<open>With a free block above the freed one, the new list holds exactly the old bytes and the
  freed ones. Without one, the code reads the size of the null node.\<close>

lemma free_nodes_last:
  assumes "\<forall>n \<in> set ns. n_addr n < node"
  shows "free_nodes node s ns = Inl Null_Deref"
proof -
  have "dropWhile (\<lambda>n. n_addr n < node) ns = []" using assms by simp
  then show ?thesis by (simp only: free_nodes_def Let_def list.case word_zero_le if_True if_cancel)
qed

lemma free_nodes_ok:
  assumes ok: "nodes_ok l h ns" and h: "h < 2 ^ 32"
    and m: "l \<le> unat node" "unat node + unat s \<le> h" "8 dvd unat node" "8 dvd unat s" "0 < unat s"
    and disj: "{unat node ..< unat node + unat s} \<inter> free_bytes ns = {}"
    and above: "\<exists>n \<in> set ns. \<not> n_addr n < node"
  shows "\<exists>ns'. free_nodes node s ns = Inr ns' \<and> nodes_ok l h ns' \<and>
     free_bytes ns' = free_bytes ns \<union> {unat node ..< unat node + unat s} \<and> total ns' = total ns + unat s"
proof -
  define P where "P n \<longleftrightarrow> n_addr n < node" for n :: lmm_node
  let ?bs = "takeWhile P ns" and ?as = "dropWhile P ns"
  let ?m = "\<lparr>n_addr = node, n_size = s\<rparr>"
  let ?good = "\<lambda>ns'. nodes_ok l h ns' \<and>
     free_bytes ns' = free_bytes ns \<union> {unat node ..< unat node + unat s} \<and> total ns' = total ns + unat s"
  from above obtain nx as' where as: "?as = nx # as'" by (cases ?as) (auto simp: P_def)
  have "nodes_ok l h (takeWhile (\<lambda>n. n_addr n < n_addr ?m) ns @ ?m # dropWhile (\<lambda>n. n_addr n < n_addr ?m) ns)"
    using m disj by (intro insert_node [OF ok]) (simp_all add: node_bytes_def)
  then have good: "?good (?bs @ ?m # ?as)"
    using free_bytes_insert [of P ns ?m] by (simp add: node_bytes_def Un_commute P_def [abs_def])
  have okm: "nodes_ok l h (?bs @ ?m # nx # as')" using good as by simp
  have nx: "unat node + unat s \<le> lo nx" using okm by (auto simp: nodes_ok_append)
  have addn: "unat (node + s) = unat node + unat s" using m h by (simp add: unat_add_no_wrap)
  have next_eq: "node + s \<ge> n_addr nx \<longleftrightarrow> lo ?m + sz ?m = lo nx"
    using nx addn by (auto simp: word_le_nat_alt)
  have merge_next: "?good (xs @ merge y nx # as')"
    if "?good (xs @ y # nx # as')" "lo y + sz y = lo nx" for xs y
    using merge_adjacent [OF _ h that(2), of l xs as'] that(1) by simp
  show ?thesis
  proof (cases "?bs \<noteq> [] \<and> n_addr (last ?bs) + n_size (last ?bs) \<ge> node")
    case True
    let ?p = "last ?bs" and ?xs = "butlast ?bs"
    have bs: "?bs = ?xs @ [?p]" using True by simp
    have "nodes_ok l h (?xs @ ?p # ?m # nx # as')" using okm bs by (metis append.assoc append_Cons append_Nil)
    then have pm: "lo ?p + sz ?p \<le> unat node" by (auto simp: nodes_ok_append)
    then have "unat (n_addr ?p + n_size ?p) = lo ?p + sz ?p" using m h by (simp add: unat_add_no_wrap)
    with True pm have adj: "lo ?p + sz ?p = lo ?m" by (simp add: word_le_nat_alt)
    have gp: "?good (?xs @ ?p # ?m # nx # as')" using good as bs by (metis append.assoc append_Cons append_Nil)
    then have g1: "?good (?xs @ merge ?p ?m # nx # as')"
      using merge_adjacent [OF _ h adj, of l ?xs "nx # as'"] by simp
    have sm: "sz (merge ?p ?m) = sz ?p + unat s" "lo (merge ?p ?m) = lo ?p"
      using adj m h by (simp_all add: merge_def unat_add_no_wrap)
    show ?thesis
    proof (cases "node + s \<ge> n_addr nx")
      case t: True
      have "lo (merge ?p ?m) + sz (merge ?p ?m) = lo nx" using sm adj next_eq t by simp
      from merge_next [OF g1 this] have g2: "?good (?xs @ merge (merge ?p ?m) nx # as')" .
      have "free_nodes node s ns = Inr (?xs @ merge (merge ?p ?m) nx # as')"
        using True t as by (simp add: free_nodes_def Let_def P_def [abs_def] merge_def add.assoc)
      with g2 show ?thesis by blast
    next
      case False
      have "free_nodes node s ns = Inr (?xs @ merge ?p ?m # nx # as')"
        using True False as by (simp add: free_nodes_def Let_def P_def [abs_def] merge_def)
      with g1 show ?thesis by blast
    qed
  next
    case False
    show ?thesis
    proof (cases "node + s \<ge> n_addr nx")
      case t: True
      have "lo ?m + sz ?m = lo nx" using next_eq t by blast
      from merge_next [OF _ this, of ?bs] good as have g: "?good (?bs @ merge ?m nx # as')" by simp
      have "free_nodes node s ns = Inr (?bs @ merge ?m nx # as')"
        using False t as by (auto simp: free_nodes_def Let_def P_def [abs_def] merge_def)
      with g show ?thesis by blast
    next
      case f: False
      have "free_nodes node s ns = Inr (?bs @ ?m # ?as)"
        using False f as by (auto simp: free_nodes_def Let_def P_def [abs_def])
      with good show ?thesis by blast
    qed
  qed
qed


subsection \<open>Regions\<close>

abbreviation base :: "lmm_region \<Rightarrow> nat" where "base r \<equiv> unat (r_addr r)"
abbreviation limit :: "lmm_region \<Rightarrow> nat" where "limit r \<equiv> unat (r_addr r) + unat (r_size r)"

definition region_ok :: "lmm_region \<Rightarrow> bool" where
  "region_ok r \<longleftrightarrow> limit r < 2 ^ 32 \<and> 8 dvd base r \<and> nodes_ok (base r + 24) (limit r) (r_nodes r) \<and>
     unat (r_free r) = total (r_nodes r)"

definition apart :: "lmm_region \<Rightarrow> lmm_region \<Rightarrow> bool" where
  "apart r r' \<longleftrightarrow> limit r \<le> base r' \<or> limit r' \<le> base r"

definition lmm_ok :: "lmm \<Rightarrow> bool" where
  "lmm_ok lmm \<longleftrightarrow> (\<forall>r \<in> set lmm. region_ok r) \<and> sorted_wrt apart lmm"

definition lmm_bytes :: "lmm \<Rightarrow> nat set" where
  "lmm_bytes lmm = (\<Union>r \<in> set lmm. free_bytes (r_nodes r))"

text \<open>The part of the regions that no operation changes once they are added.\<close>

definition frame :: "lmm \<Rightarrow> (u32 \<times> u32 \<times> u32 \<times> int) list" where
  "frame lmm = map (\<lambda>r. (r_addr r, r_size r, r_flags r, r_pri r)) lmm"

lemma lmm_ok_simps [simp]:
  "lmm_ok []" "lmm_ok (r # rs) \<longleftrightarrow> region_ok r \<and> (\<forall>r' \<in> set rs. apart r r') \<and> lmm_ok rs"
  by (auto simp: lmm_ok_def)

lemma lmm_bytes_simps [simp]:
  "lmm_bytes [] = {}" "lmm_bytes (r # rs) = free_bytes (r_nodes r) \<union> lmm_bytes rs"
  by (simp_all add: lmm_bytes_def)

lemma frame_simps [simp]:
  "frame [] = []" "frame (r # rs) = (r_addr r, r_size r, r_flags r, r_pri r) # frame rs"
  by (simp_all add: frame_def)

lemma apart_frame:
  "frame rs = frame rs' \<Longrightarrow> (\<forall>r' \<in> set rs. apart r r') \<longleftrightarrow> (\<forall>r' \<in> set rs'. apart r r')"
proof (induction rs arbitrary: rs')
  case Nil
  then show ?case by (simp add: frame_def)
next
  case (Cons x rs)
  then obtain y ys where "rs' = y # ys" by (cases rs') simp_all
  with Cons show ?case by (simp add: apart_def)
qed

lemma region_ok_bytes: "region_ok r \<Longrightarrow> x \<in> free_bytes (r_nodes r) \<Longrightarrow> base r + 24 \<le> x \<and> x < limit r"
  using free_bytes_bounds by (auto simp: region_ok_def)

lemma apart_bytes:
  assumes "region_ok r" "lmm_ok rs" "\<forall>r' \<in> set rs. apart r r'" "base r \<le> x" "x < limit r"
  shows "x \<notin> lmm_bytes rs"
proof
  assume "x \<in> lmm_bytes rs"
  then obtain r' where r': "r' \<in> set rs" "x \<in> free_bytes (r_nodes r')" by (auto simp: lmm_bytes_def)
  then have "region_ok r'" using assms(2) by (simp add: lmm_ok_def)
  from region_ok_bytes [OF this r'(2)] assms(3-5) r'(1) show False by (fastforce simp: apart_def)
qed

lemma apart_free_bytes:
  assumes "region_ok r" "lmm_ok rs" "\<forall>r' \<in> set rs. apart r r'"
  shows "free_bytes (r_nodes r) \<inter> lmm_bytes rs = {}"
proof -
  have "x \<notin> lmm_bytes rs" if "x \<in> free_bytes (r_nodes r)" for x
    using region_ok_bytes [OF assms(1) that] by (intro apart_bytes [OF assms]) simp_all
  then show ?thesis by blast
qed

text \<open>A block that lies in the managed part of some region.\<close>

definition in_region :: "lmm \<Rightarrow> nat \<Rightarrow> nat \<Rightarrow> bool" where
  "in_region lmm a n \<longleftrightarrow> 8 dvd a \<and> 8 dvd n \<and> 0 < n \<and>
     (\<exists>r \<in> set lmm. base r + 24 \<le> a \<and> a + n \<le> limit r)"

lemma in_region_alt:
  "in_region lmm a n \<longleftrightarrow> 8 dvd a \<and> 8 dvd n \<and> 0 < n \<and>
     (\<exists>(x, y, _) \<in> set (frame lmm). unat x + 24 \<le> a \<and> a + n \<le> unat x + unat y)"
  by (simp add: in_region_def frame_def)

lemma in_region_frame: "frame lmm = frame lmm' \<Longrightarrow> in_region lmm a n \<longleftrightarrow> in_region lmm' a n"
  by (simp only: in_region_alt)

lemma alloc_regions_ok:
  assumes "lmm_ok lmm" "0 < unat s" "8 dvd unat s" "alloc_regions s flags lmm = (a, lmm')"
  shows "if \<exists>r \<in> set lmm. flags AND NOT (r_flags r) = 0 \<and> (\<exists>n \<in> set (r_nodes r). unat s \<le> sz n)
     then lmm_ok lmm' \<and> frame lmm' = frame lmm \<and> in_region lmm (unat a) (unat s) \<and>
       {unat a ..< unat a + unat s} \<subseteq> lmm_bytes lmm \<and>
       lmm_bytes lmm' = lmm_bytes lmm - {unat a ..< unat a + unat s}
     else a = 0 \<and> lmm' = lmm"
  using assms
proof (induction lmm arbitrary: a lmm')
  case Nil
  then show ?case by simp
next
  case (Cons r rs)
  let ?fits = "\<lambda>r. flags AND NOT (r_flags r) = 0 \<and> (\<exists>n \<in> set (r_nodes r). unat s \<le> sz n)"
  have ok: "region_ok r" "\<forall>r' \<in> set rs. apart r r'" "lmm_ok rs" using Cons.prems(1) by simp_all
  show ?case
  proof (cases "?fits r")
    case True
    then obtain ns where ns: "alloc_nodes s (r_nodes r) = Some (a, ns)"
        "lmm' = r\<lparr>r_nodes := ns, r_free := r_free r - s\<rparr> # rs"
      using Cons.prems(4) alloc_nodes_None [of s "r_nodes r"] by (fastforce split: option.splits)
    have "nodes_ok (base r + 24) (limit r) (r_nodes r)" "limit r < 2 ^ 32" using ok(1) by (simp_all add: region_ok_def)
    note al = alloc_nodes_Some [OF ns(1) this Cons.prems(2,3)]
    let ?B = "{unat a ..< unat a + unat s}"
    have "unat (r_free r - s) = unat (r_free r) - unat s"
      using ok(1) al by (intro unat_sub) (simp add: word_le_nat_alt region_ok_def)
    then have "region_ok (r\<lparr>r_nodes := ns, r_free := r_free r - s\<rparr>)"
      using ok(1) al by (simp add: region_ok_def)
    then have "lmm_ok lmm'" using ok ns(2) by (simp add: apart_def)
    moreover have "x \<notin> lmm_bytes rs" if "x \<in> ?B" for x
      using apart_bytes [OF ok(1,3,2)] al that by auto
    then have "lmm_bytes lmm' = lmm_bytes (r # rs) - ?B" using al ns(2) by auto
    moreover have "in_region (r # rs) (unat a) (unat s)" using al Cons.prems(2,3) by (auto simp: in_region_def)
    ultimately show ?thesis using True al ns(2) by auto
  next
    case False
    obtain a' rs' where r: "alloc_regions s flags rs = (a', rs')" by fastforce
    have "alloc_nodes s (r_nodes r) = None" if "flags AND NOT (r_flags r) = 0"
      using that False by (auto simp: alloc_nodes_None not_le)
    then have res: "a = a'" "lmm' = r # rs'" using Cons.prems(4) r by (auto split: if_splits)
    note ih = Cons.IH [OF ok(3) Cons.prems(2,3) r]
    show ?thesis
    proof (cases "\<exists>r \<in> set rs. ?fits r")
      case True
      with ih have i: "lmm_ok rs'" "frame rs' = frame rs" "in_region rs (unat a') (unat s)"
        "{unat a' ..< unat a' + unat s} \<subseteq> lmm_bytes rs"
        "lmm_bytes rs' = lmm_bytes rs - {unat a' ..< unat a' + unat s}" by simp_all
      have "free_bytes (r_nodes r) \<inter> {unat a' ..< unat a' + unat s} = {}"
        using i(4) apart_free_bytes [OF ok(1,3,2)] by blast
      then have "lmm_bytes lmm' = lmm_bytes (r # rs) - {unat a' ..< unat a' + unat s}"
        unfolding res using i(5) by auto
      moreover have "in_region (r # rs) (unat a') (unat s)" using i(3) by (auto simp: in_region_def)
      ultimately show ?thesis using True i ok apart_frame [OF i(2)] unfolding res by auto
    next
      case no: False
      with ih have "a' = 0 \<and> rs' = rs" by (simp only: if_False)
      moreover have "\<not> (\<exists>r' \<in> set (r # rs). ?fits r')" using no False by simp
      ultimately show ?thesis unfolding res by (simp only: if_False simp_thms)
    qed
  qed
qed


lemma free_regions_ok:
  assumes "lmm_ok lmm" "in_region lmm (unat node) (unat s)"
    "{unat node ..< unat node + unat s} \<inter> lmm_bytes lmm = {}"
  shows "if \<exists>r \<in> set lmm. base r \<le> unat node \<and> unat node < limit r \<and> (\<exists>n \<in> set (r_nodes r). unat node \<le> lo n)
     then \<exists>lmm'. free_regions node s lmm = Inr lmm' \<and> lmm_ok lmm' \<and> frame lmm' = frame lmm \<and>
       lmm_bytes lmm' = lmm_bytes lmm \<union> {unat node ..< unat node + unat s}
     else free_regions node s lmm = Inl Null_Deref"
  using assms
proof (induction lmm)
  case Nil
  then show ?case by (simp add: in_region_def)
next
  case (Cons r rs)
  let ?B = "{unat node ..< unat node + unat s}"
  let ?above = "\<lambda>r. base r \<le> unat node \<and> unat node < limit r \<and> (\<exists>n \<in> set (r_nodes r). unat node \<le> lo n)"
  have ok: "region_ok r" "\<forall>r' \<in> set rs. apart r r'" "lmm_ok rs" using Cons.prems(1) by simp_all
  then have lim: "unat (r_addr r + r_size r) = limit r" by (simp add: region_ok_def unat_add_no_wrap)
  have pos: "0 < unat s" "8 dvd unat node" "8 dvd unat s" using Cons.prems(2) by (simp_all add: in_region_def)
  show ?case
  proof (cases "base r \<le> unat node \<and> unat node < limit r")
    case True
    then have here: "node \<ge> r_addr r \<and> node < r_addr r + r_size r"
      using lim by (simp add: word_le_nat_alt word_less_nat_alt)
    have elsewhere: "\<not> (base r' \<le> unat node \<and> unat node < limit r')" if "r' \<in> set rs" for r'
      using ok(2) True that by (fastforce simp: apart_def)
    have inr: "base r + 24 \<le> unat node" "unat node + unat s \<le> limit r"
      using Cons.prems(2) elsewhere pos(1) by (fastforce simp: in_region_def)+
    have nk: "nodes_ok (base r + 24) (limit r) (r_nodes r)" "limit r < 2 ^ 32"
      using ok(1) by (simp_all add: region_ok_def)
    show ?thesis
    proof (cases "\<exists>n \<in> set (r_nodes r). unat node \<le> lo n")
      case up: True
      have "?B \<inter> free_bytes (r_nodes r) = {}" using Cons.prems(3) by auto
      moreover have "\<exists>n \<in> set (r_nodes r). \<not> n_addr n < node" using up by (auto simp: word_less_nat_alt not_less)
      ultimately obtain ns where ns: "free_nodes node s (r_nodes r) = Inr ns"
        "nodes_ok (base r + 24) (limit r) ns" "free_bytes ns = free_bytes (r_nodes r) \<union> ?B"
        "total ns = total (r_nodes r) + unat s"
        using free_nodes_ok [OF nk inr pos(2,3,1)] by blast
      have "total ns < 2 ^ 32" using nodes_ok_le [OF ns(2)] nk(2) by linarith
      then have "unat (r_free r + s) = total ns"
        using ok(1) ns(4) by (simp add: region_ok_def unat_add_no_wrap)
      then have "region_ok (r\<lparr>r_nodes := ns, r_free := r_free r + s\<rparr>)"
        using ok(1) ns(2) by (simp add: region_ok_def)
      moreover have "?above r" using True up by blast
      ultimately show ?thesis using here ns ok by (auto simp: apart_def)
    next
      case no: False
      then have "free_nodes node s (r_nodes r) = Inl Null_Deref"
        by (intro free_nodes_last) (auto simp: word_less_nat_alt not_le)
      then show ?thesis using here no elsewhere by auto
    qed
  next
    case False
    then have away: "\<not> (node \<ge> r_addr r \<and> node < r_addr r + r_size r)"
      using lim by (simp add: word_le_nat_alt word_less_nat_alt)
    have "\<not> (base r + 24 \<le> unat node \<and> unat node + unat s \<le> limit r)" using False pos(1) by linarith
    then have "in_region rs (unat node) (unat s)" using Cons.prems(2) by (auto simp: in_region_def)
    moreover have "?B \<inter> lmm_bytes rs = {}" using Cons.prems(3) by auto
    ultimately have ih: "if \<exists>r \<in> set rs. ?above r
       then \<exists>lmm'. free_regions node s rs = Inr lmm' \<and> lmm_ok lmm' \<and> frame lmm' = frame rs \<and>
         lmm_bytes lmm' = lmm_bytes rs \<union> ?B
       else free_regions node s rs = Inl Null_Deref"
      by (rule Cons.IH [OF ok(3)])
    have nota: "\<not> ?above r" using False by blast
    show ?thesis
    proof (cases "\<exists>r \<in> set rs. ?above r")
      case True
      with ih obtain rs' where rs': "free_regions node s rs = Inr rs'" "lmm_ok rs'" "frame rs' = frame rs"
        "lmm_bytes rs' = lmm_bytes rs \<union> ?B" by (auto simp only: if_True)
      then have "free_regions node s (r # rs) = Inr (r # rs')" using away by auto
      moreover have "lmm_ok (r # rs')" using rs'(2) ok apart_frame [OF rs'(3)] by simp
      ultimately show ?thesis using True rs'(3,4) by auto
    next
      case none: False
      with ih have "free_regions node s rs = Inl Null_Deref" by (simp only: if_False)
      then have "free_regions node s (r # rs) = Inl Null_Deref" using away by auto
      moreover have "\<not> (\<exists>r' \<in> set (r # rs). ?above r')" using none nota by simp
      ultimately show ?thesis by (simp only: if_False)
    qed
  qed
qed


section \<open>Rounding\<close>

lemma unat_align_down: "unat (align_down x) = unat x - unat x mod 8"
proof -
  have "ALIGN_MASK = mask 3" by (simp add: ALIGN_MASK_def mask_eq_exp_minus_1)
  then show ?thesis using unat_and_not_mask [of x 3] by (simp add: align_down_def)
qed

lemma dvd_align_down: "8 dvd unat (align_down x)"
  unfolding unat_align_down by (metis dvd_minus_mod)

lemma dvd_align_up: "8 dvd unat (align_up x)"
  unfolding align_up_def by (rule dvd_align_down)

lemma unat_align_up:
  "unat x \<le> 2 ^ 32 - 8 \<Longrightarrow> unat (align_up x) = (unat x + 7) div 8 * 8"
proof -
  assume a: "unat x \<le> 2 ^ 32 - 8"
  have "unat (x + 7) = unat x + 7" using a by (subst unat_add_no_wrap) simp_all
  then show ?thesis by (simp add: align_up_def unat_align_down ALIGN_MASK_def minus_mod_eq_div_mult)
qed

lemma align_up_ge:
  assumes "unat x \<le> 2 ^ 32 - 8"
  shows "unat x \<le> unat (align_up x)"
proof -
  have "(unat x + 7) mod 8 < 8" by simp
  moreover have "(unat x + 7) div 8 * 8 + (unat x + 7) mod 8 = unat x + 7" by (rule div_mult_mod_eq)
  ultimately show ?thesis unfolding unat_align_up [OF assms] by linarith
qed

lemma align_up_pos: "0 < unat x \<Longrightarrow> unat x \<le> 2 ^ 32 - 8 \<Longrightarrow> 0 < unat (align_up x)"
  by (rule less_le_trans [OF _ align_up_ge])

lemma aligned_simps:
  assumes "8 dvd unat a"
  shows "align_down a = a" "a AND ALIGN_MASK = 0"
proof -
  have m: "ALIGN_MASK = mask 3" by (simp add: ALIGN_MASK_def mask_eq_exp_minus_1)
  have "unat (align_down a) = unat a" using assms by (simp add: unat_align_down dvd_eq_mod_eq_0)
  then show "align_down a = a" by (simp add: word_unat_eq_iff)
  have "unat (take_bit 3 a) = 0" using assms by (simp add: unat_take_bit dvd_eq_mod_eq_0)
  then show "a AND ALIGN_MASK = 0" by (simp add: m take_bit_eq_mask unat_eq_0)
qed

section \<open>The allocator contract\<close>

text \<open>A request is a size with flags, a block its address and the size it was requested with.\<close>

definition lmm_get :: "u32 \<times> u32 \<Rightarrow> lmm \<Rightarrow> ((u32 \<times> u32) \<times> lmm) option" where
  "lmm_get r lmm = (case r of (n, flags) \<Rightarrow>
     case lmm_alloc lmm n flags of (a, lmm') \<Rightarrow> if a = 0 then None else Some ((a, n), lmm'))"

definition lmm_give :: "u32 \<times> u32 \<Rightarrow> lmm \<Rightarrow> lmm outcome" where
  "lmm_give b lmm = lmm_free lmm (fst b) (snd b)"

definition request_ok :: "u32 \<times> u32 \<Rightarrow> bool" where
  "request_ok r \<longleftrightarrow> 0 < unat (fst r) \<and> unat (fst r) \<le> 2 ^ 32 - 8"

definition block_bytes :: "u32 \<times> u32 \<Rightarrow> nat set" where
  "block_bytes b = {unat (fst b) ..< unat (fst b) + unat (align_up (snd b))}"

definition block_ok :: "lmm \<Rightarrow> u32 \<times> u32 \<Rightarrow> bool" where
  "block_ok lmm b \<longleftrightarrow> in_region lmm (unat (fst b)) (unat (align_up (snd b)))"

lemma lmm_alloc_ok:
  assumes "lmm_ok lmm" "0 < unat n" "unat n \<le> 2 ^ 32 - 8" "lmm_alloc lmm n flags = (a, lmm')"
  shows "if \<exists>r \<in> set lmm. flags AND NOT (r_flags r) = 0 \<and> (\<exists>m \<in> set (r_nodes r). unat (align_up n) \<le> sz m)
     then lmm_ok lmm' \<and> frame lmm' = frame lmm \<and> block_ok lmm (a, n) \<and>
       block_bytes (a, n) \<subseteq> lmm_bytes lmm \<and> lmm_bytes lmm' = lmm_bytes lmm - block_bytes (a, n) \<and> a \<noteq> 0
     else a = 0 \<and> lmm' = lmm"
proof -
  have "a \<noteq> 0" if "in_region lmm (unat a) k" for k using that by (auto simp: in_region_def)
  with alloc_regions_ok [OF assms(1) align_up_pos [OF assms(2,3)] dvd_align_up, of flags a lmm'] assms(4)
  show ?thesis by (auto simp: lmm_alloc_def block_ok_def block_bytes_def split: if_splits)
qed

lemma lmm_free_eq: "block_ok lmm (a, n) \<Longrightarrow> lmm_free lmm a n = free_regions a (align_up n) lmm"
  using aligned_simps [of a] by (simp add: lmm_free_def block_ok_def in_region_def)

lemma lmm_free_ok:
  assumes "lmm_ok lmm" "block_ok lmm (a, n)" "block_bytes (a, n) \<inter> lmm_bytes lmm = {}"
  shows "if \<exists>r \<in> set lmm. base r \<le> unat a \<and> unat a < limit r \<and> (\<exists>m \<in> set (r_nodes r). unat a \<le> lo m)
     then \<exists>lmm'. lmm_free lmm a n = Inr lmm' \<and> lmm_ok lmm' \<and> frame lmm' = frame lmm \<and>
       lmm_bytes lmm' = lmm_bytes lmm \<union> block_bytes (a, n)
     else lmm_free lmm a n = Inl Null_Deref"
  using free_regions_ok [OF assms(1), of a "align_up n"] assms(2,3) lmm_free_eq [OF assms(2)]
  by (simp add: block_ok_def block_bytes_def)

interpretation lmmA: allocator lmm_ok lmm_bytes block_bytes block_ok request_ok lmm_get lmm_give
proof
  fix s r b s'
  assume a: "lmm_ok s" "request_ok r" "lmm_get r s = Some (b, s')"
  obtain n flags where r: "r = (n, flags)" by fastforce
  with a(3) obtain x where x: "lmm_alloc s n flags = (x, s')" "x \<noteq> 0" "b = (x, n)"
    by (auto simp: lmm_get_def split: prod.splits if_splits)
  from lmm_alloc_ok [OF a(1) _ _ x(1)] a(2) r x(2) have
    l: "lmm_ok s'" "frame s' = frame s" "block_ok s (x, n)" "block_bytes (x, n) \<subseteq> lmm_bytes s"
      "lmm_bytes s' = lmm_bytes s - block_bytes (x, n)"
    by (auto simp: request_ok_def split: if_splits)
  then show "lmm_ok s' \<and> block_ok s' b \<and> block_bytes b \<subseteq> lmm_bytes s \<and>
      lmm_bytes s' = lmm_bytes s - block_bytes b \<and> (\<forall>c. block_ok s c \<longrightarrow> block_ok s' c)"
    unfolding x(3) block_ok_def using in_region_frame [OF l(2)] by simp
next
  fix s b s'
  assume a: "lmm_ok s" "block_ok s b" "block_bytes b \<inter> lmm_bytes s = {}" "lmm_give b s = Inr s'"
  obtain x n where b: "b = (x, n)" by fastforce
  from lmm_free_ok [of s x n] a b have
    l: "lmm_ok s'" "frame s' = frame s" "lmm_bytes s' = lmm_bytes s \<union> block_bytes (x, n)"
    by (auto simp: lmm_give_def split: if_splits)
  then show "lmm_ok s' \<and> lmm_bytes s' = lmm_bytes s \<union> block_bytes b \<and>
      (\<forall>c. block_ok s c \<longrightarrow> block_ok s' c)"
    unfolding b block_ok_def using in_region_frame [OF l(2)] by simp
qed


section \<open>Adding a region\<close>

lemma lmm_ok_insert:
  "lmm_ok (xs @ ys) \<Longrightarrow> region_ok r \<Longrightarrow> \<forall>r' \<in> set (xs @ ys). apart r r' \<Longrightarrow> lmm_ok (xs @ r # ys)"
  by (auto simp: lmm_ok_def sorted_wrt_append apart_def)

definition region_before :: "lmm_region \<Rightarrow> lmm_region \<Rightarrow> bool" where
  "region_before r r' \<longleftrightarrow> r_pri r > r_pri r' \<or> (r_pri r = r_pri r' \<and> r_size r \<ge> r_size r')"

lemma region_before_trans: "region_before a b \<Longrightarrow> region_before b c \<Longrightarrow> region_before a c"
  by (auto simp: region_before_def)

lemma sorted_insert_before:
  assumes "sorted_wrt region_before rs" "\<And>r. P r \<Longrightarrow> region_before r x" "\<And>r. \<not> P r \<Longrightarrow> region_before x r"
  shows "sorted_wrt region_before (takeWhile P rs @ x # dropWhile P rs)"
  using assms(1)
proof (induction rs)
  case Nil
  then show ?case by simp
next
  case (Cons r rs)
  show ?case
  proof (cases "P r")
    case True
    then have "\<forall>y \<in> set (takeWhile P rs @ x # dropWhile P rs). region_before r y"
      using Cons.prems assms(2) by (auto dest: set_takeWhileD set_dropWhileD)
    with True Cons show ?thesis by simp
  next
    case False
    then have "region_before x y" if "y \<in> set (r # rs)" for y
      using that Cons.prems assms(3) region_before_trans by (metis set_ConsD sorted_wrt.simps(2))
    with False Cons.prems show ?thesis by simp
  qed
qed

text \<open>The region that \<open>lmm_add\<close> makes of a piece of memory.\<close>

lemma lmm_add_cases:
  assumes "unat mn + unat n < 2 ^ 32" "unat mn \<le> 2 ^ 32 - 8"
  obtains (dropped) "unat (align_down (mn + n)) < unat (align_up mn) + 32" "lmm_add lmm mn n flags pri = lmm"
  | (added) reg where "unat (align_up mn) + 32 \<le> unat (align_down (mn + n))" "region_ok reg"
      "base reg = unat (align_up mn)" "limit reg = unat (align_down (mn + n))" "r_flags reg = flags"
      "free_bytes (r_nodes reg) = {base reg + 24 ..< limit reg}"
      "lmm_add lmm mn n flags pri =
         takeWhile (\<lambda>r. r_pri r > pri \<or> (r_pri r = pri \<and> r_size r > r_size reg)) lmm @ reg #
         dropWhile (\<lambda>r. r_pri r > pri \<or> (r_pri r = pri \<and> r_size r > r_size reg)) lmm" "r_pri reg = pri"
proof -
  let ?mn = "align_up mn" and ?mx = "align_down (mn + n)"
  have c: "unat (24 :: u32) = 24" "unat (8 :: u32) = 8" "unat (32 :: u32) = 32" by simp_all
  have mx: "unat ?mx < 2 ^ 32" using unsigned_less [of ?mx] by simp
  show thesis
  proof (cases "unat ?mn + 32 \<le> unat ?mx")
    case False
    then have "?mx < ?mn \<or> ?mx - ?mn < 32"
      by (auto simp: word_less_nat_alt unat_sub_if' c)
    then have "lmm_add lmm mn n flags pri = lmm"
      by (simp add: lmm_add_def Let_def sizeof_lmm_region_def sizeof_lmm_node_def)
    with False show ?thesis by (intro dropped) simp_all
  next
    case True
    have nodes: "unat (?mn + 24) = unat ?mn + 24"
      using True mx by (subst unat_add_no_wrap) (simp_all add: c)
    have sub: "unat (?mx - ?mn) = unat ?mx - unat ?mn" "unat (?mx - (?mn + 24)) = unat ?mx - (unat ?mn + 24)"
      using True nodes by (auto simp: unat_sub_if')
    let ?reg = "\<lparr>r_addr = ?mn, r_nodes = [\<lparr>n_addr = ?mn + 24, n_size = ?mx - (?mn + 24)\<rparr>], r_flags = flags,
                   r_pri = pri, r_size = ?mx - ?mn, r_free = ?mx - (?mn + 24)\<rparr>"
    have "\<not> (?mx < ?mn \<or> ?mx - ?mn < 32)" using True sub by (simp add: word_less_nat_alt c)
    then have "lmm_add lmm mn n flags pri =
         takeWhile (\<lambda>r. r_pri r > pri \<or> (r_pri r = pri \<and> r_size r > r_size ?reg)) lmm @ ?reg #
         dropWhile (\<lambda>r. r_pri r > pri \<or> (r_pri r = pri \<and> r_size r > r_size ?reg)) lmm"
      by (simp add: lmm_add_def Let_def sizeof_lmm_region_def sizeof_lmm_node_def)
    moreover have "8 dvd unat ?mn" "8 dvd unat ?mx" by (rule dvd_align_up, rule dvd_align_down)
    then have "region_ok ?reg"
      using True mx sub nodes by (auto simp: region_ok_def dvd_diff_nat dvd_add)
    moreover have "free_bytes (r_nodes ?reg) = {base ?reg + 24 ..< limit ?reg}"
      using True sub nodes by (simp add: node_bytes_def)
    ultimately show ?thesis using True sub by (intro added [of ?reg]) simp_all
  qed
qed

lemma lmm_add_ok:
  assumes "lmm_ok lmm" "unat mn + unat n < 2 ^ 32" "unat mn \<le> 2 ^ 32 - 8"
    "\<forall>r \<in> set lmm. limit r \<le> unat mn \<or> unat mn + unat n \<le> base r"
  shows "lmm_ok (lmm_add lmm mn n flags pri)"
    "lmm_bytes (lmm_add lmm mn n flags pri) =
       lmm_bytes lmm \<union> {unat (align_up mn) + 24 ..< unat (align_down (mn + n))}"
    "sorted_wrt region_before lmm \<Longrightarrow> sorted_wrt region_before (lmm_add lmm mn n flags pri)"
proof -
  have up: "unat mn \<le> unat (align_up mn)" using align_up_ge [OF assms(3)] .
  have down: "unat (align_down (mn + n)) \<le> unat mn + unat n"
    using unat_add_no_wrap [of mn n] assms(2) by (simp add: unat_align_down)
  have "lmm_ok (lmm_add lmm mn n flags pri) \<and>
      lmm_bytes (lmm_add lmm mn n flags pri) =
        lmm_bytes lmm \<union> {unat (align_up mn) + 24 ..< unat (align_down (mn + n))} \<and>
      (sorted_wrt region_before lmm \<longrightarrow> sorted_wrt region_before (lmm_add lmm mn n flags pri))"
    using assms(2,3)
  proof (cases rule: lmm_add_cases [of mn n lmm flags pri])
    case dropped
    obtain x y where xy: "unat (align_up mn) = 8 * x" "unat (align_down (mn + n)) = 8 * y"
      using dvd_align_up dvd_align_down by (metis dvdE)
    with dropped(1) have "y \<le> x + 3" by simp
    with xy have "{unat (align_up mn) + 24 ..< unat (align_down (mn + n))} = {}" by simp
    with dropped(2) assms(1) show ?thesis by simp
  next
    case (added reg)
    let ?P = "\<lambda>r. r_pri r > pri \<or> (r_pri r = pri \<and> r_size r > r_size reg)"
    have "\<forall>r \<in> set lmm. apart reg r" using assms(4) added up down by (fastforce simp: apart_def)
    then have "lmm_ok (takeWhile ?P lmm @ reg # dropWhile ?P lmm)"
      using assms(1) added(2) by (intro lmm_ok_insert) simp_all
    moreover have "lmm_bytes (takeWhile ?P lmm @ reg # dropWhile ?P lmm) = lmm_bytes lmm \<union> free_bytes (r_nodes reg)"
      unfolding lmm_bytes_def set_insert_while by auto
    moreover have "sorted_wrt region_before (takeWhile ?P lmm @ reg # dropWhile ?P lmm)"
      if "sorted_wrt region_before lmm"
      using that by (rule sorted_insert_before) (auto simp: region_before_def added(8))
    ultimately show ?thesis using added by simp
  qed
  then show "lmm_ok (lmm_add lmm mn n flags pri)"
    "lmm_bytes (lmm_add lmm mn n flags pri) =
       lmm_bytes lmm \<union> {unat (align_up mn) + 24 ..< unat (align_down (mn + n))}"
    "sorted_wrt region_before lmm \<Longrightarrow> sorted_wrt region_before (lmm_add lmm mn n flags pri)" by blast+
qed


section \<open>Properties\<close>

text \<open>One page of memory at address 4096, for the witnesses.\<close>

definition demo_lmm :: lmm where
  "demo_lmm = lmm_add lmm_init 4096 4096 0 0"

lemma demo_lmm_eq:
  "demo_lmm = [\<lparr>r_addr = 4096, r_nodes = [\<lparr>n_addr = 4120, n_size = 4072\<rparr>], r_flags = 0, r_pri = 0,
     r_size = 4096, r_free = 4072\<rparr>]"
  by (simp add: demo_lmm_def lmm_add_def lmm_init_def align_up_def align_down_def ALIGN_MASK_def
      sizeof_lmm_region_def sizeof_lmm_node_def Let_def)

lemma demo_lmm_ok: "lmm_ok demo_lmm"
  unfolding demo_lmm_def by (rule lmm_add_ok) (simp_all add: lmm_init_def)

text \<open>
  C2 (safety). Over any sequence of allocations and releases that does not fault, starting from
  an empty set of blocks: the blocks held are pairwise disjoint and disjoint from the free
  memory, free and held memory together are the free memory of the start, and the structure
  stays well formed (so every assertion of the code holds).
\<close>

theorem lmm_run_disjoint:
  assumes "lmm_ok lmm" "\<forall>r \<in> requests ops. request_ok r"
    "mem_run lmm_get lmm_give ops [] lmm = Inr (bs, lmm')"
  shows "lmm_ok lmm' \<and> sorted_wrt (\<lambda>b c. block_bytes b \<inter> block_bytes c = {}) bs \<and>
     (\<Union>b \<in> set bs. block_bytes b) \<inter> lmm_bytes lmm' = {} \<and>
     (\<Union>b \<in> set bs. block_bytes b) \<union> lmm_bytes lmm' = lmm_bytes lmm"
proof -
  have "lmmA.consistent [] lmm" using assms(1) by (simp add: lmmA.consistent_def lmmA.held_def)
  from lmmA.mem_run_consistent [OF this assms(2,3)] show ?thesis
    by (simp add: lmmA.consistent_def lmmA.held_def)
qed

theorem lmm_run_disjoint_witness:
  "\<exists>bs lmm'. mem_run lmm_get lmm_give [Get (100, 0), Get (20, 0), Give 1] [] demo_lmm = Inr (bs, lmm') \<and>
     bs = [(4224, 20)] \<and> lmm_ok lmm'"
proof -
  let ?ops = "[Get (100, 0), Get (20, 0), Give 1] :: (u32 \<times> u32) mem_op list"
  have "\<exists>lmm'. mem_run lmm_get lmm_give ?ops [] demo_lmm = Inr ([(4224, 20)], lmm')"
    by (simp add: demo_lmm_eq lmm_get_def lmm_give_def lmm_alloc_def lmm_free_def align_up_def
        align_down_def ALIGN_MASK_def free_nodes_def Let_def remove_nth_def)
  then obtain lmm' where r: "mem_run lmm_get lmm_give ?ops [] demo_lmm = Inr ([(4224, 20)], lmm')" ..
  have "\<forall>r \<in> requests ?ops. request_ok r" by (auto simp: requests_def request_ok_def)
  from lmm_run_disjoint [OF demo_lmm_ok this r] r show ?thesis by blast
qed


text \<open>
  C14 (functional). \<open>lmm_alloc\<close> succeeds exactly when a region with the requested flags has a free
  block of the rounded size. It then answers an 8-byte aligned block inside that memory and
  takes exactly its bytes from the free memory; otherwise it answers null and changes nothing.
\<close>

theorem lmm_alloc_first_fit:
  assumes "lmm_ok lmm" "0 < unat n" "unat n \<le> 2 ^ 32 - 8"
  shows "case lmm_alloc lmm n flags of (a, lmm') \<Rightarrow>
     if \<exists>r \<in> set lmm. flags AND NOT (r_flags r) = 0 \<and>
          (\<exists>m \<in> set (r_nodes r). (unat n + 7) div 8 * 8 \<le> unat (n_size m))
     then a \<noteq> 0 \<and> 8 dvd unat a \<and> lmm_ok lmm' \<and>
       {unat a ..< unat a + (unat n + 7) div 8 * 8} \<subseteq> lmm_bytes lmm \<and>
       lmm_bytes lmm' = lmm_bytes lmm - {unat a ..< unat a + (unat n + 7) div 8 * 8}
     else a = 0 \<and> lmm' = lmm"
proof -
  obtain a lmm' where r: "lmm_alloc lmm n flags = (a, lmm')" by fastforce
  from lmm_alloc_ok [OF assms r] show ?thesis
    unfolding r block_bytes_def block_ok_def in_region_def fst_conv snd_conv unat_align_up [OF assms(3)]
    by (simp split: if_splits)
qed

theorem lmm_alloc_first_fit_witness:
  "\<exists>a lmm'. lmm_alloc demo_lmm 13 0 = (a, lmm') \<and> a = 4120 \<and>
     lmm_bytes lmm' = lmm_bytes demo_lmm - {4120 ..< 4136}"
proof -
  have "fst (lmm_alloc demo_lmm 13 0) = 4120"
    by (simp add: demo_lmm_eq lmm_alloc_def align_up_def align_down_def ALIGN_MASK_def)
  moreover have "\<exists>r \<in> set demo_lmm. (0 :: u32) AND NOT (r_flags r) = 0 \<and>
      (\<exists>m \<in> set (r_nodes r). (unat (13 :: u32) + 7) div 8 * 8 \<le> unat (n_size m))"
    by (simp add: demo_lmm_eq)
  ultimately show ?thesis
    using lmm_alloc_first_fit [OF demo_lmm_ok, of 13 0] by (cases "lmm_alloc demo_lmm 13 0") simp
qed

text \<open>
  C15 (functional). \<open>lmm_free\<close> of a block that lies in a region and overlaps no free memory: if
  the region has a free block above it, the call returns and exactly the bytes of the block
  become free (whatever neighbours it is merged with). If the region has none, the code
  dereferences the null pointer.
\<close>

theorem lmm_free_exact:
  assumes "lmm_ok lmm" "r \<in> set lmm" "8 dvd unat a" "0 < unat n" "unat n \<le> 2 ^ 32 - 8"
    "base r + 24 \<le> unat a" "unat a + (unat n + 7) div 8 * 8 \<le> limit r"
    "{unat a ..< unat a + (unat n + 7) div 8 * 8} \<inter> lmm_bytes lmm = {}"
  shows "if \<exists>m \<in> set (r_nodes r). unat a \<le> unat (n_addr m)
     then \<exists>lmm'. lmm_free lmm a n = Inr lmm' \<and> lmm_ok lmm' \<and>
       lmm_bytes lmm' = lmm_bytes lmm \<union> {unat a ..< unat a + (unat n + 7) div 8 * 8}
     else lmm_free lmm a n = Inl Null_Deref"
proof -
  have up: "unat (align_up n) = (unat n + 7) div 8 * 8" by (rule unat_align_up [OF assms(5)])
  have blk: "block_ok lmm (a, n)"
    using assms(2,3,6,7) align_up_pos [OF assms(4,5)] dvd_align_up [of n]
    by (auto simp: block_ok_def in_region_def up)
  have here: "base r \<le> unat a" "unat a < limit r"
    using assms(6,7) align_up_pos [OF assms(4,5)] by (simp_all add: up)
  have uniq: "r' = r" if "r' \<in> set lmm" "base r' \<le> unat a" "unat a < limit r'" for r'
  proof (rule ccontr)
    assume "r' \<noteq> r"
    with that(1) assms(1,2) have "apart r r' \<or> apart r' r"
      by (auto simp: lmm_ok_def in_set_conv_nth sorted_wrt_iff_nth_less neq_iff) (metis linorder_neqE_nat)
    with that here show False by (auto simp: apart_def)
  qed
  have above: "(\<exists>r' \<in> set lmm. base r' \<le> unat a \<and> unat a < limit r' \<and> (\<exists>m \<in> set (r_nodes r'). unat a \<le> lo m)) \<longleftrightarrow>
      (\<exists>m \<in> set (r_nodes r). unat a \<le> lo m)"
    using uniq assms(2) here by blast
  have "block_bytes (a, n) \<inter> lmm_bytes lmm = {}" using assms(8) by (simp add: block_bytes_def up)
  from lmm_free_ok [OF assms(1) blk this] show ?thesis
    unfolding above block_bytes_def fst_conv snd_conv up by (meson)
qed

text \<open>All of the page allocated as one block, so that no free block is left above it.\<close>

definition full_lmm :: lmm where
  "full_lmm = snd (lmm_alloc demo_lmm 4072 0)"

lemma full_lmm_eq:
  "full_lmm = [\<lparr>r_addr = 4096, r_nodes = [], r_flags = 0, r_pri = 0, r_size = 4096, r_free = 0\<rparr>]"
  by (simp add: full_lmm_def demo_lmm_eq lmm_alloc_def align_up_def align_down_def ALIGN_MASK_def)

theorem lmm_free_exact_witness:
  "lmm_free full_lmm 4120 4072 = Inl Null_Deref \<and>
   (\<exists>lmm'. lmm_free (snd (lmm_alloc demo_lmm 13 0)) 4120 13 = Inr lmm' \<and> lmm_bytes lmm' = {4120 ..< 8192})"
proof
  have "lmm_ok full_lmm" by (simp add: full_lmm_eq region_ok_def)
  from lmm_free_exact [OF this, of "hd full_lmm" 4120 4072] show "lmm_free full_lmm 4120 4072 = Inl Null_Deref"
    by (simp add: full_lmm_eq)
next
  let ?l = "snd (lmm_alloc demo_lmm 13 0)"
  have l: "?l = [\<lparr>r_addr = 4096, r_nodes = [\<lparr>n_addr = 4136, n_size = 4056\<rparr>], r_flags = 0, r_pri = 0,
     r_size = 4096, r_free = 4056\<rparr>]"
    by (simp add: demo_lmm_eq lmm_alloc_def align_up_def align_down_def ALIGN_MASK_def)
  have "lmm_ok ?l" unfolding l by (simp add: region_ok_def)
  from lmm_free_exact [OF this, of "hd ?l" 4120 13]
  show "\<exists>lmm'. lmm_free ?l 4120 13 = Inr lmm' \<and> lmm_bytes lmm' = {4120 ..< 8192}"
    unfolding l by (auto simp: node_bytes_def)
qed

end
