(* ===== verification/LmmAligned.thy ===== *)
theory LmmAligned
  imports Lmm
begin

text \<open>
  Correctness of \<open>lmm_alloc_gen\<close>, the allocator for blocks with an alignment, an offset and an
  address range, and of its instances \<open>lmm_alloc_aligned\<close> and \<open>lmm_alloc_page\<close>
  (\<^verbatim>\<open>src/mach/libmach/lmm/lmm_alloc_gen.c\<close>). The definitions are in theory \<open>Lmm\<close>.
\<close>

section \<open>The alignment loop\<close>

lemma mod_double_add:
  fixes u v m :: nat
  assumes "u mod m = v mod m" "odd (u div m) \<noteq> odd (v div m)" "0 < m"
  shows "(u + m) mod (m * 2) = v mod (m * 2)"
proof -
  have u: "u mod (m * 2) = m * (u div m mod 2) + u mod m" and v: "v mod (m * 2) = m * (v div m mod 2) + v mod m"
    by (simp_all only: mod_mult2_eq)
  have "(u + m) mod (m * 2) = (u mod (m * 2) + m) mod (m * 2)" by (simp only: mod_add_left_eq)
  moreover have "u mod m < m" using assms(3) by simp
  moreover have "(m + t + m) mod (m * 2) = t" if "t < m" for t
  proof -
    have "m + t + m = t + m * 2" by simp
    then have "(m + t + m) mod (m * 2) = t mod (m * 2)" by (simp only: mod_add_self2)
    with that show ?thesis by simp
  qed
  ultimately show ?thesis using assms(1,2) u v
    by (cases "odd (u div m)") (simp_all add: odd_iff_mod_2_eq_one)
qed

lemma take_bit_add_exp:
  fixes a ofs :: u32
  assumes "take_bit i a = take_bit i ofs" "bit a i \<noteq> bit ofs i" "i < 32"
  shows "take_bit (Suc i) (a + 2 ^ i) = take_bit (Suc i) ofs"
proof -
  have d: "(2::nat) ^ Suc i dvd 2 ^ 32" using assms(3) by (intro le_imp_power_dvd) simp
  have "unat (a + 2 ^ i) mod 2 ^ Suc i = (unat a + 2 ^ i) mod 2 ^ Suc i"
    using assms(3) mod_mod_cancel [OF d] by (simp add: unat_word_ariths unat_exp2)
  also have "\<dots> = unat ofs mod 2 ^ Suc i"
    using mod_double_add [of "unat a" "2 ^ i" "unat ofs"] assms(1,2)
    by (simp add: unat_take_bit [symmetric] bit_unsigned_iff bit_iff_odd [symmetric] mult.commute)
  finally show ?thesis by (simp add: word_unat_eq_iff unat_take_bit)
qed

lemma align_loop_spec:
  "take_bit i addr = take_bit i ofs \<Longrightarrow> i \<le> n \<Longrightarrow> n \<le> 31 \<Longrightarrow> unat addr + (2 ^ n - 2 ^ i) < 2 ^ 32 \<Longrightarrow>
   unat addr \<le> unat (align_loop i n ofs addr) \<and>
   unat (align_loop i n ofs addr) \<le> unat addr + (2 ^ n - 2 ^ i) \<and>
   take_bit n (align_loop i n ofs addr) = take_bit n ofs"
proof (induction i n ofs addr rule: align_loop.induct)
  case (1 i n ofs addr)
  show ?case
  proof (cases "i < n")
    case False
    then have "i = n" using "1.prems" by simp
    with "1.prems" show ?thesis by (subst (1 2 3) align_loop.simps) simp
  next
    case True
    let ?a = "if (addr XOR ofs) AND push_bit i 1 \<noteq> 0 then addr + push_bit i 1 else addr"
    have tb: "(addr XOR ofs) AND push_bit i 1 \<noteq> 0 \<longleftrightarrow> bit addr i \<noteq> bit ofs i"
      by (simp add: push_bit_of_1 and_exp_eq_0_iff_not_bit bit_xor_iff)
    have pow: "(2::nat) ^ Suc i \<le> 2 ^ n" using True by (intro power_increasing) simp_all
    have u1: "unat (push_bit i 1 :: u32) = 2 ^ i" using True "1.prems"(3) by (simp add: push_bit_of_1 unat_exp2)
    have ua: "unat addr \<le> unat ?a" "unat ?a \<le> unat addr + 2 ^ i"
      using u1 pow "1.prems"(4) by (auto simp: unat_add_no_wrap)
    have "take_bit (Suc i) ?a = take_bit (Suc i) ofs"
    proof (cases "bit addr i = bit ofs i")
      case True
      then have "?a = addr" using tb by simp
      moreover have "bit addr k = bit ofs k" if "k < i" for k
        using "1.prems"(1) that by (metis bit_take_bit_iff)
      then have "take_bit (Suc i) addr = take_bit (Suc i) ofs" using True
        by (intro bit_eqI) (auto simp: bit_take_bit_iff less_Suc_eq)
      ultimately show ?thesis by (simp only:)
    next
      case False
      then show ?thesis using tb True take_bit_add_exp [OF "1.prems"(1)] "1.prems"(3) by (simp add: push_bit_of_1)
    qed
    moreover have "unat ?a + (2 ^ n - 2 ^ Suc i) < 2 ^ 32" using ua pow "1.prems"(4) by simp
    ultimately have ih: "unat ?a \<le> unat (align_loop (Suc i) n ofs ?a) \<and>
       unat (align_loop (Suc i) n ofs ?a) \<le> unat ?a + (2 ^ n - 2 ^ Suc i) \<and>
       take_bit n (align_loop (Suc i) n ofs ?a) = take_bit n ofs"
      using "1.IH" [OF True refl] True "1.prems"(3) by simp
    have step: "align_loop i n ofs addr = align_loop (Suc i) n ofs ?a"
      using True by (subst align_loop.simps) (simp add: Let_def)
    have "unat ?a + (2 ^ n - 2 ^ Suc i) \<le> unat addr + (2 ^ n - 2 ^ i)" using ua pow by simp
    then show ?thesis unfolding step using ih ua(1) by (blast intro: le_trans)
  qed
qed

section \<open>One region\<close>

lemma round_up_le:
  fixes x y :: nat
  assumes "x \<le> y" "8 dvd y"
  shows "(x + 7) div 8 * 8 \<le> y"
proof -
  from assms(2) obtain k where k: "y = 8 * k" by (auto elim: dvdE)
  have "(x + 7) div 8 * 8 \<le> x + 7" by simp
  then have "(x + 7) div 8 * 8 < 8 * k + 8" using assms(1) k by linarith
  then have "(x + 7) div 8 < k + 1" by simp
  then show ?thesis using k by simp
qed

lemma unat_and_align_mask: "unat (x AND ALIGN_MASK) = unat x mod 8"
proof -
  have "ALIGN_MASK = mask 3" by (simp add: ALIGN_MASK_def mask_eq_exp_minus_1)
  then show ?thesis using unat_take_bit [of 3 x] by (simp add: take_bit_eq_mask)
qed

text \<open>The three parts of a node that serves a request: before, taken, behind.\<close>

definition cut_node :: "lmm_node \<Rightarrow> u32 \<Rightarrow> u32 \<Rightarrow> lmm_node list" where
  "cut_node node anode taken =
     (let asize = (if anode > n_addr node then n_size node - (anode - n_addr node) else n_size node) in
      (if anode > n_addr node then [node\<lparr>n_size := anode - n_addr node\<rparr>] else []) @
      (if asize > taken then [\<lparr>n_addr = anode + taken, n_size = asize - taken\<rparr>] else []))"

lemma cut_node_ok:
  assumes n: "8 dvd lo n" "8 dvd sz n" "lo n + sz n \<le> h" "h < 2 ^ 32" "l \<le> lo n"
    and a: "lo n \<le> unat a" "8 dvd unat a" "8 dvd unat t" "unat a + unat t \<le> lo n + sz n" "0 < unat t"
    and rest: "nodes_ok (lo n + sz n) h ns"
  shows "nodes_ok l h (cut_node n a t @ ns) \<and>
     free_bytes (cut_node n a t @ ns) = free_bytes (n # ns) - {unat a ..< unat a + unat t} \<and>
     total (n # ns) = total (cut_node n a t @ ns) + unat t"
proof -
  define x where "x = unat a - lo n"
  have d: "unat (a - n_addr n) = x" using a(1) by (simp add: x_def unat_sub word_le_nat_alt)
  have gt: "a > n_addr n \<longleftrightarrow> 0 < x" using a(1) by (auto simp: word_less_nat_alt x_def)
  have ax: "unat a = lo n + x" using a(1) by (simp add: x_def)
  define asize where "asize = (if a > n_addr n then n_size n - (a - n_addr n) else n_size n)"
  have as: "unat asize = sz n - x"
    using a(4) ax gt by (auto simp: asize_def unat_sub_if' d)
  have dx: "8 dvd x" using n(1) a(2) by (simp add: x_def dvd_diff_nat)
  have bt: "unat (a + t) = unat a + unat t" "unat (asize - t) = sz n - x - unat t"
    using a(4) n(3,4) ax as by (simp_all add: unat_add_no_wrap unat_sub_if')
  have more: "asize > t \<longleftrightarrow> unat t < sz n - x" by (simp add: word_less_nat_alt as)
  let ?F = "(if 0 < x then [n\<lparr>n_size := a - n_addr n\<rparr>] else [])"
  let ?B = "(if unat t < sz n - x then [\<lparr>n_addr = a + t, n_size = asize - t\<rparr>] else [])"
  have cut: "cut_node n a t = ?F @ ?B"
    unfolding cut_node_def Let_def asize_def [symmetric] by (simp add: gt more)
  have fb: "free_bytes ?F = {lo n ..< lo n + x}" by (auto simp: node_bytes_def d)
  have bb: "free_bytes ?B = {lo n + x + unat t ..< lo n + sz n}"
    using a(4) ax by (auto simp: node_bytes_def bt)
  have above: "y \<in> free_bytes ns \<Longrightarrow> lo n + sz n \<le> y" for y using free_bytes_bounds [OF rest] by blast
  have "free_bytes (cut_node n a t @ ns) = free_bytes (n # ns) - {unat a ..< unat a + unat t}"
  proof (rule set_eqI)
    fix y
    show "y \<in> free_bytes (cut_node n a t @ ns) \<longleftrightarrow> y \<in> free_bytes (n # ns) - {unat a ..< unat a + unat t}"
      using a(4) ax above [of y] unfolding cut free_bytes_simps fb bb node_bytes_def by auto
  qed
  moreover have "nodes_ok l h (cut_node n a t @ ns)"
  proof -
    have "nodes_ok (lo n + x + unat t) h (?B @ ns)"
      using rest nodes_ok_mono [OF rest, of "lo n + x + unat t"] a(2,3,4) ax n(2) dx
      by (auto simp: bt dvd_diff_nat)
    then show ?thesis
      using nodes_ok_mono [of "lo n + x + unat t" h "?B @ ns" "lo n + x"]
        nodes_ok_mono [of "lo n + x + unat t" h "?B @ ns" l] n(1,5) dx d
      unfolding cut by auto
  qed
  moreover have "total (n # ns) = total (cut_node n a t @ ns) + unat t"
    unfolding cut using a(4) ax d bt by auto
  ultimately show ?thesis by blast
qed


text \<open>What a successful search of \<open>gen_nodes\<close> gives: the address \<open>a\<close>, the bytes taken from the
  aligned address below it, and the remaining list.\<close>

definition gen_result ::
  "u32 \<Rightarrow> nat \<Rightarrow> u32 \<Rightarrow> u32 \<Rightarrow> u32 \<Rightarrow> nat \<Rightarrow> nat \<Rightarrow> lmm_node list \<Rightarrow> u32 \<Rightarrow> u32 \<Rightarrow> lmm_node list \<Rightarrow> bool" where
  "gen_result n bits ofs in_min in_max l h ns a t ns' \<longleftrightarrow>
     t = align_up ((a AND ALIGN_MASK) + n) \<and> nodes_ok l h ns' \<and> l \<le> unat (align_down a) \<and> unat (align_down a) + unat t \<le> h \<and> 8 dvd unat t \<and>
     unat (align_down a) \<le> unat a \<and> unat a + unat n \<le> unat (align_down a) + unat t \<and>
     {unat (align_down a) ..< unat (align_down a) + unat t} \<subseteq> free_bytes ns \<and>
     free_bytes ns' = free_bytes ns - {unat (align_down a) ..< unat (align_down a) + unat t} \<and>
     total ns = total ns' + unat t \<and>
     unat in_min \<le> unat a \<and> unat a + unat n \<le> unat in_max \<and> take_bit bits a = take_bit bits ofs"

lemma gen_hit:
  assumes n: "8 dvd lo n" "8 dvd sz n" "lo n + sz n \<le> h" "l \<le> lo n" "8 \<le> l"
    and rest: "nodes_ok (lo n + sz n) h ns"
    and wide: "h + 2 ^ bits + unat s \<le> 2 ^ 32" "unat in_min < h" "bits \<le> 31" "0 < unat s"
    and addr: "addr = align_loop 0 bits ofs (if n_addr n < in_min then in_min else n_addr n)"
    and fits: "\<not> addr - n_addr n + s > n_size n" "\<not> addr + s > in_max" "0 < sz n"
  shows "gen_result s bits ofs in_min in_max l h (n # ns) addr (align_up ((addr AND ALIGN_MASK) + s))
     (cut_node n (align_down addr) (align_up ((addr AND ALIGN_MASK) + s)) @ ns)"
proof -
  let ?x = "if n_addr n < in_min then in_min else n_addr n"
  let ?A = "unat (align_down addr)" and ?t = "align_up ((addr AND ALIGN_MASK) + s)"
  have h32: "h < 2 ^ 32" using wide(1,4) by linarith
  have x: "lo n \<le> unat ?x" "unat in_min \<le> unat ?x" "unat ?x < h"
    using n(3) wide(2) fits(3) by (auto simp: word_less_nat_alt)
  have al: "unat ?x \<le> unat addr" "unat addr \<le> unat ?x + (2 ^ bits - 1)" "take_bit bits addr = take_bit bits ofs"
    using align_loop_spec [of 0 ?x ofs bits] x(3) wide unfolding addr [symmetric] by (simp_all add: addr)
  have lt: "unat addr + unat s < 2 ^ 32" using al(2) x(3) wide(1) by simp
  have sub: "unat (addr - n_addr n) = unat addr - lo n" using al(1) x(1) by (simp add: unat_sub_if')
  then have "unat (addr - n_addr n + s) = unat addr - lo n + unat s"
    using lt by (subst unat_add_no_wrap) simp_all
  with fits(1) al(1) x(1) have fit: "unat addr + unat s \<le> lo n + sz n" by (simp add: word_less_nat_alt)
  have inmax: "unat addr + unat s \<le> unat in_max"
    using fits(2) lt by (simp add: word_less_nat_alt unat_add_no_wrap)
  have A: "?A = unat addr - unat addr mod 8" by (rule unat_align_down)
  have A': "?A + unat addr mod 8 = unat addr" "?A \<le> unat addr" by (simp_all add: A)
  have An: "lo n \<le> ?A"
  proof -
    obtain k where k: "lo n = 8 * k" using n(1) by (auto elim: dvdE)
    then have "k \<le> unat addr div 8" using al(1) x(1) by (simp add: less_eq_div_iff_mult_less_eq mult.commute)
    then show ?thesis using k by (simp add: A minus_mod_eq_mult_div)
  qed
  have in8: "unat ((addr AND ALIGN_MASK) + s) = unat addr mod 8 + unat s"
    using lt A'(1) by (subst unat_add_no_wrap) (simp_all add: unat_and_align_mask)
  have small: "unat ((addr AND ALIGN_MASK) + s) \<le> 2 ^ 32 - 8"
    using in8 A'(1) An n(4,5) lt by simp
  have t: "unat ?t = (unat addr mod 8 + unat s + 7) div 8 * 8" using unat_align_up [OF small] in8 by simp
  have tge: "unat addr mod 8 + unat s \<le> unat ?t" using align_up_ge [OF small] in8 by simp
  have "8 dvd lo n + sz n - ?A" using n(1,2) dvd_align_down [of addr] by (intro dvd_diff_nat dvd_add)
  moreover have "unat addr mod 8 + unat s \<le> lo n + sz n - ?A" using fit A'(1) by linarith
  ultimately have "unat ?t \<le> lo n + sz n - ?A" unfolding t by (intro round_up_le)
  then have At: "?A + unat ?t \<le> lo n + sz n" using A' fit by linarith
  have cut: "nodes_ok l h (cut_node n (align_down addr) ?t @ ns)"
     "free_bytes (cut_node n (align_down addr) ?t @ ns) = free_bytes (n # ns) - {?A ..< ?A + unat ?t}"
     "total (n # ns) = total (cut_node n (align_down addr) ?t @ ns) + unat ?t"
    using cut_node_ok [OF n(1,2,3) h32 n(4) An dvd_align_down dvd_align_up At _ rest] tge wide(4) by simp_all
  have "{?A ..< ?A + unat ?t} \<subseteq> free_bytes (n # ns)" using An At by (auto simp: node_bytes_def)
  with cut al x inmax A' An At tge n(3,4) dvd_align_up [of "(addr AND ALIGN_MASK) + s"] show ?thesis
    unfolding gen_result_def by (intro conjI) (rule refl | assumption | linarith)+
qed

lemma gen_nodes_Some:
  assumes "gen_nodes s bits ofs in_min in_max ns = Some (a, t, ns')" "nodes_ok l h ns" "8 \<le> l"
    "h + 2 ^ bits + unat s \<le> 2 ^ 32" "unat in_min < h" "bits \<le> 31" "0 < unat s"
  shows "gen_result s bits ofs in_min in_max l h ns a t ns'"
  using assms
proof (induction ns arbitrary: l ns')
  case Nil
  then show ?case by simp
next
  case (Cons n ns)
  have ok: "nodes_ok (lo n + sz n) h ns" "l \<le> lo n" "8 dvd lo n" "8 dvd sz n" "0 < sz n"
    using Cons.prems(2) by simp_all
  have le: "lo n + sz n \<le> h" using nodes_ok_le [OF ok(1)] by simp
  define addr where "addr = align_loop 0 bits ofs (if n_addr n < in_min then in_min else n_addr n)"
  have step: "gen_nodes s bits ofs in_min in_max (n # ns) =
     (if n_size n < s \<or> addr - n_addr n + s > n_size n
      then map_option (\<lambda>(a, taken, ns'). (a, taken, n # ns')) (gen_nodes s bits ofs in_min in_max ns)
      else if addr + s > in_max then None
      else Some (addr, align_up ((addr AND ALIGN_MASK) + s),
        cut_node n (align_down addr) (align_up ((addr AND ALIGN_MASK) + s)) @ ns))"
    by (simp add: addr_def [symmetric] Let_def cut_node_def)
  show ?case
  proof (cases "n_size n < s \<or> addr - n_addr n + s > n_size n")
    case True
    then obtain ns1 where r: "gen_nodes s bits ofs in_min in_max ns = Some (a, t, ns1)" "ns' = n # ns1"
      using Cons.prems(1) unfolding step by auto
    have l8: "8 \<le> lo n + sz n" using ok(2) Cons.prems(3) by simp
    note ih = Cons.IH [OF r(1) ok(1) l8 Cons.prems(4-7)]
    then have "node_bytes n \<inter> {unat (align_down a) ..< unat (align_down a) + unat t} = {}"
      by (auto simp: gen_result_def node_bytes_def)
    then have "node_bytes n - {unat (align_down a) ..< unat (align_down a) + unat t} = node_bytes n" by blast
    with ih r(2) ok le show ?thesis unfolding gen_result_def
      by (elim conjE) (intro conjI, assumption, simp_all add: Un_Diff le_supI2)
  next
    case False
    with Cons.prems(1) have hit: "\<not> addr + s > in_max" "a = addr" "t = align_up ((addr AND ALIGN_MASK) + s)"
      "ns' = cut_node n (align_down addr) t @ ns"
      unfolding step by (auto split: if_splits)
    have "\<not> addr - n_addr n + s > n_size n" using False by blast
    from gen_hit [OF ok(3,4) le ok(2) Cons.prems(3) ok(1) Cons.prems(4-7) addr_def this hit(1) ok(5)]
    show ?thesis unfolding hit(2-4) .
  qed
qed


section \<open>All regions\<close>

lemma gen_regions_ok:
  assumes "lmm_ok lmm" "gen_regions s flags bits ofs in_min in_max lmm = (a, lmm')" "a \<noteq> 0"
    "\<forall>r \<in> set lmm. limit r + 2 ^ bits + unat s \<le> 2 ^ 32" "bits \<le> 31" "0 < unat s"
  shows "\<exists>t. t = align_up ((a AND ALIGN_MASK) + s) \<and> lmm_ok lmm' \<and> frame lmm' = frame lmm \<and>
     unat (align_down a) \<le> unat a \<and> unat a + unat s \<le> unat (align_down a) + unat t \<and>
     {unat (align_down a) ..< unat (align_down a) + unat t} \<subseteq> lmm_bytes lmm \<and>
     lmm_bytes lmm' = lmm_bytes lmm - {unat (align_down a) ..< unat (align_down a) + unat t} \<and>
     unat in_min \<le> unat a \<and> unat a + unat s \<le> unat in_max \<and> take_bit bits a = take_bit bits ofs"
  using assms
proof (induction lmm arbitrary: lmm')
  case Nil
  then show ?case by simp
next
  case (Cons r rs)
  have ok: "region_ok r" "\<forall>r' \<in> set rs. apart r r'" "lmm_ok rs" using Cons.prems(1) by simp_all
  let ?skip = "flags AND NOT (r_flags r) \<noteq> 0 \<or> r_addr r \<ge> in_max \<or> r_addr r + r_size r \<le> in_min"
  let ?B = "\<lambda>t :: u32. {unat (align_down a) ..< unat (align_down a) + unat t}"
  show ?case
  proof (cases "?skip \<or> gen_nodes s bits ofs in_min in_max (r_nodes r) = None")
    case True
    then obtain rs' where r: "gen_regions s flags bits ofs in_min in_max rs = (a, rs')" "lmm' = r # rs'"
      using Cons.prems(2) by (cases "gen_regions s flags bits ofs in_min in_max rs")
        (auto simp: Let_def split: if_splits)
    have "\<forall>r \<in> set rs. limit r + 2 ^ bits + unat s \<le> 2 ^ 32" using Cons.prems(4) by simp
    from Cons.IH [OF ok(3) r(1) Cons.prems(3) this Cons.prems(5,6)] obtain t :: u32 where
      t: "lmm_ok rs'" "frame rs' = frame rs" "unat (align_down a) \<le> unat a"
        "unat a + unat s \<le> unat (align_down a) + unat t" "?B t \<subseteq> lmm_bytes rs"
        "lmm_bytes rs' = lmm_bytes rs - ?B t" "unat in_min \<le> unat a" "unat a + unat s \<le> unat in_max"
        "take_bit bits a = take_bit bits ofs" "t = align_up ((a AND ALIGN_MASK) + s)" by blast
    have "free_bytes (r_nodes r) \<inter> ?B t = {}" using t(5) apart_free_bytes [OF ok(1,3,2)] by blast
    then have "lmm_bytes lmm' = lmm_bytes (r # rs) - ?B t" unfolding r(2) using t(6) by auto
    moreover have "lmm_ok lmm'" using t(1) ok apart_frame [OF t(2)] r(2) by simp
    ultimately show ?thesis using t r(2) by (intro exI [of _ t]) auto
  next
    case False
    then obtain t ns where g: "gen_nodes s bits ofs in_min in_max (r_nodes r) = Some (a, t, ns)"
        "lmm' = r\<lparr>r_nodes := ns, r_free := r_free r - t\<rparr> # rs"
      using Cons.prems(2) by (auto simp: Let_def)
    have rk: "nodes_ok (base r + 24) (limit r) (r_nodes r)" "8 \<le> base r + 24" using ok(1) by (simp_all add: region_ok_def)
    have "unat (r_addr r + r_size r) = limit r" using ok(1) by (simp add: region_ok_def unat_add_no_wrap)
    then have im: "unat in_min < limit r" using False by (simp add: word_le_nat_alt)
    have w: "limit r + 2 ^ bits + unat s \<le> 2 ^ 32" using Cons.prems(4) by simp
    note res = gen_nodes_Some [OF g(1) rk w im Cons.prems(5,6), unfolded gen_result_def]
    have "unat (r_free r - t) = unat (r_free r) - unat t"
      using ok(1) res by (intro unat_sub) (simp add: word_le_nat_alt region_ok_def)
    then have "region_ok (r\<lparr>r_nodes := ns, r_free := r_free r - t\<rparr>)"
      using ok(1) res by (simp add: region_ok_def)
    then have "lmm_ok lmm'" using ok g(2) by (simp add: apart_def)
    moreover have "x \<notin> lmm_bytes rs" if "x \<in> ?B t" for x
      using apart_bytes [OF ok(1,3,2)] res that by auto
    then have "lmm_bytes lmm' = lmm_bytes (r # rs) - ?B t" using res g(2) by auto
    ultimately show ?thesis using res g(2) by (intro exI [of _ t]) auto
  qed
qed

text \<open>
  C16 (functional). A block that \<open>lmm_alloc_gen\<close> returns has the requested alignment (its low
  \<open>align_bits\<close> bits are those of \<open>align_ofs\<close>), lies in the requested address range, and consists
  of memory that was free; exactly the 8-byte units that the block touches, which are the ones that
  \<open>lmm_free\<close> computes from it, are no longer free. Regions, alignment and size have to leave room
  below the top of the 32-bit address space.
\<close>

theorem lmm_alloc_gen_aligned:
  assumes "lmm_ok lmm" "lmm_alloc_gen lmm n flags bits ofs in_min in_size = (a, lmm')" "a \<noteq> 0"
    "\<forall>r \<in> set lmm. limit r + 2 ^ bits + unat n \<le> 2 ^ 32" "bits \<le> 31" "0 < unat n"
  shows "lmm_ok lmm' \<and> take_bit bits a = take_bit bits ofs \<and>
     unat in_min \<le> unat a \<and> unat a + unat n \<le> unat (in_min + in_size) \<and>
     (let A = unat (align_down a); T = unat (align_up ((a AND ALIGN_MASK) + n)) in
        {unat a ..< unat a + unat n} \<subseteq> {A ..< A + T} \<and> {A ..< A + T} \<subseteq> lmm_bytes lmm \<and>
        lmm_bytes lmm' = lmm_bytes lmm - {A ..< A + T})"
proof -
  from gen_regions_ok [OF assms(1) assms(2) [unfolded lmm_alloc_gen_def] assms(3-6)] obtain t :: u32 where
    t: "t = align_up ((a AND ALIGN_MASK) + n)" "lmm_ok lmm'" "unat (align_down a) \<le> unat a" "unat a + unat n \<le> unat (align_down a) + unat t"
      "{unat (align_down a) ..< unat (align_down a) + unat t} \<subseteq> lmm_bytes lmm"
      "lmm_bytes lmm' = lmm_bytes lmm - {unat (align_down a) ..< unat (align_down a) + unat t}"
      "unat in_min \<le> unat a" "unat a + unat n \<le> unat (in_min + in_size)" "take_bit bits a = take_bit bits ofs"
    by blast
  have "{unat a ..< unat a + unat n} \<subseteq> {unat (align_down a) ..< unat (align_down a) + unat t}"
    using t(3,4) by auto
  with t(2,5-9) show ?thesis unfolding t(1) Let_def by blast
qed

theorem lmm_alloc_gen_aligned_witness:
  "\<exists>a lmm'. lmm_alloc_gen demo_lmm 100 0 8 4 5000 3000 = (a, lmm') \<and> a = 5124 \<and> lmm_ok lmm' \<and>
     take_bit 8 a = take_bit 8 4"
proof -
  have "fst (lmm_alloc_gen demo_lmm 100 0 8 4 5000 3000) = 5124"
    by (simp add: demo_lmm_eq lmm_alloc_gen_def align_loop.simps Let_def align_up_def align_down_def ALIGN_MASK_def)
  then obtain lmm' where r: "lmm_alloc_gen demo_lmm 100 0 8 4 5000 3000 = (5124, lmm')"
    by (cases "lmm_alloc_gen demo_lmm 100 0 8 4 5000 3000") simp
  from lmm_alloc_gen_aligned [OF demo_lmm_ok r] show ?thesis using r by (simp add: demo_lmm_eq)
qed

end
