(* ===== verification/Scheduler.thy ===== *)
theory Scheduler
  imports Prelude
begin

text \<open>
  The data types of \<^verbatim>\<open>src/mirix/kernel.h\<close> and the round-robin scheduler
  (\<^verbatim>\<open>src/mirix/scheduler.c\<close>): a table of 256 process slots and a tick handler that selects
  the slot to run. The table is a \<open>slot_table\<close>; the tick handler is shown to be free of
  starvation.
\<close>

section \<open>Data\<close>

datatype mirix_kernel_status =
    MIRIX_KERNEL_UNINITIALIZED
  | MIRIX_KERNEL_INITIALIZING
  | MIRIX_KERNEL_RUNNING
  | MIRIX_KERNEL_SHUTTING_DOWN
  | MIRIX_KERNEL_STOPPED

fun status_code :: "mirix_kernel_status \<Rightarrow> nat" where
  "status_code MIRIX_KERNEL_UNINITIALIZED = 0"
| "status_code MIRIX_KERNEL_INITIALIZING = 1"
| "status_code MIRIX_KERNEL_RUNNING = 2"
| "status_code MIRIX_KERNEL_SHUTTING_DOWN = 3"
| "status_code MIRIX_KERNEL_STOPPED = 4"

lemma status_code_inj: "status_code a = status_code b \<Longrightarrow> a = b"
  by (cases a; cases b) simp_all

text \<open>The enumeration is ordered by its codes.\<close>

instantiation mirix_kernel_status :: linorder
begin

definition less_eq_mirix_kernel_status :: "mirix_kernel_status \<Rightarrow> mirix_kernel_status \<Rightarrow> bool" where
  "less_eq_mirix_kernel_status a b \<longleftrightarrow> status_code a \<le> status_code b"

definition less_mirix_kernel_status :: "mirix_kernel_status \<Rightarrow> mirix_kernel_status \<Rightarrow> bool" where
  "less_mirix_kernel_status a b \<longleftrightarrow> status_code a < status_code b"

instance
  by standard (auto simp: less_eq_mirix_kernel_status_def less_mirix_kernel_status_def
      dest: status_code_inj)

end

record mirix_process =
  pid :: u32
  ppid :: u32
  p_name :: string
  status :: mirix_kernel_status
  stack_base :: u64
  stack_size :: nat
  runtime_ticks :: u64

text \<open>An all-zero process entry, as \<^verbatim>\<open>calloc\<close> and \<^verbatim>\<open>memset\<close> leave it.\<close>

definition zero_process :: mirix_process where
  "zero_process = \<lparr>pid = 0, ppid = 0, p_name = [], status = MIRIX_KERNEL_UNINITIALIZED,
     stack_base = 0, stack_size = 0, runtime_ticks = 0\<rparr>"

record scheduler_state =
  processes :: "mirix_process list option"
  max_processes :: nat
  current_process :: nat
  quantum_ticks :: u64
  tick_count :: u64

definition scheduler_state0 :: scheduler_state where
  "scheduler_state0 = \<lparr>processes = None, max_processes = 0, current_process = 0,
     quantum_ticks = 0, tick_count = 0\<rparr>"

section \<open>Operations\<close>

text \<open>\<open>mem\<close> says whether \<^verbatim>\<open>calloc\<close> succeeds.\<close>

definition scheduler_init :: "bool \<Rightarrow> scheduler_state \<Rightarrow> int \<times> scheduler_state" where
  "scheduler_init mem s =
     (let s = s\<lparr>max_processes := 256\<rparr> in
      if \<not> mem then (- 1, s\<lparr>processes := None\<rparr>)
      else (0, s\<lparr>processes := Some (replicate 256 zero_process), current_process := 0,
                 quantum_ticks := 1000, tick_count := 0\<rparr>))"

text \<open>The search loop of the tick handler; \<open>m\<close> is \<open>max_processes\<close>, \<open>i\<close> the current slot.\<close>

function find_next :: "mirix_process list \<Rightarrow> nat \<Rightarrow> nat \<Rightarrow> nat outcome" where
  "find_next ps m i =
     (if m = 0 then Inl Div_By_Zero
      else if \<not> i < length ps then Inl Out_Of_Bounds
      else if status (ps ! i) = MIRIX_KERNEL_RUNNING then Inr i
      else let j = (i + 1) mod m in if j = 0 then Inr j else find_next ps m j)"
  by pat_completeness auto
termination
proof (relation "measure (\<lambda>(ps, m, i). if i < m then m - i else m + 1)", goal_cases)
  case (2 ps m i j)
  then have j: "j < m" by simp
  have "m - j < (if i < m then m - i else m + 1)"
  proof (cases "i < m")
    case True
    with 2 have "i + 1 \<noteq> m" by auto
    with True 2 show ?thesis by simp
  qed simp
  with j show ?case by simp
qed simp

declare find_next.simps [simp del]

definition scheduler_tick :: "scheduler_state \<Rightarrow> scheduler_state outcome" where
  "scheduler_tick s =
     (let s = s\<lparr>tick_count := tick_count s + 1\<rparr> in
      if quantum_ticks s = 0 then Inl Div_By_Zero
      else if tick_count s mod quantum_ticks s = 0 then
        (if max_processes s = 0 then Inl Div_By_Zero
         else case processes s of
           None \<Rightarrow> Inl Null_Deref
         | Some ps \<Rightarrow>
             (case find_next ps (max_processes s) ((current_process s + 1) mod max_processes s) of
                Inl e \<Rightarrow> Inl e
              | Inr i \<Rightarrow> Inr (s\<lparr>current_process := i\<rparr>)))
      else Inr s)"

text \<open>The slot that a new process takes, with the table in which it sits there, and the
  clearing of a slot.\<close>

definition sched_store :: "mirix_process \<Rightarrow> mirix_process list \<Rightarrow> (nat \<times> mirix_process list) option" where
  "sched_store p ps = map_option (\<lambda>i. (i, ps[i := p])) (first_idx (\<lambda>q. pid q = 0) ps)"

definition sched_clear :: "nat \<Rightarrow> mirix_process list \<Rightarrow> mirix_process list" where
  "sched_clear i ps = ps[i := zero_process]"

text \<open>\<open>None\<close> stands for a null \<open>process\<close> argument. A table of no slots is not accessed.\<close>

definition scheduler_add_process ::
  "mirix_process option \<Rightarrow> scheduler_state \<Rightarrow> (int \<times> scheduler_state) outcome" where
  "scheduler_add_process process s =
     (case process of
        None \<Rightarrow> Inr (- 1, s)
      | Some p \<Rightarrow>
          if max_processes s = 0 then Inr (- 1, s)
          else case processes s of
            None \<Rightarrow> Inl Null_Deref
          | Some ps \<Rightarrow>
              (case sched_store p ps of
                 None \<Rightarrow> Inr (- 1, s)
               | Some (i, ps') \<Rightarrow> Inr (0, s\<lparr>processes := Some ps'\<rparr>)))"

definition scheduler_remove_process ::
  "u32 \<Rightarrow> scheduler_state \<Rightarrow> (int \<times> scheduler_state) outcome" where
  "scheduler_remove_process pd s =
     (if max_processes s = 0 then Inr (- 1, s)
      else case processes s of
        None \<Rightarrow> Inl Null_Deref
      | Some ps \<Rightarrow>
          (case first_idx (\<lambda>q. pid q = pd) ps of
             None \<Rightarrow> Inr (- 1, s)
           | Some i \<Rightarrow> Inr (0, s\<lparr>processes := Some (sched_clear i ps)\<rparr>)))"

text \<open>The address of the current entry; \<open>None\<close> is an entry outside the table.\<close>

definition scheduler_get_current_process :: "scheduler_state \<Rightarrow> mirix_process option" where
  "scheduler_get_current_process s =
     (case processes s of
        None \<Rightarrow> None
      | Some ps \<Rightarrow> if current_process s < length ps then Some (ps ! current_process s) else None)"

definition scheduler_cleanup :: "scheduler_state \<Rightarrow> scheduler_state" where
  "scheduler_cleanup s = (if processes s \<noteq> None then s\<lparr>processes := None\<rparr> else s)"

declare upt_rec_numeral [simp del]

section \<open>The process table\<close>

interpretation sched: slot_table "\<lambda>p. pid p = 0" "\<lambda>p. pid p \<noteq> 0" sched_store sched_clear
proof
  fix c i and t t' :: "mirix_process list"
  assume "pid c \<noteq> 0" "sched_store c t = Some (i, t')"
  then show "i < length t \<and> pid (t ! i) = 0 \<and> (\<forall>j < i. pid (t ! j) \<noteq> 0) \<and> pid (t' ! i) \<noteq> 0 \<and>
      (\<exists>v. t' = t[i := v])"
    by (auto simp: sched_store_def dest!: first_idx_SomeD)
qed (auto simp: sched_store_def sched_clear_def zero_process_def)

text \<open>The invariant of an initialised scheduler.\<close>

definition sched_ok :: "scheduler_state \<Rightarrow> bool" where
  "sched_ok s \<longleftrightarrow>
     max_processes s = 256 \<and> quantum_ticks s = 1000 \<and> current_process s < 256 \<and>
     (\<exists>ps. processes s = Some ps \<and> length ps = 256 \<and> (\<forall>p \<in> set ps. pid p = 0 \<longrightarrow> p = zero_process))"

abbreviation table :: "scheduler_state \<Rightarrow> mirix_process list" where
  "table s \<equiv> the (processes s)"

definition runnable :: "scheduler_state \<Rightarrow> nat \<Rightarrow> bool" where
  "runnable s i \<longleftrightarrow> i < 256 \<and> status (table s ! i) = MIRIX_KERNEL_RUNNING"


lemma find_next_spec:
  "length ps = m \<Longrightarrow> i < m \<Longrightarrow>
   (\<exists>k \<ge> i. k < m \<and> status (ps ! k) = MIRIX_KERNEL_RUNNING \<and>
      (\<forall>l. i \<le> l \<and> l < k \<longrightarrow> status (ps ! l) \<noteq> MIRIX_KERNEL_RUNNING) \<and> find_next ps m i = Inr k) \<or>
   (\<forall>k. i \<le> k \<and> k < m \<longrightarrow> status (ps ! k) \<noteq> MIRIX_KERNEL_RUNNING) \<and> find_next ps m i = Inr 0"
proof (induction "m - i" arbitrary: i rule: less_induct)
  case less
  show ?case
  proof (cases "status (ps ! i) = MIRIX_KERNEL_RUNNING")
    case True
    with less.prems show ?thesis by (intro disjI1 exI [of _ i]) (auto simp: find_next.simps)
  next
    case False
    show ?thesis
    proof (cases "i + 1 = m")
      case True
      then have "(i + 1) mod m = 0" by simp
      with False less.prems have "find_next ps m i = Inr 0" by (simp add: find_next.simps [of _ _ i])
      moreover have "k = i" if "i \<le> k" "k < m" for k using that True by simp
      ultimately show ?thesis using False by blast
    next
      case no: False
      with less.prems have lt: "i + 1 < m" by simp
      then have step: "find_next ps m i = find_next ps m (i + 1)"
        using False less.prems by (simp add: find_next.simps [of _ _ i])
      have from_i: "l = i \<or> i + 1 \<le> l" if "i \<le> l" for l using that by linarith
      from less.hyps [of "i + 1"] lt less.prems show ?thesis
        unfolding step using False from_i by (smt (verit) add_leD1 diff_less_mono2 less_add_one)
    qed
  qed
qed

text \<open>The slot that the handler selects at the end of a quantum: the next runnable one above the
  current slot (above or at slot 0 after the last slot), or slot 0.\<close>

definition selected :: "scheduler_state \<Rightarrow> nat" where
  "selected s =
     (case first_idx (\<lambda>i. (current_process s + 1) mod 256 \<le> i \<and>
              status (table s ! i) = MIRIX_KERNEL_RUNNING) [0..<256] of
        Some i \<Rightarrow> i | None \<Rightarrow> 0)"

lemma tick_simps:
  assumes "sched_ok s"
  shows "scheduler_tick s =
     Inr (if (tick_count s + 1) mod 1000 = 0
          then s\<lparr>tick_count := tick_count s + 1, current_process := selected s\<rparr>
          else s\<lparr>tick_count := tick_count s + 1\<rparr>)"
proof -
  from assms obtain ps where ps: "processes s = Some ps" "length ps = 256" by (auto simp: sched_ok_def)
  let ?b = "(current_process s + 1) mod 256"
  have b: "?b < 256" by simp
  have "find_next ps 256 ?b = Inr (selected s)"
    using find_next_spec [OF ps(2) b] ps
  proof (elim disjE exE conjE, goal_cases)
    case (1 k)
    then have "first_idx (\<lambda>i. ?b \<le> i \<and> status (ps ! i) = MIRIX_KERNEL_RUNNING) [0..<256] = Some k"
      by (intro first_idx_SomeI) auto
    with 1 show ?case by (simp add: selected_def)
  next
    case 2
    then have "first_idx (\<lambda>i. ?b \<le> i \<and> status (ps ! i) = MIRIX_KERNEL_RUNNING) [0..<256] = None"
      by auto
    then have "selected s = 0" using ps(1) by (simp only: selected_def option.sel option.case)
    with 2 show ?case by simp
  qed
  with assms ps show ?thesis by (simp add: scheduler_tick_def sched_ok_def Let_def)
qed


section \<open>Absence of starvation\<close>

text \<open>\<open>n\<close> ticks in a row, with nothing else changing the scheduler.\<close>

primrec run_ticks :: "nat \<Rightarrow> scheduler_state \<Rightarrow> scheduler_state outcome" where
  "run_ticks 0 s = Inr s"
| "run_ticks (Suc n) s = (case scheduler_tick s of Inl e \<Rightarrow> Inl e | Inr s' \<Rightarrow> run_ticks n s')"

lemma run_ticks_add:
  "run_ticks (m + n) s = (case run_ticks m s of Inl e \<Rightarrow> Inl e | Inr s' \<Rightarrow> run_ticks n s')"
  by (induction m arbitrary: s) (simp_all split: sum.split)

lemma sched_ok_frame [simp]:
  "sched_ok s \<Longrightarrow> sched_ok (s\<lparr>tick_count := t\<rparr>)"
  "sched_ok s \<Longrightarrow> i < 256 \<Longrightarrow> sched_ok (s\<lparr>tick_count := t, current_process := i\<rparr>)"
  by (simp_all add: sched_ok_def)

lemma selected_less: "selected s < 256"
  by (auto simp: selected_def dest: first_idx_less split: option.split)

lemma selected_cong [simp]: "selected (s\<lparr>tick_count := t\<rparr>) = selected s"
  by (simp add: selected_def)

lemma run_ticks_quiet:
  "sched_ok s \<Longrightarrow> \<forall>j \<in> {1..k}. (tick_count s + of_nat j) mod 1000 \<noteq> 0 \<Longrightarrow>
   run_ticks k s = Inr (s\<lparr>tick_count := tick_count s + of_nat k\<rparr>)"
proof (induction k)
  case 0
  then show ?case by simp
next
  case (Suc k)
  from Suc.prems(2) have "(tick_count s + of_nat (Suc k)) mod 1000 \<noteq> 0" by (rule bspec) simp
  then have n: "(tick_count s + of_nat k + 1) mod 1000 \<noteq> 0" by (simp add: add.commute add.left_commute)
  from Suc have "run_ticks k s = Inr (s\<lparr>tick_count := tick_count s + of_nat k\<rparr>)" by simp
  with run_ticks_add [of k 1 s] n Suc.prems(1) show ?case
    by (simp add: tick_simps add.commute add.left_commute)
qed

text \<open>Every 1000 consecutive values of the 64-bit tick counter contain a multiple of the quantum,
  also where the counter wraps around to 0.\<close>

lemma quantum_ends:
  fixes t :: u64
  shows "\<exists>k. 1 \<le> k \<and> k \<le> 1000 \<and> (t + of_nat k) mod 1000 = 0"
proof -
  define d where "d = 1000 - unat t mod 1000"
  have lt1000: "unat t mod 1000 < 1000" by simp
  then have d: "1 \<le> d" "d \<le> 1000" unfolding d_def by linarith+
  show ?thesis
  proof (cases "unat t + d < 2 ^ 64")
    case True
    then have "unat (t + of_nat d) = unat t + d"
      using d by (simp add: unat_word_ariths unat_of_nat)
    moreover have "(unat t + d) mod 1000 = (unat t mod 1000 + d) mod 1000"
      by (rule mod_add_left_eq [symmetric])
    moreover have "unat t mod 1000 + d = 1000" using lt1000 unfolding d_def by simp
    ultimately have "unat ((t + of_nat d) mod 1000) = 0" by (simp add: unat_mod)
    with d show ?thesis by (metis unat_eq_0)
  next
    case False
    define k where "k = 2 ^ 64 - unat t"
    have lt: "unat t < 2 ^ 64" using unsigned_less [of t] by simp
    have k: "1 \<le> k" "k \<le> 1000" using False d lt by (auto simp: k_def)
    have "unat t + k = 2 ^ 64" using lt by (simp add: k_def)
    then have "of_nat (unat t + k) = (0 :: u64)" by simp
    then have "t + of_nat k = 0" by simp
    with k show ?thesis by auto
  qed
qed

lemma run_ticks_switch:
  assumes ok: "sched_ok s"
  obtains k where "1 \<le> k" "k \<le> 1000"
    "run_ticks k s = Inr (s\<lparr>tick_count := tick_count s + of_nat k, current_process := selected s\<rparr>)"
proof -
  define P where "P n \<longleftrightarrow> 1 \<le> n \<and> (tick_count s + of_nat n) mod 1000 = 0" for n
  define k where "k = (LEAST n. P n)"
  from quantum_ends [of "tick_count s"] obtain k0 where
    "1 \<le> k0 \<and> k0 \<le> 1000 \<and> (tick_count s + of_nat k0) mod 1000 = 0" ..
  then have k0: "P k0" "k0 \<le> 1000" by (simp_all only: P_def)
  have k: "P k" "k \<le> k0" "\<And>n. n < k \<Longrightarrow> \<not> P n"
    unfolding k_def by (rule LeastI, rule k0, rule Least_le, rule k0, erule not_less_Least)
  have "k \<noteq> 0" using k(1) unfolding P_def by linarith
  then obtain j where j: "k = Suc j" using not0_implies_Suc by blast
  have "\<forall>i \<in> {1..j}. (tick_count s + of_nat i) mod 1000 \<noteq> 0"
    using j k(3) unfolding P_def by (metis atLeastAtMost_iff less_Suc_eq_le)
  note quiet = run_ticks_quiet [OF ok this]
  have t: "tick_count s + of_nat j + 1 = tick_count s + of_nat k" by (simp add: j)
  then have "(tick_count s + of_nat j + 1) mod 1000 = 0" using k(1) unfolding P_def by metis
  then have "scheduler_tick (s\<lparr>tick_count := tick_count s + of_nat j\<rparr>) =
      Inr (s\<lparr>tick_count := tick_count s + of_nat k, current_process := selected s\<rparr>)"
    using tick_simps [OF sched_ok_frame(1) [OF ok], of "tick_count s + of_nat j"] t by simp
  with quiet run_ticks_add [of j 1 s]
  have "run_ticks k s = Inr (s\<lparr>tick_count := tick_count s + of_nat k, current_process := selected s\<rparr>)"
    unfolding j by simp
  moreover have "1 \<le> k" "k \<le> 1000" using k(1,2) k0(2) unfolding P_def by linarith+
  ultimately show thesis by (intro that)
qed

text \<open>How many selections slot \<open>i\<close> waits at most when slot \<open>c\<close> is current.\<close>

definition wait_bound :: "nat \<Rightarrow> nat \<Rightarrow> nat" where
  "wait_bound i c = (if c < i then i - c else 256 - c + i)"

lemma selected_progress:
  assumes ok: "sched_ok s" and r: "runnable s i"
  shows "selected s = i \<or> wait_bound i (selected s) < wait_bound i (current_process s)"
proof -
  let ?c = "current_process s" and ?P = "\<lambda>i. (current_process s + 1) mod 256 \<le> i \<and>
              status (table s ! i) = MIRIX_KERNEL_RUNNING"
  have c: "?c < 256" and i: "i < 256" "status (table s ! i) = MIRIX_KERNEL_RUNNING"
    using ok r by (auto simp: sched_ok_def runnable_def)
  show ?thesis
  proof (cases "first_idx ?P [0..<256]")
    case None
    then have "\<not> (?c + 1) mod 256 \<le> i" using i by auto
    then have "?c + 1 < 256" "i \<le> ?c" using c by (cases "?c = 255"; simp)+
    moreover have "selected s = 0" using None by (simp only: selected_def option.case)
    ultimately show ?thesis by (auto simp: wait_bound_def)
  next
    case (Some k)
    then have sel: "selected s = k" by (simp only: selected_def option.case)
    from first_idx_SomeD [OF Some] have k: "k < 256" "(?c + 1) mod 256 \<le> k"
      and least: "\<And>j. j < k \<Longrightarrow> j < 256 \<Longrightarrow> \<not> ?P j" by auto
    have "k \<le> i" if "(?c + 1) mod 256 \<le> i" using least [of i] i that by force
    moreover have "(?c + 1) mod 256 = (if ?c = 255 then 0 else ?c + 1)" using c by auto
    ultimately show ?thesis using k i c unfolding sel wait_bound_def by (auto split: if_splits)
  qed
qed

lemma run_ticks_reaches:
  "sched_ok s \<Longrightarrow> runnable s i \<Longrightarrow> wait_bound i (current_process s) \<le> n \<Longrightarrow>
   \<exists>k s'. 1 \<le> k \<and> k \<le> 1000 * n \<and> run_ticks k s = Inr s' \<and> current_process s' = i \<and> processes s' = processes s"
proof (induction n arbitrary: s)
  case 0
  then show ?case by (simp add: wait_bound_def sched_ok_def split: if_splits)
next
  case (Suc n)
  from run_ticks_switch [OF Suc.prems(1)] obtain k where k: "1 \<le> k" "k \<le> 1000"
    "run_ticks k s = Inr (s\<lparr>tick_count := tick_count s + of_nat k, current_process := selected s\<rparr>)" .
  let ?s = "s\<lparr>tick_count := tick_count s + of_nat k, current_process := selected s\<rparr>"
  show ?case
  proof (cases "selected s = i")
    case True
    with k show ?thesis by (intro exI [of _ k]) auto
  next
    case False
    with selected_progress [OF Suc.prems(1,2)] Suc.prems(3) have "wait_bound i (current_process ?s) \<le> n"
      by simp
    moreover have "sched_ok ?s" using Suc.prems(1) selected_less by simp
    moreover have "runnable ?s i" using Suc.prems(2) by (simp add: runnable_def)
    ultimately obtain k' s' where k': "k' \<le> 1000 * n" "run_ticks k' ?s = Inr s'"
      "current_process s' = i" "processes s' = processes s"
      using Suc.IH [of ?s] by auto
    then have "run_ticks (k + k') s = Inr s'" using k(3) by (simp add: run_ticks_add)
    with k k' show ?thesis by (intro exI [of _ "k + k'"] exI [of _ s']) simp
  qed
qed


section \<open>Properties\<close>

lemma init_sched_ok: "sched_ok (snd (scheduler_init True s))"
  by (simp add: sched_ok_def scheduler_init_def Let_def)

lemma sched_okD:
  assumes "sched_ok s"
  obtains ps where "processes s = Some ps" "length ps = 256" "max_processes s = 256"
    "\<forall>p \<in> set ps. pid p = 0 \<longrightarrow> p = zero_process"
  using assms by (auto simp: sched_ok_def)

lemma sched_ok_processes:
  "sched_ok s \<Longrightarrow> length ps = 256 \<Longrightarrow> (\<And>p. p \<in> set ps \<Longrightarrow> pid p = 0 \<Longrightarrow> p = zero_process) \<Longrightarrow>
   sched_ok (s\<lparr>processes := Some ps\<rparr>)"
  by (auto simp: sched_ok_def)

text \<open>A scheduler in which only slot \<open>i\<close> holds a runnable process.\<close>

definition one_running :: "nat \<Rightarrow> scheduler_state" where
  "one_running i = \<lparr>processes = Some ((replicate 256 zero_process)
      [i := zero_process\<lparr>pid := 7, status := MIRIX_KERNEL_RUNNING\<rparr>]),
     max_processes = 256, current_process = i, quantum_ticks = 1000, tick_count = 999\<rparr>"

lemma one_running: "i < 256 \<Longrightarrow> sched_ok (one_running i)"
  "i < 256 \<Longrightarrow> runnable (one_running i) i"
  by (auto simp: one_running_def sched_ok_def runnable_def zero_process_def in_set_conv_nth nth_list_update)

text \<open>
  C7 (liveness). No runnable process starves: whatever slot is current and whatever the tick
  counter is (its wrap-around included), a process that stays runnable becomes the current one
  within 256 quanta of 1000 ticks, and every tick on the way returns.
\<close>

theorem scheduler_no_starvation:
  assumes "sched_ok s" "runnable s i"
  shows "\<exists>k s'. 1 \<le> k \<and> k \<le> 256000 \<and> run_ticks k s = Inr s' \<and> current_process s' = i"
proof -
  have "wait_bound i (current_process s) \<le> 256"
    using assms by (auto simp: wait_bound_def runnable_def sched_ok_def)
  from run_ticks_reaches [OF assms this] show ?thesis by auto
qed

theorem scheduler_no_starvation_witness:
  "\<exists>k s'. 1 \<le> k \<and> k \<le> 256000 \<and> run_ticks k (one_running 5) = Inr s' \<and> current_process s' = 5"
  by (rule scheduler_no_starvation [of "one_running 5" 5]) (rule one_running, simp)+

text \<open>
  C36 (functional). A tick on an initialised scheduler returns and keeps the invariant and the
  process table. At the end of a quantum it selects the next runnable slot above the current
  one; when there is none it selects slot 0, also if the process there is not runnable.
\<close>

theorem scheduler_tick_selects:
  assumes "sched_ok s"
  shows "\<exists>s'. scheduler_tick s = Inr s' \<and> sched_ok s' \<and> processes s' = processes s \<and>
     tick_count s' = tick_count s + 1 \<and>
     ((tick_count s + 1) mod 1000 \<noteq> 0 \<longrightarrow> current_process s' = current_process s) \<and>
     ((tick_count s + 1) mod 1000 = 0 \<longrightarrow>
        (let b = (current_process s + 1) mod 256; c = current_process s' in
           (runnable s c \<and> b \<le> c \<and> (\<forall>j. b \<le> j \<and> j < c \<longrightarrow> \<not> runnable s j)) \<or>
           (c = 0 \<and> (\<forall>j \<ge> b. \<not> runnable s j))))"
proof -
  let ?b = "(current_process s + 1) mod 256"
  let ?P = "\<lambda>i. ?b \<le> i \<and> status (table s ! i) = MIRIX_KERNEL_RUNNING"
  have sel: "(runnable s (selected s) \<and> ?b \<le> selected s \<and> (\<forall>j. ?b \<le> j \<and> j < selected s \<longrightarrow> \<not> runnable s j)) \<or>
      (selected s = 0 \<and> (\<forall>j \<ge> ?b. \<not> runnable s j))"
  proof (cases "first_idx ?P [0..<256]")
    case None
    then have "\<forall>j \<ge> ?b. \<not> runnable s j" by (auto simp: runnable_def)
    moreover have "selected s = 0" using None by (simp only: selected_def option.case)
    ultimately show ?thesis by blast
  next
    case (Some k)
    from first_idx_SomeD [OF Some] have "k < 256" "?P k" "\<And>j. j < k \<Longrightarrow> \<not> ?P j" by auto
    moreover have "selected s = k" using Some by (simp only: selected_def option.case)
    ultimately show ?thesis by (auto simp: runnable_def)
  qed
  show ?thesis
  proof (cases "(tick_count s + 1) mod 1000 = 0")
    case True
    then show ?thesis using tick_simps [OF assms] sel assms selected_less [of s]
      by (intro exI [of _ "s\<lparr>tick_count := tick_count s + 1, current_process := selected s\<rparr>"])
        (simp add: Let_def)
  next
    case False
    then show ?thesis using tick_simps [OF assms] assms by simp
  qed
qed

theorem scheduler_tick_selects_witness:
  "\<exists>s'. scheduler_tick (one_running 5) = Inr s' \<and> current_process s' = 0 \<and>
     \<not> runnable (one_running 5) (current_process s') \<and> runnable (one_running 5) 5"
proof -
  have r: "runnable (one_running 5) j \<longleftrightarrow> j = 5" for j
    by (auto simp: one_running_def runnable_def zero_process_def nth_list_update)
  have s: "tick_count (one_running 5) = 999" "current_process (one_running 5) = 5"
    by (simp_all add: one_running_def)
  have "(999 + 1 :: u64) mod 1000 = 0" by simp
  with scheduler_tick_selects [OF one_running(1) [of 5]] s r show ?thesis
    by (auto simp: Let_def)
qed

text \<open>
  C37 (roundtrip). Adding a process with a new, non-zero identifier to a table with a free slot
  and removing it again gives the scheduler back unchanged; in between, the invariant holds and
  the process is in the table. A full table and an unknown identifier are refused with -1.
\<close>

theorem scheduler_add_remove:
  assumes "sched_ok s" "pid p \<noteq> 0" "pid p \<notin> pid ` set (table s)"
  shows "(0 \<in> pid ` set (table s) \<longrightarrow>
        (\<exists>s'. scheduler_add_process (Some p) s = Inr (0, s') \<and> sched_ok s' \<and> p \<in> set (table s') \<and>
           scheduler_remove_process (pid p) s' = Inr (0, s))) \<and>
     (0 \<notin> pid ` set (table s) \<longrightarrow> scheduler_add_process (Some p) s = Inr (- 1, s)) \<and>
     scheduler_remove_process (pid p) s = Inr (- 1, s)"
proof -
  from sched_okD [OF assms(1)] obtain ps where ps: "processes s = Some ps" "length ps = 256"
    "max_processes s = 256" and zero: "\<forall>p \<in> set ps. pid p = 0 \<longrightarrow> p = zero_process" .
  have new: "pid q \<noteq> pid p" if "q \<in> set ps" for q using assms(3) ps(1) that by (metis image_eqI option.sel)
  have absent: "first_idx (\<lambda>q. pid q = pid p) ps = None" using new by auto
  have added: "\<exists>s'. scheduler_add_process (Some p) s = Inr (0, s') \<and> sched_ok s' \<and> p \<in> set (table s') \<and>
           scheduler_remove_process (pid p) s' = Inr (0, s)" if free: "0 \<in> pid ` set ps"
  proof -
    from free obtain i where i: "first_idx (\<lambda>q. pid q = 0) ps = Some i" by (cases "first_idx (\<lambda>q. pid q = 0) ps") auto
    from first_idx_SomeD [OF i] have i': "i < length ps" "pid (ps ! i) = 0" by auto
    let ?s = "s\<lparr>processes := Some (ps[i := p])\<rparr>"
    have "q = zero_process" if "q \<in> set (ps[i := p])" "pid q = 0" for q
      using that zero assms(2) set_update_subset_insert [of ps i p] by auto
    then have ok: "sched_ok ?s" using sched_ok_processes [OF assms(1)] ps(2) by simp
    have "first_idx (\<lambda>q. pid q = pid p) (ps[i := p]) = Some i"
      using i' new by (intro first_idx_SomeI) (simp_all add: nth_list_update)
    moreover have "(ps[i := p])[i := zero_process] = ps"
      using zero i' by (simp add: list_update_same_conv)
    ultimately have "scheduler_remove_process (pid p) ?s = Inr (0, s)"
      using ps by (simp add: scheduler_remove_process_def sched_clear_def)
    moreover have "scheduler_add_process (Some p) s = Inr (0, ?s)"
      using i ps by (simp add: scheduler_add_process_def sched_store_def)
    moreover have "p \<in> set (table ?s)" using i'(1) by (simp add: set_update_memI)
    ultimately show ?thesis using ok by blast
  qed
  have full: "scheduler_add_process (Some p) s = Inr (- 1, s)" if "0 \<notin> pid ` set ps"
  proof -
    have "first_idx (\<lambda>q. pid q = 0) ps = None" using that by (simp add: image_iff)
    then show ?thesis using ps by (simp add: scheduler_add_process_def sched_store_def del: first_idx_None)
  qed
  have "scheduler_remove_process (pid p) s = Inr (- 1, s)"
    using absent ps by (simp add: scheduler_remove_process_def del: first_idx_None)
  with added full ps(1) show ?thesis by simp
qed

theorem scheduler_add_remove_witness:
  "\<exists>s'. scheduler_add_process (Some (zero_process\<lparr>pid := 3\<rparr>)) (one_running 5) = Inr (0, s') \<and>
     scheduler_remove_process 3 s' = Inr (0, one_running 5)"
proof -
  let ?q = "zero_process\<lparr>pid := 7, status := MIRIX_KERNEL_RUNNING\<rparr>"
  have t: "table (one_running 5) = (replicate 256 zero_process)[5 := ?q]"
    by (simp add: one_running_def)
  have "pid ` set (table (one_running 5)) \<subseteq> {0, 7}"
    using set_update_subset_insert [of "replicate 256 zero_process" 5 ?q]
    unfolding t by (auto simp: zero_process_def)
  then have "3 \<notin> pid ` set (table (one_running 5))" by fastforce
  moreover have "pid (table (one_running 5) ! 0) = 0" "0 < length (table (one_running 5))"
    by (simp_all add: t zero_process_def)
  then have "0 \<in> pid ` set (table (one_running 5))" by (metis image_eqI nth_mem)
  ultimately show ?thesis
    using scheduler_add_remove [OF one_running(1) [of 5], of "zero_process\<lparr>pid := 3\<rparr>"] by auto
qed

end
