(* ===== verification/Pager.thy ===== *)
theory Pager
  imports Prelude
begin

text \<open>
  The paging space of the default pager (\<^verbatim>\<open>src/mach/bootstrap/default_pager.c\<close>): partitions whose
  blocks are kept in a bitmap, the table of partitions, and the block map of a paging object
  with one or two levels. The operations are modelled one at a time: the mutexes that
  serialise them, and the code under \<^verbatim>\<open>CHECKSUM\<close> and \<^verbatim>\<open>DEBUG_READER_CONFLICTS\<close>, which is not
  compiled, are left out. \<open>pgsz\<close> is \<^verbatim>\<open>vm_page_size\<close>, a variable of the C library.
\<close>

section \<open>Partitions\<close>

definition NB_BM :: nat where
  "NB_BM = 32"

definition BM_MASK :: u32 where
  "BM_MASK = 0xffffffff"

definition howmany :: "nat \<Rightarrow> nat \<Rightarrow> nat" where
  "howmany a b = (a + b - 1) div b"

definition atop :: "nat \<Rightarrow> nat \<Rightarrow> nat" where
  "atop pgsz a = a div pgsz"

definition ptoa :: "nat \<Rightarrow> nat \<Rightarrow> nat" where
  "ptoa pgsz p = p * pgsz"

text \<open>Page counts are below the number of pages of a 32-bit space and are kept as numbers. The
  read and write routines of a partition are parameters of the operations that call them.\<close>

record part =
  total_size :: nat
  pt_free :: nat
  pt_id :: u32
  bitmap :: "u32 list"
  going_away :: bool

text \<open>\<open>all_partitions\<close>: the array of partition pointers, \<open>None\<close> where it holds null.\<close>

type_synonym partitions = "part option list"

definition P_INDEX_INVALID :: u8 where
  "P_INDEX_INVALID = 255"

definition no_partition :: "u8 \<Rightarrow> bool" where
  "no_partition x \<longleftrightarrow> x = P_INDEX_INVALID"

definition partition_of :: "partitions \<Rightarrow> nat \<Rightarrow> part option outcome" where
  "partition_of ps x = (if x \<ge> length ps then Inl (Panics ''partition_of'') else Inr (ps ! x))"

definition set_partition_of :: "partitions \<Rightarrow> nat \<Rightarrow> part option \<Rightarrow> partitions outcome" where
  "set_partition_of ps x p =
     (if x \<ge> length ps then Inl (Panics ''set_partition_of'') else Inr (ps[x := p]))"

definition part_id :: "u8 list \<Rightarrow> u32" where
  "part_id name =
     (case fold (\<lambda>c (i, xorid). (i + ucast c, xorid XOR ucast c)) name (0, 0) of
        (i, xorid) \<Rightarrow> push_bit 8 i OR xorid)"

definition partition_init :: partitions where
  "partition_init = []"

text \<open>The slot for a new partition: the first null one, or the first of a list of twice the
  length. \<open>mem\<close> says whether \<^verbatim>\<open>kalloc\<close> has memory.\<close>

definition create_paging_partition ::
  "nat \<Rightarrow> bool \<Rightarrow> u8 list \<Rightarrow> nat \<Rightarrow> partitions \<Rightarrow> partitions outcome" where
  "create_paging_partition pgsz mem name bytes ps =
     (if \<not> mem then Inl Null_Deref
      else
        let n = atop pgsz bytes;
            part = \<lparr>total_size = n, pt_free = n, pt_id = part_id name,
                    bitmap = replicate (howmany n NB_BM) 0, going_away = False\<rparr> in
        (case first_idx (\<lambda>p. p = None) ps of
           Some i \<Rightarrow> set_partition_of ps i (Some part)
         | None \<Rightarrow>
             let i = length ps; k = (if i \<noteq> 0 then 2 * i else 2) in
             set_partition_of (ps @ replicate (k - i) None) i (Some part)))"

definition choose_partition :: "nat \<Rightarrow> partitions \<Rightarrow> nat \<Rightarrow> u8 \<Rightarrow> u8" where
  "choose_partition pgsz ps bytes cur_part =
     (case first_idx (\<lambda>i. i \<noteq> unat cur_part \<and>
              (case ps ! i of None \<Rightarrow> False
               | Some p \<Rightarrow> \<not> going_away p \<and> ptoa pgsz (pt_free p) \<ge> bytes)) [0..<length ps] of
        Some i \<Rightarrow> of_nat i
      | None \<Rightarrow> P_INDEX_INVALID)"

text \<open>The block found in the bitmap of a partition with room, and the partition after it is
  taken. A bitmap without a clear bit makes the pager panic.\<close>

definition take_bit_of_map :: "part \<Rightarrow> (nat \<times> part) outcome" where
  "take_bit_of_map p =
     (case first_idx (\<lambda>b. b \<noteq> BM_MASK) (take (howmany (total_size p) NB_BM) (bitmap p)) of
        None \<Rightarrow> Inl (Panics ''pager_alloc_page'')
      | Some bm_e \<Rightarrow>
          let b = bitmap p ! bm_e in
          (case first_idx (\<lambda>k. b AND push_bit k 1 = 0) [0..<NB_BM] of
             None \<Rightarrow> Inl (Panics ''pager_alloc_page'')
           | Some k \<Rightarrow>
               Inr (bm_e * NB_BM + k,
                    p\<lparr>bitmap := (bitmap p)[bm_e := b OR push_bit k 1], pt_free := pt_free p - 1\<rparr>)))"

text \<open>\<open>None\<close> is \<^verbatim>\<open>NO_BLOCK\<close>.\<close>

definition pager_alloc_page :: "partitions \<Rightarrow> u8 \<Rightarrow> (nat option \<times> partitions) outcome" where
  "pager_alloc_page ps pindex =
     (if no_partition pindex then Inr (None, ps)
      else case partition_of ps (unat pindex) of
        Inl e \<Rightarrow> Inl e
      | Inr None \<Rightarrow> Inr (None, ps)
      | Inr (Some p) \<Rightarrow>
          if going_away p then Inr (None, ps)
          else if pt_free p = 0 then Inr (None, ps)
          else case take_bit_of_map p of
            Inl e \<Rightarrow> Inl e
          | Inr (page, p') \<Rightarrow> Inr (Some page, ps[unat pindex := Some p']))"

definition clear_bit_of_map :: "part \<Rightarrow> nat \<Rightarrow> part" where
  "clear_bit_of_map p page =
     p\<lparr>bitmap := (bitmap p)[page div NB_BM := bitmap p ! (page div NB_BM) AND NOT (push_bit (page mod NB_BM) 1)],
       pt_free := pt_free p + 1\<rparr>"

definition pager_dealloc_page :: "partitions \<Rightarrow> u8 \<Rightarrow> nat \<Rightarrow> partitions outcome" where
  "pager_dealloc_page ps pindex page =
     (if no_partition pindex then Inl (Panics ''dealloc_page'')
      else case partition_of ps (unat pindex) of
        Inl e \<Rightarrow> Inl e
      | Inr None \<Rightarrow> Inl Null_Deref
      | Inr (Some p) \<Rightarrow>
          if page \<ge> total_size p then Inl (Panics ''dealloc_page'')
          else Inr (ps[unat pindex := Some (clear_bit_of_map p page)]))"

section \<open>Paging objects\<close>

text \<open>An entry of a direct map: the 24-bit page number and the 8-bit partition index.\<close>

record dp_block =
  p_offset :: nat
  p_index :: u8

definition NO_BLOCK :: dp_block where
  "NO_BLOCK = \<lparr>p_offset = 2 ^ 24 - 1, p_index = 255\<rparr>"

definition no_block :: "dp_block \<Rightarrow> bool" where
  "no_block b \<longleftrightarrow> b = NO_BLOCK"

text \<open>The block map: an array of entries, or an array of pointers to arrays of entries.\<close>

datatype dp_map = Direct "dp_block list" | Indirect "dp_block list option list"

record dpager =
  dmap :: dp_map
  dp_size :: nat
  cur_partition :: u8

definition PAGEMAP_ENTRIES :: nat where
  "PAGEMAP_ENTRIES = 64"

definition INDIRECT_PAGEMAP_ENTRIES :: "nat \<Rightarrow> nat" where
  "INDIRECT_PAGEMAP_ENTRIES npgs = (npgs - 1) div PAGEMAP_ENTRIES + 1"

definition INDIRECT_PAGEMAP :: "nat \<Rightarrow> bool" where
  "INDIRECT_PAGEMAP n \<longleftrightarrow> n > PAGEMAP_ENTRIES"

definition ROUNDUP_TO_PAGEMAP :: "nat \<Rightarrow> nat" where
  "ROUNDUP_TO_PAGEMAP npgs = (npgs + PAGEMAP_ENTRIES - 1) div PAGEMAP_ENTRIES * PAGEMAP_ENTRIES"

definition max_doubled_size :: nat where
  "max_doubled_size = 4 * 1024 * 1024"

text \<open>\<^verbatim>\<open>while (i < n) i <<= 1;\<close>, which does not end from 0.\<close>

partial_function (option) double_until :: "nat \<Rightarrow> nat \<Rightarrow> nat option" where
  "double_until i n = (if i < n then double_until (i * 2) n else Some i)"

text \<open>The sizing rule of \<open>pager_alloc\<close> (from 1) and \<open>pager_extend\<close> (from the old size).\<close>

definition map_pages :: "nat \<Rightarrow> nat \<Rightarrow> nat \<Rightarrow> nat outcome" where
  "map_pages pgsz start n =
     (if n \<le> atop pgsz max_doubled_size
      then (case double_until start n of None \<Rightarrow> Inl Blocked | Some i \<Rightarrow> Inr i)
      else Inr (ROUNDUP_TO_PAGEMAP n))"

definition pager_alloc :: "nat \<Rightarrow> u8 \<Rightarrow> nat \<Rightarrow> dpager outcome" where
  "pager_alloc pgsz part bytes =
     (case map_pages pgsz 1 (atop pgsz bytes) of
        Inl e \<Rightarrow> Inl e
      | Inr n \<Rightarrow>
          Inr \<lparr>dmap = (if INDIRECT_PAGEMAP n then Indirect (replicate (INDIRECT_PAGEMAP_ENTRIES n) None)
                       else Direct (replicate n NO_BLOCK)),
               dp_size = n, cur_partition = part\<rparr>)"

definition pager_allocated :: "nat \<Rightarrow> dpager \<Rightarrow> nat" where
  "pager_allocated pgsz pager =
     ptoa pgsz (case dmap pager of
        Indirect ms \<Rightarrow> sum_list (map (\<lambda>m. case m of None \<Rightarrow> 0
                          | Some es \<Rightarrow> length (filter (\<lambda>e. \<not> no_block e) es)) ms)
      | Direct es \<Rightarrow> length (filter (\<lambda>e. \<not> no_block e) es))"

text \<open>\<open>pager_pages\<close> collects offsets: the state of the loops is the current offset, the count and
  the offsets stored so far.\<close>

definition page_entry :: "nat \<Rightarrow> nat \<Rightarrow> dp_block \<Rightarrow> nat \<times> nat list \<Rightarrow> nat \<times> nat list" where
  "page_entry numpages offset e acc =
     (case acc of (actual, pages) \<Rightarrow>
        if no_block e then (actual, pages)
        else (actual + 1, if actual < numpages then pages @ [offset] else pages))"

definition pager_pages :: "nat \<Rightarrow> dpager \<Rightarrow> nat \<Rightarrow> nat \<times> nat list" where
  "pager_pages pgsz pager numpages =
     (case dmap pager of
        Indirect ms \<Rightarrow>
          snd (fold (\<lambda>m (offset, acc). case m of
                  None \<Rightarrow> (offset + pgsz * PAGEMAP_ENTRIES, acc)
                | Some es \<Rightarrow> (offset + pgsz, fold (page_entry numpages offset) es acc)) ms (0, 0, []))
      | Direct es \<Rightarrow> fold (page_entry numpages 0) es (0, []))"


definition pager_extend :: "nat \<Rightarrow> dpager \<Rightarrow> nat \<Rightarrow> dpager outcome" where
  "pager_extend pgsz pager new_size =
     (case map_pages pgsz (dp_size pager) new_size of
        Inl e \<Rightarrow> Inl e
      | Inr n \<Rightarrow>
          Inr (pager\<lparr>dp_size := n, dmap := (case dmap pager of
               Indirect ms \<Rightarrow> Indirect (ms @ replicate (INDIRECT_PAGEMAP_ENTRIES n - length ms) None)
             | Direct es \<Rightarrow>
                 if INDIRECT_PAGEMAP n
                 then Indirect (Some (es @ replicate (PAGEMAP_ENTRIES - length es) NO_BLOCK) #
                        replicate (INDIRECT_PAGEMAP_ENTRIES n - 1) None)
                 else Direct (es @ replicate (n - length es) NO_BLOCK))\<rparr>))"

text \<open>The entry of a page in the map; a null second-level map has no blocks.\<close>

definition map_entry :: "dp_map \<Rightarrow> nat \<Rightarrow> dp_block outcome" where
  "map_entry m f_page =
     (case m of
        Indirect ms \<Rightarrow>
          if f_page div PAGEMAP_ENTRIES < length ms then
            (case ms ! (f_page div PAGEMAP_ENTRIES) of
               None \<Rightarrow> Inr NO_BLOCK
             | Some es \<Rightarrow>
                 if f_page mod PAGEMAP_ENTRIES < length es then Inr (es ! (f_page mod PAGEMAP_ENTRIES))
                 else Inl Out_Of_Bounds)
          else Inl Out_Of_Bounds
      | Direct es \<Rightarrow> if f_page < length es then Inr (es ! f_page) else Inl Out_Of_Bounds)"

text \<open>The assignment to an entry; through a null second-level map it faults.\<close>

definition set_map_entry :: "dp_map \<Rightarrow> nat \<Rightarrow> dp_block \<Rightarrow> dp_map outcome" where
  "set_map_entry m f_page b =
     (case m of
        Indirect ms \<Rightarrow>
          if f_page div PAGEMAP_ENTRIES < length ms then
            (case ms ! (f_page div PAGEMAP_ENTRIES) of
               None \<Rightarrow> Inl Null_Deref
             | Some es \<Rightarrow>
                 if f_page mod PAGEMAP_ENTRIES < length es
                 then Inr (Indirect (ms[f_page div PAGEMAP_ENTRIES := Some (es[f_page mod PAGEMAP_ENTRIES := b])]))
                 else Inl Out_Of_Bounds)
          else Inl Out_Of_Bounds
      | Direct es \<Rightarrow> if f_page < length es then Inr (Direct (es[f_page := b])) else Inl Out_Of_Bounds)"

definition pager_read_offset :: "nat \<Rightarrow> dpager \<Rightarrow> nat \<Rightarrow> dp_block outcome" where
  "pager_read_offset pgsz pager offset =
     (let f_page = atop pgsz offset in
      if f_page \<ge> dp_size pager then Inl (Panics ''pager_read_offset'')
      else map_entry (dmap pager) f_page)"

text \<open>\<open>pager_release_offset\<close> reads the entry, which faults on a null second-level map, invalidates
  it and frees the block.\<close>

definition pager_release_offset :: "nat \<Rightarrow> partitions \<Rightarrow> dpager \<Rightarrow> nat \<Rightarrow> (partitions \<times> dpager) outcome" where
  "pager_release_offset pgsz ps pager offset =
     (let f_page = atop pgsz offset in
      case map_entry (dmap pager) f_page of
        Inl e \<Rightarrow> Inl e
      | Inr entry \<Rightarrow>
          (case set_map_entry (dmap pager) f_page NO_BLOCK of
             Inl e \<Rightarrow> Inl e
           | Inr m \<Rightarrow>
               (case pager_dealloc_page ps (p_index entry) (p_offset entry) of
                  Inl e \<Rightarrow> Inl e
                | Inr ps' \<Rightarrow> Inr (ps', pager\<lparr>dmap := m\<rparr>))))"

text \<open>The partition of an object that had none when it was made.\<close>

definition late_partition :: "nat \<Rightarrow> partitions \<Rightarrow> dpager \<Rightarrow> nat \<Rightarrow> u8" where
  "late_partition pgsz ps pager f_page =
     (if no_partition (cur_partition pager) then
        let n = (if f_page > dp_size pager then f_page else dp_size pager);
            new_part = choose_partition pgsz ps (ptoa pgsz n) P_INDEX_INVALID in
        if no_partition new_part then choose_partition pgsz ps (ptoa pgsz 1) P_INDEX_INVALID
        else new_part
      else cur_partition pager)"

text \<open>\<^verbatim>\<open>while (f_page >= pager->size) pager_extend(pager, f_page + 1);\<close>\<close>

partial_function (option) extend_loop :: "nat \<Rightarrow> nat \<Rightarrow> dpager \<Rightarrow> dpager outcome option" where
  "extend_loop pgsz f_page pager =
     (if f_page \<ge> dp_size pager then
        (case pager_extend pgsz pager (f_page + 1) of
           Inl e \<Rightarrow> Some (Inl e)
         | Inr p \<Rightarrow> extend_loop pgsz f_page p)
      else Some (Inr pager))"

text \<open>The second-level map of a page, allocated when it is missing (\<open>mem\<close>: \<^verbatim>\<open>kalloc\<close> has memory;
  without it \<open>no_paging_space\<close> panics).\<close>

definition second_level :: "bool \<Rightarrow> dp_map \<Rightarrow> nat \<Rightarrow> dp_map outcome" where
  "second_level mem m f_page =
     (case m of
        Direct es \<Rightarrow> Inr m
      | Indirect ms \<Rightarrow>
          if \<not> f_page div PAGEMAP_ENTRIES < length ms then Inl Out_Of_Bounds
          else if ms ! (f_page div PAGEMAP_ENTRIES) \<noteq> None then Inr m
          else if \<not> mem then Inl (Panics ''no_paging_space'')
          else Inr (Indirect (ms[f_page div PAGEMAP_ENTRIES := Some (replicate PAGEMAP_ENTRIES NO_BLOCK)])))"

text \<open>A block for a page: from the current partition, else from any other with room. The answer
  is the page and the partition it is in.\<close>

definition room_for_page :: "nat \<Rightarrow> partitions \<Rightarrow> u8 \<Rightarrow> (nat option \<times> u8 \<times> partitions) outcome" where
  "room_for_page pgsz ps cur =
     (case pager_alloc_page ps cur of
        Inl e \<Rightarrow> Inl e
      | Inr (Some off, ps') \<Rightarrow> Inr (Some off, cur, ps')
      | Inr (None, ps') \<Rightarrow>
          let new_part = choose_partition pgsz ps' (ptoa pgsz 1) cur in
          if no_partition new_part then Inr (None, cur, ps')
          else case pager_alloc_page ps' new_part of
            Inl e \<Rightarrow> Inl e
          | Inr (off, ps'') \<Rightarrow> Inr (off, new_part, ps''))"

definition pager_write_offset ::
  "nat \<Rightarrow> bool \<Rightarrow> partitions \<Rightarrow> dpager \<Rightarrow> nat \<Rightarrow> (dp_block \<times> partitions \<times> dpager) outcome" where
  "pager_write_offset pgsz mem ps pager offset =
     (let f_page = atop pgsz offset; part = late_partition pgsz ps pager f_page in
      if no_partition part then Inr (NO_BLOCK, ps, pager)
      else case extend_loop pgsz f_page (pager\<lparr>cur_partition := part\<rparr>) of
        None \<Rightarrow> Inl Blocked
      | Some (Inl e) \<Rightarrow> Inl e
      | Some (Inr pager) \<Rightarrow>
          (case second_level mem (dmap pager) f_page of
             Inl e \<Rightarrow> Inl e
           | Inr m \<Rightarrow>
               let pager = pager\<lparr>dmap := m\<rparr> in
               (case map_entry m f_page of
                  Inl e \<Rightarrow> Inl e
                | Inr block \<Rightarrow>
                    if \<not> no_block block then Inr (block, ps, pager)
                    else (case room_for_page pgsz ps part of
                        Inl e \<Rightarrow> Inl e
                      | Inr (None, cur, ps') \<Rightarrow> Inr (NO_BLOCK, ps', pager\<lparr>cur_partition := cur\<rparr>)
                      | Inr (Some off, cur, ps') \<Rightarrow>
                          let b = \<lparr>p_offset = off mod 2 ^ 24, p_index = cur\<rparr> in
                          (case set_map_entry m f_page b of
                             Inl e \<Rightarrow> Inl e
                           | Inr m' \<Rightarrow> Inr (b, ps', pager\<lparr>cur_partition := cur, dmap := m'\<rparr>))))))"

text \<open>All entries of a map in the order in which \<open>pager_dealloc\<close> visits them.\<close>

definition dealloc_order :: "dp_map \<Rightarrow> dp_block list" where
  "dealloc_order m =
     (case m of
        Indirect ms \<Rightarrow> concat (map (\<lambda>m2. case m2 of None \<Rightarrow> [] | Some es \<Rightarrow> es) (rev ms))
      | Direct es \<Rightarrow> es)"

fun dealloc_blocks :: "dp_block list \<Rightarrow> partitions \<Rightarrow> partitions outcome" where
  "dealloc_blocks [] ps = Inr ps"
| "dealloc_blocks (b # bs) ps =
     (if no_block b then dealloc_blocks bs ps
      else case pager_dealloc_page ps (p_index b) (p_offset b) of
        Inl e \<Rightarrow> Inl e
      | Inr ps' \<Rightarrow> dealloc_blocks bs ps')"

definition pager_dealloc :: "partitions \<Rightarrow> dpager \<Rightarrow> partitions outcome" where
  "pager_dealloc ps pager = dealloc_blocks (dealloc_order (dmap pager)) ps"

section \<open>Reading and writing pages\<close>

text \<open>
  The routines \<^verbatim>\<open>p_read\<close> and \<^verbatim>\<open>p_write\<close> of the partitions act on a disk of type \<open>'w\<close>:
  \<open>rd i offset n w\<close> is the data read from partition \<open>i\<close> (at most \<open>n\<close> bytes) and \<open>wr i offset bs w\<close>
  the number of bytes written with the new disk; \<open>None\<close> is a non-zero return code.
\<close>

datatype pager_status = PAGER_SUCCESS | PAGER_ABSENT | PAGER_ERROR

partial_function (option) read_loop ::
  "(nat \<Rightarrow> nat \<Rightarrow> nat \<Rightarrow> 'w \<Rightarrow> u8 list option) \<Rightarrow> 'w \<Rightarrow> nat \<Rightarrow> nat \<Rightarrow> nat \<Rightarrow> u8 list \<Rightarrow>
     (pager_status \<times> u8 list) outcome option" where
  "read_loop rd w i offset n got =
     (case rd i offset n w of
        None \<Rightarrow> Some (Inr (PAGER_ERROR, got))
      | Some bs \<Rightarrow>
          if length bs > n then Some (Inl Out_Of_Bounds)
          else if n - length bs = 0 then Some (Inr (PAGER_SUCCESS, got @ bs))
          else read_loop rd w i (offset + length bs) (n - length bs) (got @ bs))"

definition default_read ::
  "nat \<Rightarrow> (nat \<Rightarrow> nat \<Rightarrow> nat \<Rightarrow> 'w \<Rightarrow> u8 list option) \<Rightarrow> 'w \<Rightarrow> partitions \<Rightarrow> dpager \<Rightarrow> nat \<Rightarrow> nat \<Rightarrow> bool \<Rightarrow>
     (pager_status \<times> u8 list \<times> partitions \<times> dpager) outcome" where
  "default_read pgsz rd w ps ds n offset deallocate =
     (case pager_read_offset pgsz ds offset of
        Inl e \<Rightarrow> Inl e
      | Inr block \<Rightarrow>
          if no_block block then Inr (PAGER_ABSENT, [], ps, ds)
          else case partition_of ps (unat (p_index block)) of
            Inl e \<Rightarrow> Inl e
          | Inr None \<Rightarrow> Inl Null_Deref
          | Inr (Some p) \<Rightarrow>
              (case read_loop rd w (unat (p_index block)) (ptoa pgsz (p_offset block)) n [] of
                 None \<Rightarrow> Inl Blocked
               | Some (Inl e) \<Rightarrow> Inl e
               | Some (Inr (PAGER_SUCCESS, bs)) \<Rightarrow>
                   if deallocate then
                     (case pager_release_offset pgsz ps ds offset of
                        Inl e \<Rightarrow> Inl e
                      | Inr (ps', ds') \<Rightarrow> Inr (PAGER_SUCCESS, bs, ps', ds'))
                   else Inr (PAGER_SUCCESS, bs, ps, ds)
               | Some (Inr (st, bs)) \<Rightarrow> Inr (PAGER_ERROR, bs, ps, ds)))"

partial_function (option) write_loop ::
  "(nat \<Rightarrow> nat \<Rightarrow> u8 list \<Rightarrow> 'w \<Rightarrow> (nat \<times> 'w) option) \<Rightarrow> nat \<Rightarrow> nat \<Rightarrow> u8 list \<Rightarrow> 'w \<Rightarrow>
     (pager_status \<times> 'w) outcome option" where
  "write_loop wr i offset bs w =
     (case wr i offset bs w of
        None \<Rightarrow> Some (Inr (PAGER_ERROR, w))
      | Some (k, w') \<Rightarrow>
          if k > length bs then Some (Inl Out_Of_Bounds)
          else if length bs - k = 0 then Some (Inr (PAGER_SUCCESS, w'))
          else write_loop wr i (offset + k) (drop k bs) w')"

definition default_write ::
  "nat \<Rightarrow> bool \<Rightarrow> (nat \<Rightarrow> nat \<Rightarrow> u8 list \<Rightarrow> 'w \<Rightarrow> (nat \<times> 'w) option) \<Rightarrow> 'w \<Rightarrow> partitions \<Rightarrow> dpager \<Rightarrow> u8 list \<Rightarrow> nat \<Rightarrow>
     (pager_status \<times> 'w \<times> partitions \<times> dpager) outcome" where
  "default_write pgsz mem wr w ps ds bs offset =
     (case pager_write_offset pgsz mem ps ds offset of
        Inl e \<Rightarrow> Inl e
      | Inr (block, ps', ds') \<Rightarrow>
          if no_block block then Inr (PAGER_ERROR, w, ps', ds')
          else case partition_of ps' (unat (p_index block)) of
            Inl e \<Rightarrow> Inl e
          | Inr None \<Rightarrow> Inl Null_Deref
          | Inr (Some p) \<Rightarrow>
              (case write_loop wr (unat (p_index block)) (ptoa pgsz (p_offset block)) bs w of
                 None \<Rightarrow> Inl Blocked
               | Some (Inl e) \<Rightarrow> Inl e
               | Some (Inr (st, w')) \<Rightarrow> Inr (st, w', ps', ds')))"

definition default_has_page :: "nat \<Rightarrow> dpager \<Rightarrow> nat \<Rightarrow> bool outcome" where
  "default_has_page pgsz ds offset = map_sum id (\<lambda>b. \<not> no_block b) (pager_read_offset pgsz ds offset)"

end
