(* ===== verification/PagerSpace.thy ===== *)
theory PagerSpace
  imports Pager
begin

text \<open>
  The bitmaps of the paging partitions implement sets of free pages: \<open>pager_alloc_page\<close> takes
  the least free page, \<open>pager_dealloc_page\<close> gives one back, and the table of partitions is an
  \<open>allocator\<close> in the sense of the prelude.
\<close>

section \<open>One partition\<close>

definition page_used :: "part \<Rightarrow> nat \<Rightarrow> bool" where
  "page_used p k \<longleftrightarrow> bit (bitmap p ! (k div 32)) (k mod 32)"

definition free_pages :: "part \<Rightarrow> nat set" where
  "free_pages p = {k. k < total_size p \<and> \<not> page_used p k}"

definition part_ok :: "part \<Rightarrow> bool" where
  "part_ok p \<longleftrightarrow> length (bitmap p) = howmany (total_size p) NB_BM \<and> pt_free p = card (free_pages p) \<and>
     total_size p \<le> 2 ^ 24"

lemma finite_free_pages [simp]: "finite (free_pages p)"
  by (simp add: free_pages_def)

lemma word_index: "k < total_size p \<Longrightarrow> k div 32 < howmany (total_size p) NB_BM"
  unfolding howmany_def NB_BM_def by (simp add: div_le_mono less_mult_imp_div_less)

lemma and_bit_zero_iff:
  "(b :: u32) AND push_bit k 1 = 0 \<longleftrightarrow> \<not> bit b k" "(b :: u32) AND 2 ^ k = 0 \<longleftrightarrow> \<not> bit b k"
  by (simp_all add: push_bit_of_1 and_exp_eq_0_iff_not_bit)

lemma full_word_iff: "b = BM_MASK \<longleftrightarrow> (\<forall>k < 32. bit b k)"
proof -
  have m: "BM_MASK = - 1" by (simp add: BM_MASK_def)
  show ?thesis unfolding m
  proof
    assume "\<forall>k < 32. bit b k"
    then show "b = - 1" by (intro bit_word_eqI) simp
  qed simp
qed

lemma take_bit_of_map_ok:
  assumes ok: "part_ok p" and free: "0 < pt_free p"
  obtains k p' where "take_bit_of_map p = Inr (k, p')" "k \<in> free_pages p" "\<forall>j \<in> free_pages p. k \<le> j"
    "free_pages p' = free_pages p - {k}" "part_ok p'" "total_size p' = total_size p"
    "going_away p' = going_away p"
proof -
  let ?n = "howmany (total_size p) NB_BM"
  have len: "length (bitmap p) = ?n" "pt_free p = card (free_pages p)" "total_size p \<le> 2 ^ 24"
    using ok by (simp_all add: part_ok_def)
  have "free_pages p \<noteq> {}" using free len(2) by auto
  then obtain j0 where j0: "j0 \<in> free_pages p" by blast
  have not_full: "bitmap p ! (j div 32) \<noteq> BM_MASK \<and> j div 32 < length (bitmap p)" if "j \<in> free_pages p" for j
    using that word_index [of j p] len(1)
    by (auto simp: free_pages_def page_used_def full_word_iff intro: exI [of _ "j mod 32"])
  have "\<exists>e. first_idx (\<lambda>b. b \<noteq> BM_MASK) (bitmap p) = Some e"
    using first_idx_ex [of "j0 div 32" "bitmap p" "\<lambda>b. b \<noteq> BM_MASK"] not_full [OF j0] by blast
  then obtain e where e: "first_idx (\<lambda>b. b \<noteq> BM_MASK) (bitmap p) = Some e" ..
  from first_idx_SomeD [OF e] have e': "e < length (bitmap p)" "bitmap p ! e \<noteq> BM_MASK"
    "\<And>d. d < e \<Longrightarrow> bitmap p ! d = BM_MASK" by auto
  let ?b = "bitmap p ! e"
  from e'(2) obtain k0 where k0: "k0 < 32" "\<not> bit ?b k0" by (auto simp: full_word_iff)
  have "\<exists>k \<le> k0. first_idx (\<lambda>k. ?b AND push_bit k 1 = 0) [0..<NB_BM] = Some k"
    using k0 by (intro first_idx_ex) (simp_all add: NB_BM_def and_bit_zero_iff del: upt_rec_numeral)
  then obtain k where k: "first_idx (\<lambda>k. ?b AND push_bit k 1 = 0) [0..<NB_BM] = Some k" by blast
  from first_idx_SomeD [OF k] have k': "k < 32" "\<not> bit ?b k" "\<And>d. d < k \<Longrightarrow> bit ?b d"
    by (auto simp: NB_BM_def and_bit_zero_iff simp del: upt_rec_numeral)
  let ?page = "e * 32 + k"
  let ?p = "p\<lparr>bitmap := (bitmap p)[e := ?b OR push_bit k 1], pt_free := pt_free p - 1\<rparr>"
  have run: "take_bit_of_map p = Inr (?page, ?p)"
    using e k len(1) by (simp add: take_bit_of_map_def Let_def NB_BM_def del: upt_rec_numeral)
  have dm: "?page div 32 = e" "?page mod 32 = k" using k'(1) by simp_all
  have least: "?page \<le> j" if j: "j \<in> free_pages p" for j
  proof -
    have le: "e \<le> j div 32" using e'(3) [of "j div 32"] not_full [OF j] by (meson leI)
    show ?thesis
    proof (cases "j div 32 = e")
      case True
      then have "k \<le> j mod 32"
        using k'(3) [of "j mod 32"] j by (auto simp: free_pages_def page_used_def not_less [symmetric])
      moreover have "e * 32 + j mod 32 = j" using True div_mult_mod_eq [of j 32] by simp
      ultimately show ?thesis by linarith
    next
      case False
      then have "e + 1 \<le> j div 32" using le by simp
      then have "(e + 1) * 32 \<le> j div 32 * 32" by (rule mult_le_mono1)
      moreover have "j div 32 * 32 \<le> j" by simp
      ultimately show ?thesis using k'(1) by simp
    qed
  qed
  have mem: "?page \<in> free_pages p"
    using least [OF j0] j0 k'(2) dm unfolding free_pages_def page_used_def by auto
  have used: "page_used ?p j \<longleftrightarrow> page_used p j \<or> j = ?page" for j
  proof -
    have "j div 32 = e \<and> j mod 32 = k \<longleftrightarrow> j = ?page" using dm by (metis div_mult_mod_eq)
    then show ?thesis using e'(1) k'(1)
      by (auto simp: page_used_def nth_list_update bit_or_iff push_bit_of_1 bit_exp_iff)
  qed
  then have fp: "free_pages ?p = free_pages p - {?page}" by (auto simp: free_pages_def)
  then have "part_ok ?p" using len mem by (simp add: part_ok_def card_Diff_singleton)
  with run mem least fp show thesis by (intro that [of ?page ?p]) simp_all
qed

lemma clear_bit_of_map_ok:
  assumes ok: "part_ok p" and k: "k < total_size p" "k \<notin> free_pages p"
  shows "free_pages (clear_bit_of_map p k) = insert k (free_pages p)" "part_ok (clear_bit_of_map p k)"
    "total_size (clear_bit_of_map p k) = total_size p" "going_away (clear_bit_of_map p k) = going_away p"
proof -
  have len: "k div 32 < length (bitmap p)" using ok word_index [OF k(1)] by (simp add: part_ok_def)
  have used: "page_used (clear_bit_of_map p k) j \<longleftrightarrow> page_used p j \<and> j \<noteq> k" for j
  proof -
    have "j div 32 = k div 32 \<and> j mod 32 = k mod 32 \<longleftrightarrow> j = k" by (metis div_mult_mod_eq)
    then show ?thesis using len
      by (auto simp: page_used_def clear_bit_of_map_def NB_BM_def nth_list_update bit_and_iff bit_not_iff
          push_bit_of_1 bit_exp_iff)
  qed
  then show fp: "free_pages (clear_bit_of_map p k) = insert k (free_pages p)"
    using k(1) by (auto simp: free_pages_def clear_bit_of_map_def)
  then show "part_ok (clear_bit_of_map p k)"
    using ok k(2) unfolding part_ok_def fp by (simp add: clear_bit_of_map_def)
  show "total_size (clear_bit_of_map p k) = total_size p" "going_away (clear_bit_of_map p k) = going_away p"
    by (simp_all add: clear_bit_of_map_def)
qed


section \<open>The table of partitions\<close>

text \<open>The free blocks of the paging space, as pairs of partition index and page.\<close>

definition space :: "partitions \<Rightarrow> (nat \<times> nat) set" where
  "space ps = {(i, k). i < length ps \<and> (\<exists>p. ps ! i = Some p \<and> k \<in> free_pages p)}"

text \<open>At most 255 slots: the last value of the 8-bit index means that there is no partition.\<close>

definition parts_ok :: "partitions \<Rightarrow> bool" where
  "parts_ok ps \<longleftrightarrow> length ps \<le> 255 \<and> (\<forall>i p. i < length ps \<longrightarrow> ps ! i = Some p \<longrightarrow> part_ok p)"

definition valid_block :: "partitions \<Rightarrow> nat \<times> nat \<Rightarrow> bool" where
  "valid_block ps b \<longleftrightarrow> fst b < length ps \<and> (\<exists>p. ps ! fst b = Some p \<and> snd b < total_size p)"

text \<open>What the operations on single pages leave as it is.\<close>

definition shape :: "partitions \<Rightarrow> (nat \<times> bool) option list" where
  "shape ps = map (map_option (\<lambda>p. (total_size p, going_away p))) ps"

lemma shape_length: "shape ps = shape ps' \<Longrightarrow> length ps = length ps'"
  unfolding shape_def by (rule map_eq_imp_length_eq)

lemma shape_nth: "shape ps = shape ps' \<Longrightarrow> i < length ps \<Longrightarrow>
  map_option (\<lambda>p. (total_size p, going_away p)) (ps ! i) = map_option (\<lambda>p. (total_size p, going_away p)) (ps' ! i)"
  by (simp add: shape_def list_eq_iff_nth_eq)

lemma valid_block_shape:
  assumes "shape ps = shape ps'"
  shows "valid_block ps b \<longleftrightarrow> valid_block ps' b"
proof -
  have "(\<exists>p. ps ! i = Some p \<and> k < total_size p) \<longleftrightarrow> (\<exists>p. ps' ! i = Some p \<and> k < total_size p)"
    if "i < length ps" for i k
    using shape_nth [OF assms that] by (cases "ps ! i"; cases "ps' ! i") simp_all
  then show ?thesis unfolding valid_block_def using shape_length [OF assms] by auto
qed

lemma shape_update:
  "i < length ps \<Longrightarrow> ps ! i = Some p \<Longrightarrow> total_size p' = total_size p \<Longrightarrow> going_away p' = going_away p \<Longrightarrow>
   shape (ps[i := Some p']) = shape ps"
  by (simp add: shape_def map_update list_update_same_conv)

lemma parts_ok_update: "parts_ok ps \<Longrightarrow> part_ok p \<Longrightarrow> parts_ok (ps[i := Some p])"
  by (cases "i < length ps") (auto simp: parts_ok_def nth_list_update split: if_splits)

lemma space_update:
  assumes "i < length ps" "ps ! i = Some p"
  shows "space (ps[i := Some p']) = space ps - {i} \<times> free_pages p \<union> {i} \<times> free_pages p'"
  using assms by (auto simp: space_def nth_list_update split: if_splits)

lemma u8_less: "i < 256 \<Longrightarrow> unat (of_nat i :: u8) = i"
  by (simp add: unat_of_nat)

lemma pager_alloc_page_ok:
  assumes ok: "parts_ok ps" and i: "no_partition pi \<or> unat pi < length ps"
  shows "case pager_alloc_page ps pi of
      Inl e \<Rightarrow> False
    | Inr (None, ps') \<Rightarrow> ps' = ps \<and>
        (no_partition pi \<or> ps ! unat pi = None \<or> going_away (the (ps ! unat pi)) \<or> free_pages (the (ps ! unat pi)) = {})
    | Inr (Some k, ps') \<Rightarrow> \<not> no_partition pi \<and> (unat pi, k) \<in> space ps \<and> space ps' = space ps - {(unat pi, k)} \<and>
        (\<forall>j. (unat pi, j) \<in> space ps \<longrightarrow> k \<le> j) \<and> parts_ok ps' \<and> shape ps' = shape ps"
proof (cases "no_partition pi \<or> ps ! unat pi = None \<or> going_away (the (ps ! unat pi)) \<or> pt_free (the (ps ! unat pi)) = 0")
  case True
  then have "pager_alloc_page ps pi = Inr (None, ps)"
    using i by (cases "ps ! unat pi") (auto simp: pager_alloc_page_def partition_of_def)
  moreover have "free_pages p = {}" if "part_ok p" "pt_free p = 0" for p
    using that by (simp add: part_ok_def)
  ultimately show ?thesis using True i ok by (auto simp: parts_ok_def)
next
  case False
  then obtain p where p: "ps ! unat pi = Some p" "\<not> going_away p" "0 < pt_free p" "\<not> no_partition pi"
    "unat pi < length ps" using i by auto
  then have "part_ok p" using ok by (simp add: parts_ok_def)
  from take_bit_of_map_ok [OF this p(3)] obtain k p' where
    t: "take_bit_of_map p = Inr (k, p')" "k \<in> free_pages p" "\<forall>j \<in> free_pages p. k \<le> j"
      "free_pages p' = free_pages p - {k}" "part_ok p'" "total_size p' = total_size p"
      "going_away p' = going_away p" .
  have "pager_alloc_page ps pi = Inr (Some k, ps[unat pi := Some p'])"
    using p t(1) by (simp add: pager_alloc_page_def partition_of_def)
  moreover have "space (ps[unat pi := Some p']) = space ps - {(unat pi, k)}"
    using space_update [OF p(5,1), of p'] t(2,4) p(1,5) by (auto simp: space_def)
  ultimately show ?thesis
    using p t parts_ok_update [OF ok t(5)] shape_update [OF p(5,1) t(6,7)] by (auto simp: space_def)
qed

lemma pager_dealloc_page_ok:
  assumes ok: "parts_ok ps" and b: "valid_block ps (unat pi, k)" "(unat pi, k) \<notin> space ps"
  shows "\<exists>ps'. pager_dealloc_page ps pi k = Inr ps' \<and> space ps' = insert (unat pi, k) (space ps) \<and>
     parts_ok ps' \<and> shape ps' = shape ps"
proof -
  from b(1) obtain p where p: "unat pi < length ps" "ps ! unat pi = Some p" "k < total_size p"
    by (auto simp: valid_block_def)
  then have pk: "part_ok p" "k \<notin> free_pages p" using ok b(2) by (auto simp: parts_ok_def space_def)
  note c = clear_bit_of_map_ok [OF pk(1) p(3) pk(2)]
  have "\<not> no_partition pi" using ok p(1) by (auto simp: no_partition_def P_INDEX_INVALID_def parts_ok_def)
  then have "pager_dealloc_page ps pi k = Inr (ps[unat pi := Some (clear_bit_of_map p k)])"
    using p by (simp add: pager_dealloc_page_def partition_of_def)
  moreover have "space (ps[unat pi := Some (clear_bit_of_map p k)]) = insert (unat pi, k) (space ps)"
    using space_update [OF p(1,2), of "clear_bit_of_map p k"] p unfolding c(1) by (auto simp: space_def)
  ultimately show ?thesis using parts_ok_update [OF ok c(2)] shape_update [OF p(1,2) c(3,4)] by blast
qed

section \<open>The allocator contract\<close>

definition page_get :: "u8 \<Rightarrow> partitions \<Rightarrow> ((u8 \<times> nat) \<times> partitions) option" where
  "page_get pi ps =
     (if no_partition pi \<or> unat pi < length ps then
        (case pager_alloc_page ps pi of Inr (Some k, ps') \<Rightarrow> Some ((pi, k), ps') | _ \<Rightarrow> None)
      else None)"

definition page_give :: "u8 \<times> nat \<Rightarrow> partitions \<Rightarrow> partitions outcome" where
  "page_give b ps = pager_dealloc_page ps (fst b) (snd b)"

interpretation pages: allocator parts_ok space "\<lambda>b. {(unat (fst b), snd b)}"
  "\<lambda>ps b. valid_block ps (unat (fst b), snd b)" "\<lambda>_. True" page_get page_give
proof
  fix s r b s'
  assume a: "parts_ok s" "page_get r s = Some (b, s')"
  then have i: "no_partition r \<or> unat r < length s" by (auto simp: page_get_def split: if_splits)
  with a(2) obtain k where k: "pager_alloc_page s r = Inr (Some k, s')" "b = (r, k)"
    by (auto simp: page_get_def split: sum.splits option.splits)
  have l: "(unat r, k) \<in> space s" "space s' = space s - {(unat r, k)}" "parts_ok s'" "shape s' = shape s"
    using pager_alloc_page_ok [OF a(1) i] k(1) by simp_all
  from l(1) have "valid_block s (unat r, k)" by (auto simp: space_def valid_block_def free_pages_def)
  then show "parts_ok s' \<and> valid_block s' (unat (fst b), snd b) \<and> {(unat (fst b), snd b)} \<subseteq> space s \<and>
      space s' = space s - {(unat (fst b), snd b)} \<and>
      (\<forall>c. valid_block s (unat (fst c), snd c) \<longrightarrow> valid_block s' (unat (fst c), snd c))"
    using l k(2) valid_block_shape [OF l(4)] by simp
next
  fix s b s'
  assume a: "parts_ok s" "valid_block s (unat (fst b), snd b)" "{(unat (fst b), snd b)} \<inter> space s = {}"
    "page_give b s = Inr s'"
  with pager_dealloc_page_ok [OF a(1,2)] have
    l: "space s' = insert (unat (fst b), snd b) (space s)" "parts_ok s'" "shape s' = shape s"
    by (auto simp: page_give_def)
  then show "parts_ok s' \<and> space s' = space s \<union> {(unat (fst b), snd b)} \<and>
      (\<forall>c. valid_block s (unat (fst c), snd c) \<longrightarrow> valid_block s' (unat (fst c), snd c))"
    using valid_block_shape [OF l(3)] by auto
qed

interpretation pages: total_allocator parts_ok space "\<lambda>b. {(unat (fst b), snd b)}"
  "\<lambda>ps b. valid_block ps (unat (fst b), snd b)" "\<lambda>_. True" page_get page_give
proof
  fix s and b :: "u8 \<times> nat"
  assume "parts_ok s" "valid_block s (unat (fst b), snd b)" "{(unat (fst b), snd b)} \<inter> space s = {}"
  with pager_dealloc_page_ok [of s "fst b" "snd b"] show "\<exists>s'. page_give b s = Inr s'"
    by (auto simp: page_give_def)
qed

section \<open>Properties\<close>



text \<open>
  C18 (refinement). On a consistent table of partitions the bitmap search implements the
  abstract choice of the least free page: it yields a page exactly when the partition exists, is
  not being removed and has a free page, the page is the least free one, and exactly that page
  is no longer free.
\<close>

theorem pager_alloc_page_least:
  assumes "parts_ok ps" "unat pi < length ps"
  shows "pager_alloc_page ps pi \<in> range Inr \<and>
     (\<forall>r ps'. pager_alloc_page ps pi = Inr (r, ps') \<longrightarrow>
        (let free = (case ps ! unat pi of Some p \<Rightarrow> if going_away p then {} else free_pages p | None \<Rightarrow> {}) in
         parts_ok ps' \<and> r = (if free = {} then None else Some (Min free)) \<and>
         space ps' = space ps - (if free = {} then {} else {(unat pi, Min free)})))"
proof -
  let ?free = "case ps ! unat pi of Some p \<Rightarrow> if going_away p then {} else free_pages p | None \<Rightarrow> {}"
  have np: "\<not> no_partition pi" using assms by (auto simp: no_partition_def P_INDEX_INVALID_def parts_ok_def)
  note ok = pager_alloc_page_ok [OF assms(1) disjI2 [OF assms(2)]]
  have fin: "finite ?free" by (simp split: option.split)
  show ?thesis
  proof (cases "pager_alloc_page ps pi")
    case (Inl e)
    with ok show ?thesis by simp
  next
    case (Inr res)
    then obtain r ps' where res: "pager_alloc_page ps pi = Inr (r, ps')" by (cases res) auto
    show ?thesis
    proof (cases r)
      case None
      with ok res np have "ps' = ps" "?free = {}" by (auto split: option.split)
      with res None assms(1) show ?thesis by (simp add: Let_def)
    next
      case (Some k)
      with ok res have k: "(unat pi, k) \<in> space ps" "space ps' = space ps - {(unat pi, k)}"
        "\<forall>j. (unat pi, j) \<in> space ps \<longrightarrow> k \<le> j" "parts_ok ps'" by simp_all
      from k(1) obtain p where p: "ps ! unat pi = Some p" "k \<in> free_pages p" by (auto simp: space_def)
      have "\<not> going_away p" using res Some p(1) np assms(2)
        by (auto simp: pager_alloc_page_def partition_of_def split: if_splits)
      with p have fr: "?free = free_pages p" by simp
      have "Min (free_pages p) = k"
        using k(3) p assms(2) by (intro Min_eqI) (auto simp: space_def)
      with res Some k(2,4) p(2) fr show ?thesis by (auto simp: Let_def)
    qed
  qed
qed

theorem pager_alloc_page_least_witness:
  "\<exists>ps'. pager_alloc_page [Some \<lparr>total_size = 3, pt_free = 2, pt_id = 0, bitmap = [1], going_away = False\<rparr>] 0 =
     Inr (Some 1, ps') \<and> space ps' = {(0, 2)}"
proof -
  let ?p = "\<lparr>total_size = 3, pt_free = 2, pt_id = 0, bitmap = [1], going_away = False\<rparr>"
  have f: "free_pages ?p = {1, 2}" by (auto simp: free_pages_def page_used_def bit_1_iff)
  have "part_ok ?p" unfolding part_ok_def f by (simp add: howmany_def NB_BM_def)
  then have ok: "parts_ok [Some ?p]" by (simp add: parts_ok_def)
  have sp: "space [Some ?p] = {(0, 1), (0, 2)}" by (auto simp: space_def f)
  from pager_alloc_page_least [OF ok, of 0] obtain r ps' where
    "pager_alloc_page [Some ?p] 0 = Inr (r, ps')" by auto
  with pager_alloc_page_least [OF ok, of 0] sp show ?thesis by (auto simp: Let_def f)
qed

end
