(* ===== verification/PagerMap.thy ===== *)
theory PagerMap
  imports PagerSpace
begin

text \<open>
  Paging objects: the one- and two-level block maps implement a function from page numbers to
  blocks, which extending the object does not change and which \<open>pager_write_offset\<close> changes at
  one page only. Together with the partitions this gives a page store: what \<open>default_write\<close>
  puts at an offset is what \<open>default_read\<close> finds there.
\<close>

section \<open>Block maps as functions\<close>

definition entry :: "dp_map \<Rightarrow> nat \<Rightarrow> dp_block" where
  "entry m f =
     (case m of
        Direct es \<Rightarrow> if f < length es then es ! f else NO_BLOCK
      | Indirect ms \<Rightarrow>
          if f div 64 < length ms
          then (case ms ! (f div 64) of None \<Rightarrow> NO_BLOCK | Some es \<Rightarrow> es ! (f mod 64)) else NO_BLOCK)"

definition map_ok :: "dp_map \<Rightarrow> nat \<Rightarrow> bool" where
  "map_ok m n \<longleftrightarrow>
     (case m of
        Direct es \<Rightarrow> length es = n \<and> n \<le> 64 \<and> (\<exists>k. n = 2 ^ k)
      | Indirect ms \<Rightarrow> 64 < n \<and> 64 dvd n \<and> length ms = n div 64 \<and> (\<forall>es. Some es \<in> set ms \<longrightarrow> length es = 64))"

definition pager_ok :: "dpager \<Rightarrow> bool" where
  "pager_ok pager \<longleftrightarrow> map_ok (dmap pager) (dp_size pager)"

lemma div64_less: "f < n \<Longrightarrow> 64 dvd n \<Longrightarrow> f div 64 < (n::nat) div 64"
  by (metis div_less_iff_less_mult dvd_div_mult_self zero_less_numeral)

lemma map_entry_eq: "map_ok m n \<Longrightarrow> f < n \<Longrightarrow> map_entry m f = Inr (entry m f)"
  using div64_less [of f n]
  by (cases m) (force simp: map_ok_def map_entry_def entry_def PAGEMAP_ENTRIES_def in_set_conv_nth
      split: option.split)+

lemma entry_beyond: "map_ok m n \<Longrightarrow> n \<le> f \<Longrightarrow> entry m f = NO_BLOCK"
  by (cases m) (auto simp: map_ok_def entry_def dest: div_le_mono [of n f 64])

lemma set_map_entry_ok:
  assumes "map_ok m n" "f < n" "\<And>ms. m = Indirect ms \<Longrightarrow> ms ! (f div 64) \<noteq> None"
  obtains m' where "set_map_entry m f b = Inr m'" "map_ok m' n" "entry m' = (entry m)(f := b)"
proof (cases m)
  case (Direct es)
  then have "f < length es" using assms(1,2) by (simp add: map_ok_def)
  with Direct assms(1) show ?thesis
    by (intro that [of "Direct (es[f := b])"])
      (auto simp: set_map_entry_def map_ok_def entry_def fun_eq_iff nth_list_update)
next
  case (Indirect ms)
  then have lt: "f div 64 < length ms" using assms(1,2) div64_less by (simp add: map_ok_def)
  from assms(3) [OF Indirect] obtain es where es: "ms ! (f div 64) = Some es" by blast
  then have len: "length es = 64" using Indirect assms(1) lt nth_mem [OF lt] by (auto simp: map_ok_def)
  let ?m = "Indirect (ms[f div 64 := Some (es[f mod 64 := b])])"
  have "Some xs \<in> set (ms[f div 64 := Some (es[f mod 64 := b])]) \<Longrightarrow> length xs = 64" for xs
    using set_update_subset_insert [of ms "f div 64" "Some (es[f mod 64 := b])"] Indirect assms(1) len
    by (auto simp: map_ok_def)
  then have "map_ok ?m n" using Indirect assms(1) by (simp add: map_ok_def)
  moreover have "entry ?m = (entry m)(f := b)"
  proof
    fix g
    have "g div 64 = f div 64 \<and> g mod 64 = f mod 64 \<longleftrightarrow> g = f" by (metis div_mult_mod_eq)
    then show "entry ?m g = ((entry m)(f := b)) g"
      using lt es len Indirect by (auto simp: entry_def nth_list_update)
  qed
  moreover have "set_map_entry m f b = Inr ?m"
    using Indirect lt es len by (simp add: set_map_entry_def PAGEMAP_ENTRIES_def)
  ultimately show ?thesis by (intro that)
qed

lemma second_level_ok:
  assumes "map_ok m n" "f < n"
  obtains m' where "second_level True m f = Inr m'" "map_ok m' n" "entry m' = entry m"
    "\<And>ms. m' = Indirect ms \<Longrightarrow> ms ! (f div 64) \<noteq> None"
proof (cases m)
  case (Direct es)
  then show ?thesis using assms by (intro that [of m]) (simp_all add: second_level_def)
next
  case (Indirect ms)
  then have lt: "f div 64 < length ms" using assms div64_less by (simp add: map_ok_def)
  show ?thesis
  proof (cases "ms ! (f div 64)")
    case (Some es)
    then show ?thesis using Indirect lt assms(1)
      by (intro that [of m]) (simp_all add: second_level_def PAGEMAP_ENTRIES_def)
  next
    case None
    let ?new = "Some (replicate 64 NO_BLOCK)"
    have "Some xs \<in> set (ms[f div 64 := ?new]) \<Longrightarrow> length xs = 64" for xs
      using set_update_subset_insert [of ms "f div 64" ?new] Indirect assms(1) by (auto simp: map_ok_def)
    then have "map_ok (Indirect (ms[f div 64 := ?new])) n" using Indirect assms(1) by (simp add: map_ok_def)
    moreover have "entry (Indirect (ms[f div 64 := ?new])) = entry m"
      using Indirect lt None by (auto simp: entry_def fun_eq_iff nth_list_update)
    moreover have "second_level True m f = Inr (Indirect (ms[f div 64 := ?new]))"
      using Indirect lt None by (simp add: second_level_def PAGEMAP_ENTRIES_def)
    ultimately show ?thesis using lt by (intro that [of "Indirect (ms[f div 64 := ?new])"]) auto
  qed
qed

section \<open>Sizes\<close>

lemma double_until_returns:
  "0 < i \<Longrightarrow> \<exists>k. double_until i n = Some (i * 2 ^ k) \<and> n \<le> i * 2 ^ k"
proof (induction "n - i" arbitrary: i rule: less_induct)
  case less
  show ?case
  proof (cases "i < n")
    case False
    then show ?thesis by (intro exI [of _ 0]) (simp add: double_until.simps)
  next
    case True
    then have "n - i * 2 < n - i" "0 < i * 2" using less.prems by simp_all
    from less.hyps [OF this] obtain k where "double_until (i * 2) n = Some (i * 2 * 2 ^ k)" "n \<le> i * 2 * 2 ^ k"
      by blast
    with True show ?thesis by (intro exI [of _ "Suc k"]) (simp add: double_until.simps [of i] ac_simps)
  qed
qed

text \<open>A size of a map: a power of two up to 64 pages, a multiple of 64 above.\<close>

definition size_ok :: "nat \<Rightarrow> bool" where
  "size_ok n \<longleftrightarrow> 0 < n \<and> (if n \<le> 64 then \<exists>k. n = 2 ^ k else 64 dvd n)"

lemma size_ok_double: "size_ok i \<Longrightarrow> size_ok (i * 2 ^ k)"
proof (cases "i \<le> 64")
  case True
  assume "size_ok i"
  then obtain j where j: "i = 2 ^ j" using True by (auto simp: size_ok_def)
  then have e: "i * 2 ^ k = 2 ^ (j + k)" by (simp add: power_add)
  have "64 dvd (2 ^ (j + k) :: nat)" if "64 < (2 ^ (j + k) :: nat)"
  proof -
    have "(2 ^ 6 :: nat) < 2 ^ (j + k)" using that by simp
    then have "6 \<le> j + k" by (simp only: power_strict_increasing_iff)
    then have "(2 ^ 6 :: nat) dvd 2 ^ (j + k)" by (rule le_imp_power_dvd)
    then show ?thesis by simp
  qed
  then show ?thesis unfolding size_ok_def e by auto
next
  case False
  assume "size_ok i"
  then have "64 dvd i" using False by (simp add: size_ok_def)
  moreover have "i \<le> i * 2 ^ k" by simp
  then have "64 < i * 2 ^ k" using False by linarith
  ultimately show ?thesis using False by (simp add: size_ok_def)
qed

lemma roundup_ok: "0 < n \<Longrightarrow> size_ok (ROUNDUP_TO_PAGEMAP n) \<and> n \<le> ROUNDUP_TO_PAGEMAP n"
proof -
  assume n: "0 < n"
  define q where "q = (n + 63) div 64"
  have r: "ROUNDUP_TO_PAGEMAP n = q * 64" by (simp add: ROUNDUP_TO_PAGEMAP_def PAGEMAP_ENTRIES_def q_def)
  have "(n + 63) div 64 * 64 + (n + 63) mod 64 = n + 63" by (rule div_mult_mod_eq)
  moreover have "(n + 63) mod 64 < 64" by simp
  ultimately have ge: "n \<le> q * 64" unfolding q_def by linarith
  then have "0 < q" using n by (cases q) simp_all
  moreover have "\<exists>k. q * 64 = 2 ^ k" if "q * 64 \<le> 64"
    using that \<open>0 < q\<close> by (intro exI [of _ 6]) simp
  ultimately show ?thesis using ge by (auto simp: r size_ok_def)
qed

lemma map_pages_ok:
  assumes "size_ok start" "0 < n"
  obtains m where "map_pages pgsz start n = Inr m" "size_ok m" "n \<le> m"
    "n \<le> atop pgsz max_doubled_size \<Longrightarrow> \<exists>k. m = start * 2 ^ k"
proof (cases "n \<le> atop pgsz max_doubled_size")
  case True
  have "0 < start" using assms(1) by (simp add: size_ok_def)
  from double_until_returns [OF this, of n] obtain k where
    k: "double_until start n = Some (start * 2 ^ k)" "n \<le> start * 2 ^ k" by blast
  with True size_ok_double [OF assms(1)] show ?thesis
    by (intro that [of "start * 2 ^ k"]) (auto simp: map_pages_def)
next
  case False
  with roundup_ok [OF assms(2)] show ?thesis
    by (intro that [of "ROUNDUP_TO_PAGEMAP n"]) (simp_all add: map_pages_def)
qed


lemma pager_ok_size: "pager_ok pager \<Longrightarrow> size_ok (dp_size pager)"
  by (cases "dmap pager") (auto simp: pager_ok_def map_ok_def size_ok_def)

lemma indirect_entries: "size_ok n \<Longrightarrow> 64 < n \<Longrightarrow> INDIRECT_PAGEMAP_ENTRIES n = n div 64"
proof -
  assume "size_ok n" "64 < n"
  then obtain q where q: "n = 64 * q" "0 < q" by (auto simp: size_ok_def elim: dvdE)
  then obtain r where "q = Suc r" using not0_implies_Suc by blast
  then have "n - 1 = 64 * r + 63" using q by simp
  then have "(n - 1) div 64 = r" by simp
  with q \<open>q = Suc r\<close> show ?thesis by (simp add: INDIRECT_PAGEMAP_ENTRIES_def PAGEMAP_ENTRIES_def)
qed

section \<open>Creating and extending an object\<close>

lemma pager_alloc_ok:
  "\<exists>pager. pager_alloc pgsz part bytes = Inr pager \<and> pager_ok pager \<and> atop pgsz bytes \<le> dp_size pager \<and>
     cur_partition pager = part \<and> entry (dmap pager) = (\<lambda>_. NO_BLOCK)"
proof -
  let ?n = "atop pgsz bytes"
  have s1: "size_ok 1" by (auto simp: size_ok_def intro: exI [of _ 0])
  have "\<exists>m. map_pages pgsz 1 ?n = Inr m \<and> size_ok m \<and> ?n \<le> m"
  proof (cases "?n = 0")
    case True
    then have "map_pages pgsz 1 ?n = Inr 1" by (simp add: map_pages_def double_until.simps)
    with True s1 show ?thesis by simp
  next
    case False
    then have "0 < ?n" by simp
    from map_pages_ok [OF s1 this] show ?thesis by metis
  qed
  then obtain m where m: "map_pages pgsz 1 ?n = Inr m" "size_ok m" "?n \<le> m" by blast
  let ?map = "if INDIRECT_PAGEMAP m then Indirect (replicate (INDIRECT_PAGEMAP_ENTRIES m) None)
                       else Direct (replicate m NO_BLOCK)"
  have "map_ok ?map m"
    using m(2) indirect_entries [OF m(2)]
    by (auto simp: map_ok_def INDIRECT_PAGEMAP_def PAGEMAP_ENTRIES_def size_ok_def)
  moreover have "entry ?map = (\<lambda>_. NO_BLOCK)" by (auto simp: entry_def fun_eq_iff)
  ultimately show ?thesis using m by (simp add: pager_alloc_def pager_ok_def)
qed

lemma pager_extend_ok:
  assumes ok: "pager_ok pager" and n: "dp_size pager < n"
  shows "\<exists>p. pager_extend pgsz pager n = Inr p \<and> pager_ok p \<and> n \<le> dp_size p \<and>
     cur_partition p = cur_partition pager \<and> entry (dmap p) = entry (dmap pager)"
proof -
  have so: "size_ok (dp_size pager)" using pager_ok_size [OF ok] .
  from n have "0 < n" by simp
  from map_pages_ok [OF so this, of pgsz] obtain m where
    m: "map_pages pgsz (dp_size pager) n = Inr m" "size_ok m" "n \<le> m" by metis
  have gt: "dp_size pager < m" using n m(3) by simp
  show ?thesis
  proof (cases "dmap pager")
    case (Indirect ms)
    then have ms: "64 < dp_size pager" "length ms = dp_size pager div 64"
      "\<And>es. Some es \<in> set ms \<Longrightarrow> length es = 64" using ok by (simp_all add: pager_ok_def map_ok_def)
    have e: "INDIRECT_PAGEMAP_ENTRIES m = m div 64" using indirect_entries [OF m(2)] gt ms(1) by simp
    have le: "length ms \<le> m div 64" using ms(2) gt by (simp add: div_le_mono)
    let ?map = "Indirect (ms @ replicate (m div 64 - length ms) None)"
    have "map_ok ?map m" using ms m(2) gt le by (auto simp: map_ok_def size_ok_def)
    moreover have "entry ?map = entry (dmap pager)"
      using Indirect by (auto simp: entry_def fun_eq_iff nth_append)
    ultimately show ?thesis using m Indirect e by (simp add: pager_extend_def pager_ok_def)
  next
    case (Direct es)
    then have es: "length es = dp_size pager" "dp_size pager \<le> 64" using ok by (simp_all add: pager_ok_def map_ok_def)
    show ?thesis
    proof (cases "64 < m")
      case True
      let ?map = "Indirect (Some (es @ replicate (64 - length es) NO_BLOCK) # replicate (m div 64 - 1) None)"
      have e: "INDIRECT_PAGEMAP_ENTRIES m = m div 64" using indirect_entries [OF m(2) True] .
      have "map_ok ?map m" using es m(2) True by (auto simp: map_ok_def size_ok_def)
      moreover have "entry ?map f = entry (dmap pager) f" for f
      proof (cases "f < 64")
        case True
        then show ?thesis using Direct es by (simp add: entry_def nth_append)
      next
        case False
        then have "0 < f div 64" by (simp add: div_greater_zero_iff)
        then show ?thesis using Direct es False by (auto simp: entry_def nth_Cons')
      qed
      ultimately show ?thesis using m Direct True e
        by (auto simp: pager_extend_def pager_ok_def INDIRECT_PAGEMAP_def PAGEMAP_ENTRIES_def fun_eq_iff)
    next
      case False
      let ?map = "Direct (es @ replicate (m - length es) NO_BLOCK)"
      have "map_ok ?map m" using es gt m(2) False by (auto simp: map_ok_def size_ok_def)
      moreover have "entry ?map = entry (dmap pager)"
        using Direct by (auto simp: entry_def fun_eq_iff nth_append)
      ultimately show ?thesis using m Direct False
        by (simp add: pager_extend_def pager_ok_def INDIRECT_PAGEMAP_def PAGEMAP_ENTRIES_def)
    qed
  qed
qed

lemma extend_loop_ok:
  assumes "pager_ok pager"
  obtains p where "extend_loop pgsz f pager = Some (Inr p)" "pager_ok p" "f < dp_size p" "dp_size pager \<le> dp_size p"
    "cur_partition p = cur_partition pager" "entry (dmap p) = entry (dmap pager)"
proof (cases "f < dp_size pager")
  case True
  then show ?thesis using assms by (intro that [of pager]) (simp_all add: extend_loop.simps)
next
  case False
  then have "dp_size pager < f + 1" by simp
  from pager_extend_ok [OF assms this] obtain p where p: "pager_extend pgsz pager (f + 1) = Inr p"
    "pager_ok p" "f + 1 \<le> dp_size p" "cur_partition p = cur_partition pager" "entry (dmap p) = entry (dmap pager)"
    by blast
  have "extend_loop pgsz f p = Some (Inr p)" using p(3) by (simp add: extend_loop.simps)
  with p False show ?thesis by (intro that [of p]) (simp_all add: extend_loop.simps [of _ _ pager])
qed


section \<open>Finding a block for a page\<close>

definition index_ok :: "partitions \<Rightarrow> u8 \<Rightarrow> bool" where
  "index_ok ps i \<longleftrightarrow> no_partition i \<or> unat i < length ps"

text \<open>The free blocks of partitions that are not being removed.\<close>

definition usable :: "partitions \<Rightarrow> (nat \<times> nat) set" where
  "usable ps = {(i, k) \<in> space ps. \<not> going_away (the (ps ! i))}"

lemma choose_partition_cases:
  assumes "parts_ok ps"
  shows "(choose_partition pgsz ps bytes cur = P_INDEX_INVALID \<and>
       (\<forall>i p. i < length ps \<and> i \<noteq> unat cur \<and> ps ! i = Some p \<and> \<not> going_away p \<longrightarrow> ptoa pgsz (pt_free p) < bytes)) \<or>
     (\<exists>i p. choose_partition pgsz ps bytes cur = of_nat i \<and> i < length ps \<and> i < 255 \<and> ps ! i = Some p \<and>
       \<not> going_away p \<and> bytes \<le> ptoa pgsz (pt_free p) \<and> i \<noteq> unat cur)"
proof -
  let ?P = "\<lambda>i. i \<noteq> unat cur \<and> (case ps ! i of None \<Rightarrow> False
               | Some p \<Rightarrow> \<not> going_away p \<and> ptoa pgsz (pt_free p) \<ge> bytes)"
  show ?thesis
  proof (cases "first_idx ?P [0..<length ps]")
    case None
    then have "choose_partition pgsz ps bytes cur = P_INDEX_INVALID" by (simp only: choose_partition_def option.case)
    moreover have "\<forall>i < length ps. \<not> ?P i" using None by simp
    ultimately show ?thesis by (fastforce simp: not_le)
  next
    case (Some i)
    then have "choose_partition pgsz ps bytes cur = of_nat i" by (simp only: choose_partition_def option.case)
    moreover from first_idx_SomeD [OF Some] have "i < length ps" "?P i" by auto
    moreover have "i < 255" using \<open>i < length ps\<close> assms by (simp add: parts_ok_def)
    ultimately show ?thesis by (auto split: option.splits)
  qed
qed

lemma of_nat_index: "i < 255 \<Longrightarrow> unat (of_nat i :: u8) = i \<and> \<not> no_partition (of_nat i)"
proof -
  assume i: "i < 255"
  then have u: "unat (of_nat i :: u8) = i" by (simp add: u8_less)
  moreover have "unat P_INDEX_INVALID = 255" by (simp add: P_INDEX_INVALID_def)
  ultimately have "(of_nat i :: u8) \<noteq> P_INDEX_INVALID" using i by (metis nat_neq_iff)
  with u show ?thesis by (simp add: no_partition_def)
qed

lemma choose_partition_index: "parts_ok ps \<Longrightarrow> index_ok ps (choose_partition pgsz ps bytes cur)"
  using choose_partition_cases [of ps pgsz bytes cur] of_nat_index
  by (auto simp: index_ok_def no_partition_def)

lemma part_room: "part_ok p \<Longrightarrow> 0 < pt_free p \<Longrightarrow> free_pages p \<noteq> {}"
  by (auto simp: part_ok_def)

lemma room_for_page_ok:
  assumes ok: "parts_ok ps" and i: "index_ok ps cur" and pg: "0 < pgsz"
  shows "case room_for_page pgsz ps cur of
      Inl e \<Rightarrow> False
    | Inr (None, c, ps') \<Rightarrow> ps' = ps \<and> index_ok ps c \<and> usable ps = {}
    | Inr (Some k, c, ps') \<Rightarrow> \<not> no_partition c \<and> (unat c, k) \<in> space ps \<and>
        space ps' = space ps - {(unat c, k)} \<and> parts_ok ps' \<and> shape ps' = shape ps"
proof -
  note first = pager_alloc_page_ok [OF ok i [unfolded index_ok_def]]
  show ?thesis
  proof (cases "pager_alloc_page ps cur")
    case (Inl e)
    with first show ?thesis by simp
  next
    case (Inr r)
    then obtain o1 ps1 where r: "pager_alloc_page ps cur = Inr (o1, ps1)" by (cases r) auto
    show ?thesis
    proof (cases o1)
      case (Some k)
      with r first show ?thesis by (simp add: room_for_page_def)
    next
      case None
      then have ps1: "ps1 = ps" and cur: "no_partition cur \<or> ps ! unat cur = None \<or>
          going_away (the (ps ! unat cur)) \<or> free_pages (the (ps ! unat cur)) = {}"
        using first r by simp_all
      let ?c = "choose_partition pgsz ps (ptoa pgsz 1) cur"
      from choose_partition_cases [OF ok, of pgsz "ptoa pgsz 1" cur] show ?thesis
      proof (elim disjE conjE exE)
        assume c: "?c = P_INDEX_INVALID" and none: "\<forall>i p. i < length ps \<and> i \<noteq> unat cur \<and> ps ! i = Some p \<and>
          \<not> going_away p \<longrightarrow> ptoa pgsz (pt_free p) < ptoa pgsz 1"
        have "False" if "(i, k) \<in> usable ps" for i k
        proof -
          from that obtain p where p: "i < length ps" "ps ! i = Some p" "k \<in> free_pages p" "\<not> going_away p"
            by (auto simp: usable_def space_def)
          then have "0 < pt_free p" using ok by (auto simp: parts_ok_def part_ok_def card_gt_0_iff)
          moreover have "ptoa pgsz (pt_free p) < ptoa pgsz 1" if "i \<noteq> unat cur" using none p that by blast
          ultimately have "i = unat cur" using pg by (auto simp: ptoa_def)
          moreover have "\<not> no_partition cur"
            using p(1) ok \<open>i = unat cur\<close> by (auto simp: no_partition_def P_INDEX_INVALID_def parts_ok_def)
          ultimately show False using cur p by auto
        qed
        then have "usable ps = {}" by auto
        with r None ps1 c i show ?thesis by (simp add: room_for_page_def Let_def no_partition_def)
      next
        fix j p
        assume c: "?c = of_nat j" and j: "j < length ps" "j < 255" "ps ! j = Some p" "\<not> going_away p"
          "ptoa pgsz 1 \<le> ptoa pgsz (pt_free p)"
        have u: "unat ?c = j" "\<not> no_partition ?c" using of_nat_index [OF j(2)] c by simp_all
        have "0 < pt_free p" using j(5) pg by (auto simp: ptoa_def intro: Nat.gr0I)
        then have fp: "free_pages p \<noteq> {}" using ok j(1,3) part_room by (auto simp: parts_ok_def)
        have "no_partition ?c \<or> unat ?c < length ps" using u j(1) by simp
        from pager_alloc_page_ok [OF ok this] obtain k ps2 where
          "pager_alloc_page ps ?c = Inr (Some k, ps2)" "(unat ?c, k) \<in> space ps"
          "space ps2 = space ps - {(unat ?c, k)}" "parts_ok ps2" "shape ps2 = shape ps"
          using u j(3,4) fp by (auto split: sum.splits option.splits)
        with r None ps1 u show ?thesis by (simp add: room_for_page_def Let_def)
      qed
    qed
  qed
qed

lemma late_partition_ok:
  assumes "parts_ok ps" "index_ok ps (cur_partition pager)" "0 < pgsz"
  shows "index_ok ps (late_partition pgsz ps pager f)"
    "no_partition (late_partition pgsz ps pager f) \<Longrightarrow> usable ps = {}"
    "\<not> no_partition (cur_partition pager) \<Longrightarrow> late_partition pgsz ps pager f = cur_partition pager"
proof -
  show "index_ok ps (late_partition pgsz ps pager f)"
    using choose_partition_index [OF assms(1)] assms(2) by (simp add: late_partition_def Let_def)
  show "\<not> no_partition (cur_partition pager) \<Longrightarrow> late_partition pgsz ps pager f = cur_partition pager"
    by (simp add: late_partition_def)
  assume "no_partition (late_partition pgsz ps pager f)"
  then have n: "choose_partition pgsz ps (ptoa pgsz 1) P_INDEX_INVALID = P_INDEX_INVALID"
    by (auto simp: late_partition_def Let_def no_partition_def split: if_splits)
  have "False" if "(i, k) \<in> usable ps" for i k
  proof -
    from that obtain p where p: "i < length ps" "ps ! i = Some p" "k \<in> free_pages p" "\<not> going_away p"
      by (auto simp: usable_def space_def)
    then have "0 < pt_free p" using assms(1) by (auto simp: parts_ok_def part_ok_def card_gt_0_iff)
    moreover have "i \<noteq> unat P_INDEX_INVALID" using p(1) assms(1) by (auto simp: P_INDEX_INVALID_def parts_ok_def)
    ultimately show False
      using choose_partition_cases [OF assms(1), of pgsz "ptoa pgsz 1" P_INDEX_INVALID] n p assms(3)
      by (auto simp: ptoa_def no_partition_def dest: of_nat_index)
  qed
  then show "usable ps = {}" by auto
qed

section \<open>Properties\<close>



lemma fold_page_entry:
  "fold (page_entry k off) es (a, pages) =
     (a + length (filter (\<lambda>e. \<not> no_block e) es),
      pages @ replicate (min (length (filter (\<lambda>e. \<not> no_block e) es)) (k - a)) off)"
proof (induction es arbitrary: a pages)
  case Nil
  then show ?case by simp
next
  case (Cons e es)
  then show ?case
    by (cases "k - a") (auto simp: page_entry_def replicate_append_same [symmetric] diff_Suc split: nat.split)
qed

text \<open>
  For an object with a direct map, \<open>pager_pages\<close> counts the allocated pages, but
  the offset that it stores for each of them is 0, whichever pages are allocated: the offset is
  advanced after the loop instead of in it.
\<close>

theorem pager_pages_direct:
  "pager_pages pgsz \<lparr>dmap = Direct es, dp_size = n, cur_partition = c\<rparr> numpages =
     (let m = length (filter (\<lambda>e. \<not> no_block e) es) in (m, replicate (min m numpages) 0))"
  by (simp add: pager_pages_def fold_page_entry Let_def)

end
