(* ===== verification/PagerStore.thy ===== *)
theory PagerStore
  imports PagerMap
begin

text \<open>
  The default pager as a store of pages: a set of paging objects that share the partitions and
  never a block, and the reads and writes on them.
\<close>

section \<open>Writing an offset\<close>

definition key :: "dp_block \<Rightarrow> nat \<times> nat" where
  "key b = (unat (p_index b), p_offset b)"

text \<open>The effect of \<open>pager_write_offset\<close>: no block (and then none was to be had), the block that the
  page already has, or a block that was free and no longer is; no other page changes.\<close>

definition write_result ::
  "nat \<Rightarrow> partitions \<Rightarrow> dpager \<Rightarrow> nat \<Rightarrow> dp_block \<Rightarrow> partitions \<Rightarrow> dpager \<Rightarrow> bool" where
  "write_result pgsz ps pager offset b ps' pager' \<longleftrightarrow>
     parts_ok ps' \<and> pager_ok pager' \<and> index_ok ps' (cur_partition pager') \<and> shape ps' = shape ps \<and>
     dp_size pager \<le> dp_size pager' \<and>
     (if b = NO_BLOCK then usable ps = {} \<and> ps' = ps \<and> entry (dmap pager') = entry (dmap pager)
      else atop pgsz offset < dp_size pager' \<and>
        entry (dmap pager') = (entry (dmap pager))(atop pgsz offset := b) \<and>
        (b = entry (dmap pager) (atop pgsz offset) \<and> ps' = ps \<or>
         entry (dmap pager) (atop pgsz offset) = NO_BLOCK \<and> key b \<in> space ps \<and> space ps' = space ps - {key b}))"

lemma pager_write_offset_ok:
  assumes ok: "parts_ok ps" "pager_ok pager" "index_ok ps (cur_partition pager)" and pg: "0 < pgsz"
  shows "\<exists>b ps' pager'. pager_write_offset pgsz True ps pager offset = Inr (b, ps', pager') \<and>
     write_result pgsz ps pager offset b ps' pager'"
proof -
  let ?f = "atop pgsz offset" and ?part = "late_partition pgsz ps pager (atop pgsz offset)"
  note late = late_partition_ok [OF ok(1,3) pg, of ?f]
  show ?thesis
  proof (cases "no_partition ?part")
    case True
    then have "pager_write_offset pgsz True ps pager offset = Inr (NO_BLOCK, ps, pager)"
      by (simp add: pager_write_offset_def Let_def)
    with late(2) [OF True] ok show ?thesis by (intro exI [of _ NO_BLOCK] exI [of _ ps] exI [of _ pager]) (simp add: write_result_def)
  next
    case False
    have "pager_ok (pager\<lparr>cur_partition := ?part\<rparr>)" using ok(2) by (simp add: pager_ok_def)
    from extend_loop_ok [OF this, of pgsz ?f] obtain p1 where
      e: "extend_loop pgsz ?f (pager\<lparr>cur_partition := ?part\<rparr>) = Some (Inr p1)" "pager_ok p1" "?f < dp_size p1"
        "cur_partition p1 = ?part" "entry (dmap p1) = entry (dmap pager)" "dp_size pager \<le> dp_size p1" by auto
    from second_level_ok [OF e(2) [unfolded pager_ok_def] e(3)] obtain m where
      m: "second_level True (dmap p1) ?f = Inr m" "map_ok m (dp_size p1)" "entry m = entry (dmap p1)"
        "\<And>ms. m = Indirect ms \<Longrightarrow> ms ! (?f div 64) \<noteq> None" by blast
    have me: "map_entry m ?f = Inr (entry (dmap pager) ?f)" using map_entry_eq [OF m(2) e(3)] m(3) e(5) by simp
    let ?p2 = "p1\<lparr>dmap := m\<rparr>"
    have p2: "pager_ok ?p2" "entry (dmap ?p2) = entry (dmap pager)" using m(2,3) e(5) by (simp_all add: pager_ok_def)
    show ?thesis
    proof (cases "entry (dmap pager) ?f = NO_BLOCK")
      case mapped: False
      then have "pager_write_offset pgsz True ps pager offset = Inr (entry (dmap pager) ?f, ps, ?p2)"
        using False e(1) m(1) me by (simp add: pager_write_offset_def Let_def no_block_def)
      with p2 e(3,4,6) ok late(1) mapped show ?thesis
        by (intro exI [of _ "entry (dmap pager) ?f"] exI [of _ ps] exI [of _ ?p2]) (simp add: write_result_def)
    next
      case unmapped: True
      note room = room_for_page_ok [OF ok(1) late(1) pg]
      show ?thesis
      proof (cases "room_for_page pgsz ps ?part")
        case (Inl x)
        with room show ?thesis by simp
      next
        case (Inr r)
        obtain o1 c ps1 where r: "room_for_page pgsz ps ?part = Inr (o1, c, ps1)" using Inr by (cases r) auto
        show ?thesis
        proof (cases o1)
          case None
          then have "pager_write_offset pgsz True ps pager offset = Inr (NO_BLOCK, ps1, ?p2\<lparr>cur_partition := c\<rparr>)"
            using False e(1) m(1) me unmapped r by (simp add: pager_write_offset_def Let_def no_block_def)
          moreover have "ps1 = ps" "index_ok ps c" "usable ps = {}" using room r None by simp_all
          ultimately show ?thesis using p2 ok(1) e(6)
            by (intro exI [of _ NO_BLOCK] exI [of _ ps1] exI [of _ "?p2\<lparr>cur_partition := c\<rparr>"]) (simp add: write_result_def pager_ok_def)
        next
          case (Some k)
          then have k: "\<not> no_partition c" "(unat c, k) \<in> space ps" "space ps1 = space ps - {(unat c, k)}"
            "parts_ok ps1" "shape ps1 = shape ps" using room r by simp_all
          let ?b = "\<lparr>p_offset = k mod 2 ^ 24, p_index = c\<rparr>"
          have "k < 2 ^ 24" using k(2) ok(1) by (auto simp: space_def free_pages_def parts_ok_def part_ok_def)
          then have kb: "key ?b = (unat c, k)" by (simp add: key_def)
          have nb: "?b \<noteq> NO_BLOCK" using k(1) by (simp add: NO_BLOCK_def no_partition_def P_INDEX_INVALID_def)
          from set_map_entry_ok [OF m(2) e(3) m(4), of ?b] obtain m' where
            m': "set_map_entry m ?f ?b = Inr m'" "map_ok m' (dp_size p1)" "entry m' = (entry m)(?f := ?b)" by blast
          let ?p3 = "?p2\<lparr>cur_partition := c, dmap := m'\<rparr>"
          have run: "pager_write_offset pgsz True ps pager offset = Inr (?b, ps1, ?p3)"
            using False e(1) m(1) me unmapped r Some m'(1) by (simp add: pager_write_offset_def Let_def no_block_def)
          have len: "length ps1 = length ps" using shape_length [OF k(5)] .
          have "index_ok ps1 c" using k(2) len by (simp add: index_ok_def space_def)
          moreover have "pager_ok ?p3" using m'(2) by (simp add: pager_ok_def)
          moreover have "entry (dmap ?p3) = (entry (dmap pager))(?f := ?b)" using m'(3) m(3) e(5) by simp
          ultimately show ?thesis using run k(2-5) kb nb unmapped e(3,6)
            by (intro exI [of _ ?b] exI [of _ ps1] exI [of _ ?p3]) (simp add: write_result_def)
        qed
      qed
    qed
  qed
qed

lemma pager_write_offset_D:
  assumes "parts_ok ps" "pager_ok pager" "index_ok ps (cur_partition pager)" "0 < pgsz"
    and w: "pager_write_offset pgsz True ps pager offset = Inr (b, ps', pager')"
  shows "write_result pgsz ps pager offset b ps' pager'"
  using pager_write_offset_ok [OF assms(1-4), of offset] w by auto

section \<open>Objects that share the partitions\<close>

text \<open>The mapped pages of a list of objects and their blocks.\<close>

definition mapped :: "dpager list \<Rightarrow> (nat \<times> nat) set" where
  "mapped ds = {(d, f). d < length ds \<and> entry (dmap (ds ! d)) f \<noteq> NO_BLOCK}"

definition block_at :: "dpager list \<Rightarrow> nat \<times> nat \<Rightarrow> nat \<times> nat" where
  "block_at ds x = key (entry (dmap (ds ! fst x)) (snd x))"

definition pager_sys_ok :: "partitions \<Rightarrow> dpager list \<Rightarrow> bool" where
  "pager_sys_ok ps ds \<longleftrightarrow> parts_ok ps \<and>
     (\<forall>d \<in> set ds. pager_ok d \<and> index_ok ps (cur_partition d)) \<and>
     inj_on (block_at ds) (mapped ds) \<and> block_at ds ` mapped ds \<inter> space ps = {} \<and>
     (\<forall>x \<in> mapped ds. valid_block ps (block_at ds x))"

lemma index_ok_shape: "shape ps = shape ps' \<Longrightarrow> index_ok ps i = index_ok ps' i"
  using shape_length [of ps ps'] by (simp add: index_ok_def)

lemma pager_sys_ok_write:
  assumes ok: "pager_sys_ok ps ds" and d: "d < length ds" and pg: "0 < pgsz"
    and w: "pager_write_offset pgsz True ps (ds ! d) offset = Inr (b, ps', pager')"
  shows "pager_sys_ok ps' (ds[d := pager'])"
proof -
  let ?ds = "ds[d := pager']" and ?f = "atop pgsz offset"
  have o: "parts_ok ps" "pager_ok (ds ! d)" "index_ok ps (cur_partition (ds ! d))"
    and inj: "inj_on (block_at ds) (mapped ds)" and disj: "block_at ds ` mapped ds \<inter> space ps = {}"
    and val: "\<forall>x \<in> mapped ds. valid_block ps (block_at ds x)"
    using ok d by (simp_all add: pager_sys_ok_def)
  note wr = pager_write_offset_D [OF o pg w]
  then have r: "parts_ok ps'" "pager_ok pager'" "index_ok ps' (cur_partition pager')" "shape ps' = shape ps"
    by (simp_all add: write_result_def)
  have pagers: "\<forall>p \<in> set ?ds. pager_ok p \<and> index_ok ps' (cur_partition p)"
    using ok r(2,3) index_ok_shape [OF r(4)] set_update_subset_insert [of ds d pager']
    by (auto simp: pager_sys_ok_def)
  show ?thesis
  proof (cases "ps' = ps \<and> entry (dmap pager') = entry (dmap (ds ! d))")
    case True
    then have e: "entry (dmap (?ds ! i)) = entry (dmap (ds ! i))" if "i < length ds" for i
      using that by (cases "i = d") simp_all
    then have "mapped ?ds = mapped ds" by (auto simp: mapped_def)
    moreover have "block_at ?ds x = block_at ds x" if "x \<in> mapped ds" for x
      using that e by (auto simp: block_at_def mapped_def)
    ultimately show ?thesis
      using True inj disj val r(1) pagers unfolding pager_sys_ok_def
      by (metis (no_types, lifting) image_cong inj_on_cong)
  next
    case False
    then have new: "b \<noteq> NO_BLOCK" "entry (dmap pager') = (entry (dmap (ds ! d)))(?f := b)"
      "entry (dmap (ds ! d)) ?f = NO_BLOCK" "key b \<in> space ps" "space ps' = space ps - {key b}"
      using wr by (auto simp: write_result_def split: if_splits)
    have e: "entry (dmap (?ds ! i)) g = (if (i, g) = (d, ?f) then b else entry (dmap (ds ! i)) g)"
      if "i < length ds" for i g using that new(2) by (cases "i = d") auto
    have m: "mapped ?ds = insert (d, ?f) (mapped ds)"
      using e new(1,2) d by (auto simp: mapped_def split: if_splits)
    have notin: "(d, ?f) \<notin> mapped ds" using new(3) by (simp add: mapped_def)
    have old: "block_at ?ds x = block_at ds x" if "x \<in> mapped ds" for x
    proof -
      have "x \<noteq> (d, ?f)" using that notin by blast
      with that e show ?thesis by (cases x) (auto simp: block_at_def mapped_def)
    qed
    have this_one: "block_at ?ds (d, ?f) = key b" using new(2) d by (simp add: block_at_def)
    have img: "block_at ?ds ` mapped ds = block_at ds ` mapped ds" using old by (intro image_cong) simp_all
    have "inj_on (block_at ?ds) (mapped ds)" using inj old by (simp cong: inj_on_cong)
    moreover have "key b \<notin> block_at ?ds ` mapped ds" using disj new(4) unfolding img by blast
    ultimately have "inj_on (block_at ?ds) (mapped ?ds)" unfolding m using this_one by auto
    moreover have "block_at ?ds ` mapped ?ds \<inter> space ps' = {}"
      unfolding m image_insert this_one img new(5) using disj by blast
    moreover have "valid_block ps (key b)"
      using new(4) by (auto simp: space_def valid_block_def free_pages_def key_def)
    then have "\<forall>x \<in> mapped ?ds. valid_block ps' (block_at ?ds x)"
      unfolding m using val old this_one valid_block_shape [OF r(4)] by simp
    ultimately show ?thesis using r(1) pagers by (simp add: pager_sys_ok_def)
  qed
qed


section \<open>Data\<close>

text \<open>
  The contract of a disk under the partitions, for whole pages: a read that succeeds gives the
  whole page, a write of a page succeeds, the page can be read back, and pages at other places
  keep their contents.
\<close>

definition disk_ok ::
  "nat \<Rightarrow> (nat \<Rightarrow> nat \<Rightarrow> nat \<Rightarrow> 'w \<Rightarrow> u8 list option) \<Rightarrow> (nat \<Rightarrow> nat \<Rightarrow> u8 list \<Rightarrow> 'w \<Rightarrow> (nat \<times> 'w) option) \<Rightarrow> bool" where
  "disk_ok pgsz rd wr \<longleftrightarrow>
     (\<forall>w i k bs. rd i (ptoa pgsz k) pgsz w = Some bs \<longrightarrow> length bs = pgsz) \<and>
     (\<forall>w i k bs. length bs = pgsz \<longrightarrow>
        (\<exists>w'. wr i (ptoa pgsz k) bs w = Some (pgsz, w') \<and> rd i (ptoa pgsz k) pgsz w' = Some bs \<and>
           (\<forall>j l. (j, l) \<noteq> (i, k) \<longrightarrow> rd j (ptoa pgsz l) pgsz w' = rd j (ptoa pgsz l) pgsz w)))"

lemma write_loop_page:
  assumes "disk_ok pgsz rd wr" "length bs = pgsz"
  obtains w' where "write_loop wr i (ptoa pgsz k) bs w = Some (Inr (PAGER_SUCCESS, w'))"
    "rd i (ptoa pgsz k) pgsz w' = Some bs"
    "\<And>j l. (j, l) \<noteq> (i, k) \<Longrightarrow> rd j (ptoa pgsz l) pgsz w' = rd j (ptoa pgsz l) pgsz w"
proof -
  note law = conjunct2 [OF assms(1) [unfolded disk_ok_def], rule_format, OF assms(2)]
  obtain w' where w': "wr i (ptoa pgsz k) bs w = Some (pgsz, w')"
    "rd i (ptoa pgsz k) pgsz w' = Some bs"
    "\<forall>j l. (j, l) \<noteq> (i, k) \<longrightarrow> rd j (ptoa pgsz l) pgsz w' = rd j (ptoa pgsz l) pgsz w"
    using law [of i k w] by blast
  have "write_loop wr i (ptoa pgsz k) bs w = Some (Inr (PAGER_SUCCESS, w'))"
    using w'(1) assms(2) by (simp add: write_loop.simps)
  with w'(2,3) show thesis by (intro that [of w']) simp_all
qed

lemma default_read_eq:
  assumes "parts_ok ps" "pager_ok ds" "atop pgsz offset < dp_size ds"
    "entry (dmap ds) (atop pgsz offset) = b" "b \<noteq> NO_BLOCK \<Longrightarrow> valid_block ps (key b)"
  shows "default_read pgsz rd w ps ds n offset False =
     (if b = NO_BLOCK then Inr (PAGER_ABSENT, [], ps, ds)
      else case read_loop rd w (fst (key b)) (ptoa pgsz (snd (key b))) n [] of
         None \<Rightarrow> Inl Blocked
       | Some (Inl e) \<Rightarrow> Inl e
       | Some (Inr (PAGER_SUCCESS, bs)) \<Rightarrow> Inr (PAGER_SUCCESS, bs, ps, ds)
       | Some (Inr (st, bs)) \<Rightarrow> Inr (PAGER_ERROR, bs, ps, ds))"
proof -
  have r: "pager_read_offset pgsz ds offset = Inr b"
    using assms(2-4) map_entry_eq [of "dmap ds" "dp_size ds"]
    by (simp add: pager_read_offset_def pager_ok_def Let_def)
  show ?thesis
  proof (cases "b = NO_BLOCK")
    case True
    with r show ?thesis by (simp add: default_read_def no_block_def)
  next
    case False
    from assms(5) [OF this] obtain p where "unat (p_index b) < length ps" "ps ! unat (p_index b) = Some p"
      by (auto simp: valid_block_def key_def)
    with r False show ?thesis
      by (simp add: default_read_def no_block_def partition_of_def key_def split: option.splits sum.splits pager_status.splits)
  qed
qed

lemma read_loop_page:
  "rd i a n w = Some bs \<Longrightarrow> length bs = n \<Longrightarrow> read_loop rd w i a n [] = Some (Inr (PAGER_SUCCESS, bs))"
  by (simp add: read_loop.simps)

text \<open>What a read of a page gives, apart from the unchanged state.\<close>

definition page_data ::
  "nat \<Rightarrow> (nat \<Rightarrow> nat \<Rightarrow> nat \<Rightarrow> 'w \<Rightarrow> u8 list option) \<Rightarrow> 'w \<Rightarrow> partitions \<Rightarrow> dpager \<Rightarrow> nat \<Rightarrow>
     (pager_status \<times> u8 list) outcome" where
  "page_data pgsz rd w ps ds offset =
     map_sum id (\<lambda>(st, bs, _). (st, bs)) (default_read pgsz rd w ps ds pgsz offset False)"


lemma page_data_eq:
  assumes "disk_ok pgsz rd wr" "parts_ok ps" "pager_ok ds" "atop pgsz offset < dp_size ds"
    "entry (dmap ds) (atop pgsz offset) = b" "b \<noteq> NO_BLOCK \<Longrightarrow> valid_block ps (key b)"
  shows "page_data pgsz rd w ps ds offset =
     Inr (if b = NO_BLOCK then (PAGER_ABSENT, [])
          else case rd (fst (key b)) (ptoa pgsz (snd (key b))) pgsz w of
            None \<Rightarrow> (PAGER_ERROR, []) | Some bs \<Rightarrow> (PAGER_SUCCESS, bs))"
proof (cases "rd (fst (key b)) (ptoa pgsz (snd (key b))) pgsz w")
  case None
  then show ?thesis using default_read_eq [OF assms(2-6), of rd w pgsz]
    by (simp add: page_data_def read_loop.simps)
next
  case (Some bs)
  then have "length bs = pgsz" using assms(1) unfolding disk_ok_def by blast
  with Some show ?thesis using default_read_eq [OF assms(2-6), of rd w pgsz]
    by (simp add: page_data_def read_loop_page [where bs = bs])
qed

text \<open>The page that the disk holds for a mapped page of an object.\<close>

definition stored ::
  "nat \<Rightarrow> (nat \<Rightarrow> nat \<Rightarrow> nat \<Rightarrow> 'w \<Rightarrow> u8 list option) \<Rightarrow> 'w \<Rightarrow> dpager list \<Rightarrow> nat \<times> nat \<Rightarrow> u8 list option" where
  "stored pgsz rd w ds x = rd (fst (block_at ds x)) (ptoa pgsz (snd (block_at ds x))) pgsz w"

lemma page_data_stored:
  assumes disk: "disk_ok pgsz rd wr" and sys: "pager_sys_ok ps ds"
    and e: "e < length ds" "atop pgsz g < dp_size (ds ! e)"
  shows "page_data pgsz rd w ps (ds ! e) g =
     Inr (if (e, atop pgsz g) \<notin> mapped ds then (PAGER_ABSENT, [])
          else case stored pgsz rd w ds (e, atop pgsz g) of
            None \<Rightarrow> (PAGER_ERROR, []) | Some bs \<Rightarrow> (PAGER_SUCCESS, bs))"
proof -
  have mem: "(e, atop pgsz g) \<in> mapped ds \<longleftrightarrow> entry (dmap (ds ! e)) (atop pgsz g) \<noteq> NO_BLOCK"
    using e(1) by (simp add: mapped_def)
  have "valid_block ps (block_at ds (e, atop pgsz g))" if "(e, atop pgsz g) \<in> mapped ds"
    using sys that unfolding pager_sys_ok_def by blast
  then show ?thesis
    using page_data_eq [OF disk, of ps "ds ! e" g _ w] sys e mem
    by (simp add: pager_sys_ok_def block_at_def stored_def)
qed

lemma default_write_ok:
  assumes ok: "pager_sys_ok ps ds" and d: "d < length ds" and pg: "0 < pgsz"
    and disk: "disk_ok pgsz rd wr" and bs: "length bs = pgsz"
  shows "\<exists>st w' ps' p'. default_write pgsz True wr w ps (ds ! d) bs offset = Inr (st, w', ps', p') \<and>
     pager_sys_ok ps' (ds[d := p']) \<and> dp_size (ds ! d) \<le> dp_size p' \<and>
     (st = PAGER_SUCCESS \<and> atop pgsz offset < dp_size p' \<and> page_data pgsz rd w' ps' p' offset = Inr (PAGER_SUCCESS, bs) \<or>
      st = PAGER_ERROR \<and> usable ps = {}) \<and>
     (\<forall>e g. e < length ds \<and> atop pgsz g < dp_size (ds ! e) \<and> (e, atop pgsz g) \<noteq> (d, atop pgsz offset) \<longrightarrow>
        page_data pgsz rd w' ps' (ds[d := p'] ! e) g = page_data pgsz rd w ps (ds ! e) g)"
proof -
  let ?f = "atop pgsz offset"
  have o: "parts_ok ps" "pager_ok (ds ! d)" "index_ok ps (cur_partition (ds ! d))"
    using ok d by (simp_all add: pager_sys_ok_def)
  from pager_write_offset_ok [OF o pg, of offset] obtain b ps' p' where
    run: "pager_write_offset pgsz True ps (ds ! d) offset = Inr (b, ps', p')"
    and wr: "write_result pgsz ps (ds ! d) offset b ps' p'" by blast
  note sys = pager_sys_ok_write [OF ok d pg run]
  let ?ds = "ds[d := p']"
  have entries: "entry (dmap (?ds ! e)) f = (if (e, f) = (d, ?f) \<and> b \<noteq> NO_BLOCK then b else entry (dmap (ds ! e)) f)"
    if "e < length ds" for e f
    using wr that by (cases "e = d"; cases "b = NO_BLOCK") (auto simp: write_result_def)
  have sizes: "dp_size (ds ! e) \<le> dp_size (?ds ! e)" if "e < length ds" for e
    using wr that by (cases "e = d") (simp_all add: write_result_def)
  have same: "page_data pgsz rd w' ps' (?ds ! e) g = page_data pgsz rd w ps (ds ! e) g"
    if w': "\<And>x. x \<in> mapped ?ds \<Longrightarrow> x \<noteq> (d, ?f) \<Longrightarrow> stored pgsz rd w' ?ds x = stored pgsz rd w ?ds x"
      and e: "e < length ds" "atop pgsz g < dp_size (ds ! e)" "(e, atop pgsz g) \<noteq> (d, ?f)" for w' e g
  proof -
    have en: "entry (dmap (?ds ! e)) (atop pgsz g) = entry (dmap (ds ! e)) (atop pgsz g)"
      using entries [OF e(1), of "atop pgsz g"] e(3) by auto
    then have mb: "(e, atop pgsz g) \<in> mapped ?ds \<longleftrightarrow> (e, atop pgsz g) \<in> mapped ds"
      "stored pgsz rd v ?ds (e, atop pgsz g) = stored pgsz rd v ds (e, atop pgsz g)" for v
      using e(1) by (simp_all add: mapped_def stored_def block_at_def)
    have "atop pgsz g < dp_size (?ds ! e)" using e(2) sizes [OF e(1)] by linarith
    with page_data_stored [OF disk sys, of e g w'] page_data_stored [OF disk ok e(1,2), of w] e mb
      w' [of "(e, atop pgsz g)"] show ?thesis by simp
  qed
  show ?thesis
  proof (cases "b = NO_BLOCK")
    case True
    then have "default_write pgsz True wr w ps (ds ! d) bs offset = Inr (PAGER_ERROR, w, ps', p')"
      using run by (simp add: default_write_def no_block_def)
    moreover have "usable ps = {}" using wr True by (simp add: write_result_def)
    moreover have "dp_size (ds ! d) \<le> dp_size p'" using sizes [OF d] d by simp
    ultimately show ?thesis using sys same [OF refl] by blast
  next
    case False
    have here: "entry (dmap p') ?f = b" "?f < dp_size p'" using wr False by (simp_all add: write_result_def)
    have md: "(d, ?f) \<in> mapped ?ds" "block_at ?ds (d, ?f) = key b"
      using d here False by (simp_all add: mapped_def block_at_def)
    then have vb: "valid_block ps' (key b)" using sys unfolding pager_sys_ok_def by metis
    then obtain p where p: "unat (p_index b) < length ps'" "ps' ! unat (p_index b) = Some p"
      by (auto simp: valid_block_def key_def)
    from write_loop_page [OF disk bs, of "unat (p_index b)" "p_offset b" w] obtain w' where
      w': "write_loop wr (unat (p_index b)) (ptoa pgsz (p_offset b)) bs w = Some (Inr (PAGER_SUCCESS, w'))"
        "rd (unat (p_index b)) (ptoa pgsz (p_offset b)) pgsz w' = Some bs"
        "\<And>j l. (j, l) \<noteq> (unat (p_index b), p_offset b) \<Longrightarrow> rd j (ptoa pgsz l) pgsz w' = rd j (ptoa pgsz l) pgsz w"
      by blast
    have "default_write pgsz True wr w ps (ds ! d) bs offset = Inr (PAGER_SUCCESS, w', ps', p')"
      using run False p w'(1) by (simp add: default_write_def no_block_def partition_of_def)
    moreover have "page_data pgsz rd w' ps' p' offset = Inr (PAGER_SUCCESS, bs)"
      using page_data_stored [OF disk sys, of d offset w'] d here md w'(2) by (simp add: stored_def key_def)
    moreover have "stored pgsz rd w' ?ds x = stored pgsz rd w ?ds x"
      if "x \<in> mapped ?ds" "x \<noteq> (d, ?f)" for x
    proof -
      have "block_at ?ds x \<noteq> key b"
        using sys that md unfolding pager_sys_ok_def by (metis inj_onD)
      then show ?thesis using w'(3) [of "fst (block_at ?ds x)" "snd (block_at ?ds x)"]
        by (simp add: key_def stored_def)
    qed
    moreover have "dp_size (ds ! d) \<le> dp_size p'" using sizes [OF d] d by simp
    ultimately show ?thesis using sys same [of w'] here(2) by blast
  qed
qed

section \<open>Releasing and reading\<close>

lemma pager_release_offset_ok:
  assumes sys: "pager_sys_ok ps ds" and d: "d < length ds"
    and b: "entry (dmap (ds ! d)) (atop pgsz offset) \<noteq> NO_BLOCK"
  shows "\<exists>ps' p'. pager_release_offset pgsz ps (ds ! d) offset = Inr (ps', p') \<and> pager_sys_ok ps' (ds[d := p']) \<and>
     dp_size p' = dp_size (ds ! d) \<and> entry (dmap p') = (entry (dmap (ds ! d)))(atop pgsz offset := NO_BLOCK)"
proof -
  let ?f = "atop pgsz offset" and ?p = "ds ! d"
  let ?b = "entry (dmap ?p) ?f"
  have ok: "parts_ok ps" "map_ok (dmap ?p) (dp_size ?p)" "index_ok ps (cur_partition ?p)"
    and inj: "inj_on (block_at ds) (mapped ds)" and disj: "block_at ds ` mapped ds \<inter> space ps = {}"
    and val: "\<forall>x \<in> mapped ds. valid_block ps (block_at ds x)"
    using sys d by (simp_all add: pager_sys_ok_def pager_ok_def)
  have f: "?f < dp_size ?p" using entry_beyond [OF ok(2)] b by (meson not_less)
  have "\<And>ms. dmap ?p = Indirect ms \<Longrightarrow> ms ! (?f div 64) \<noteq> None" using b by (auto simp: entry_def split: if_splits option.splits)
  from set_map_entry_ok [OF ok(2) f this, of NO_BLOCK] obtain m where
    m: "set_map_entry (dmap ?p) ?f NO_BLOCK = Inr m" "map_ok m (dp_size ?p)" "entry m = (entry (dmap ?p))(?f := NO_BLOCK)"
    by metis
  have mem: "(d, ?f) \<in> mapped ds" and at: "block_at ds (d, ?f) = key ?b" using d b by (simp_all add: mapped_def block_at_def)
  have k: "key ?b = (unat (p_index ?b), p_offset ?b)" by (simp add: key_def)
  have "valid_block ps (key ?b)" "key ?b \<notin> space ps" using val disj mem at by (metis, metis IntI empty_iff imageI)
  from pager_dealloc_page_ok [OF ok(1) this [unfolded k]] obtain ps' where
    ps': "pager_dealloc_page ps (p_index ?b) (p_offset ?b) = Inr ps'" "space ps' = insert (key ?b) (space ps)"
      "parts_ok ps'" "shape ps' = shape ps" using k by auto
  let ?q = "?p\<lparr>dmap := m\<rparr>"
  have run: "pager_release_offset pgsz ps ?p offset = Inr (ps', ?q)"
    using map_entry_eq [OF ok(2) f] m(1) ps'(1) by (simp add: pager_release_offset_def Let_def)
  have e: "entry (dmap (ds[d := ?q] ! i)) g = (if (i, g) = (d, ?f) then NO_BLOCK else entry (dmap (ds ! i)) g)"
    if "i < length ds" for i g using that m(3) by (cases "i = d") auto
  have mp: "mapped (ds[d := ?q]) = mapped ds - {(d, ?f)}" using e d m(3) by (auto simp: mapped_def split: if_splits)
  have bl: "block_at (ds[d := ?q]) x = block_at ds x" if "x \<in> mapped ds - {(d, ?f)}" for x
    using that e by (cases x) (auto simp: block_at_def mapped_def)
  have "inj_on (block_at (ds[d := ?q])) (mapped ds - {(d, ?f)})"
    by (rule inj_on_cong [THEN iffD2, OF bl inj_on_diff [OF inj]])
  moreover have "block_at (ds[d := ?q]) x \<notin> space ps'" if "x \<in> mapped ds - {(d, ?f)}" for x
  proof -
    have "block_at ds x \<noteq> key ?b" using inj that mem at by (metis DiffE inj_onD insertI1)
    with bl [OF that] ps'(2) disj that show ?thesis by auto
  qed
  then have "block_at (ds[d := ?q]) ` (mapped ds - {(d, ?f)}) \<inter> space ps' = {}" by blast
  moreover have "\<forall>x \<in> mapped ds - {(d, ?f)}. valid_block ps' (block_at (ds[d := ?q]) x)"
    using val bl valid_block_shape [OF ps'(4)] by simp
  moreover have "\<forall>p \<in> set (ds[d := ?q]). pager_ok p \<and> index_ok ps' (cur_partition p)"
    using sys m(2) d index_ok_shape [OF ps'(4)]
    by (auto simp: pager_sys_ok_def pager_ok_def all_set_conv_all_nth nth_list_update)
  ultimately have "pager_sys_ok ps' (ds[d := ?q])"
    unfolding pager_sys_ok_def mp using ps'(3) by blast
  with run m(3) show ?thesis by auto
qed

text \<open>A page keeps its data when its block and the contents of the disk stay.\<close>

lemma page_data_frame:
  assumes disk: "disk_ok pgsz rd wr" and sys: "pager_sys_ok ps ds" and sys': "pager_sys_ok ps' ds'"
    and e: "e < length ds" "e < length ds'" "atop pgsz g < dp_size (ds ! e)" "dp_size (ds ! e) \<le> dp_size (ds' ! e)"
    and same: "entry (dmap (ds' ! e)) (atop pgsz g) = entry (dmap (ds ! e)) (atop pgsz g)"
  shows "page_data pgsz rd w ps' (ds' ! e) g = page_data pgsz rd w ps (ds ! e) g"
proof -
  have "(e, atop pgsz g) \<in> mapped ds' \<longleftrightarrow> (e, atop pgsz g) \<in> mapped ds"
    "stored pgsz rd w ds' (e, atop pgsz g) = stored pgsz rd w ds (e, atop pgsz g)"
    using same e(1,2) by (simp_all add: mapped_def stored_def block_at_def)
  with page_data_stored [OF disk sys e(1,3), of w] page_data_stored [OF disk sys' e(2), of g w] e(3,4)
  show ?thesis by simp
qed

lemma default_read_ok:
  assumes disk: "disk_ok pgsz rd wr" and sys: "pager_sys_ok ps ds" and e: "d < length ds" "atop pgsz offset < dp_size (ds ! d)"
  shows "\<exists>st bs ps' p'. default_read pgsz rd w ps (ds ! d) pgsz offset dealloc = Inr (st, bs, ps', p') \<and>
     page_data pgsz rd w ps (ds ! d) offset = Inr (st, bs) \<and> pager_sys_ok ps' (ds[d := p']) \<and> dp_size p' = dp_size (ds ! d) \<and>
     (\<forall>g. (dealloc \<longrightarrow> atop pgsz g \<noteq> atop pgsz offset) \<and> atop pgsz g < dp_size (ds ! d) \<longrightarrow>
        page_data pgsz rd w ps' p' g = page_data pgsz rd w ps (ds ! d) g)"
proof -
  let ?p = "ds ! d" and ?b = "entry (dmap (ds ! d)) (atop pgsz offset)"
  have o: "parts_ok ps" "pager_ok ?p" using sys e(1) by (simp_all add: pager_sys_ok_def)
  have vb: "?b \<noteq> NO_BLOCK \<Longrightarrow> valid_block ps (key ?b)"
    using sys e(1) unfolding pager_sys_ok_def by (force simp: mapped_def block_at_def)
  note eq = default_read_eq [OF o e(2) refl vb, of rd w pgsz] and pd = page_data_eq [OF disk o e(2) refl vb, of w]
  show ?thesis
  proof (cases "dealloc \<and> (\<exists>bs. page_data pgsz rd w ps ?p offset = Inr (PAGER_SUCCESS, bs))")
    case False
    have "\<exists>st bs. default_read pgsz rd w ps ?p pgsz offset False = Inr (st, bs, ps, ?p) \<and>
        page_data pgsz rd w ps ?p offset = Inr (st, bs)"
    proof (cases "?b = NO_BLOCK \<or> rd (fst (key ?b)) (ptoa pgsz (snd (key ?b))) pgsz w = None")
      case True
      with eq pd show ?thesis by (auto simp: read_loop.simps)
    next
      case no: False
      then obtain bs where bs: "rd (fst (key ?b)) (ptoa pgsz (snd (key ?b))) pgsz w = Some bs" by auto
      then have "length bs = pgsz" using disk unfolding disk_ok_def by blast
      with bs no eq pd show ?thesis by (simp add: read_loop_page [where bs = bs])
    qed
    then obtain st bs where r: "default_read pgsz rd w ps ?p pgsz offset False = Inr (st, bs, ps, ?p)"
      "page_data pgsz rd w ps ?p offset = Inr (st, bs)" by blast
    have "default_read pgsz rd w ps ?p pgsz offset dealloc = default_read pgsz rd w ps ?p pgsz offset False"
      using False r by (auto simp: default_read_def page_data_def split: sum.splits option.splits pager_status.splits if_splits)
    with r sys show ?thesis by (auto intro!: exI)
  next
    case True
    then obtain bs where r: "dealloc" "page_data pgsz rd w ps ?p offset = Inr (PAGER_SUCCESS, bs)" by auto
    then have nb: "?b \<noteq> NO_BLOCK" using pd by auto
    from pager_release_offset_ok [OF sys e(1) nb] obtain ps' p' where
      rel: "pager_release_offset pgsz ps ?p offset = Inr (ps', p')" "pager_sys_ok ps' (ds[d := p'])"
        "dp_size p' = dp_size ?p" "entry (dmap p') = (entry (dmap ?p))(atop pgsz offset := NO_BLOCK)" by auto
    have "default_read pgsz rd w ps ?p pgsz offset True = Inr (PAGER_SUCCESS, bs, ps', p')"
      using r(2) rel(1) by (auto simp: default_read_def page_data_def split: sum.splits option.splits pager_status.splits if_splits)
    moreover have "page_data pgsz rd w ps' p' g = page_data pgsz rd w ps ?p g"
      if "atop pgsz g \<noteq> atop pgsz offset" "atop pgsz g < dp_size ?p" for g
      using page_data_frame [OF disk sys rel(2) e(1) _ that(2), of w] that(1) rel(3,4) e(1) by simp
    ultimately show ?thesis using r rel(2,3) by auto
  qed
qed

section \<open>Properties\<close>


text \<open>A disk of pages under one partition of four pages, and an object of four pages on it.\<close>

definition demo_rd :: "nat \<Rightarrow> nat \<Rightarrow> nat \<Rightarrow> (nat \<times> nat \<Rightarrow> u8 list) \<Rightarrow> u8 list option" where
  "demo_rd i a n w = (if length (w (i, a)) = n then Some (w (i, a)) else None)"

definition demo_wr :: "nat \<Rightarrow> nat \<Rightarrow> u8 list \<Rightarrow> (nat \<times> nat \<Rightarrow> u8 list) \<Rightarrow> (nat \<times> (nat \<times> nat \<Rightarrow> u8 list)) option" where
  "demo_wr i a bs w = Some (length bs, w((i, a) := bs))"

lemma demo_disk_ok: "0 < pgsz \<Longrightarrow> disk_ok pgsz demo_rd demo_wr"
  by (auto simp: disk_ok_def demo_rd_def demo_wr_def ptoa_def)

definition demo_part :: part where
  "demo_part = \<lparr>total_size = 4, pt_free = 4, pt_id = 0, bitmap = [0], going_away = False\<rparr>"

definition demo_pager :: dpager where
  "demo_pager = \<lparr>dmap = Direct (replicate 4 NO_BLOCK), dp_size = 4, cur_partition = 0\<rparr>"

lemma demo_part_ok: "part_ok demo_part" "free_pages demo_part = {..<4}"
proof -
  show f: "free_pages demo_part = {..<4}"
    by (auto simp: free_pages_def page_used_def demo_part_def)
  show "part_ok demo_part" unfolding part_ok_def f by (simp add: demo_part_def howmany_def NB_BM_def)
qed

lemma demo_mapped: "entry (dmap demo_pager) f = NO_BLOCK"
  by (simp add: entry_def demo_pager_def)

lemma demo_sys_ok:
  assumes "ps \<noteq> []" "length ps \<le> 255" "set ps \<subseteq> {Some demo_part}"
  shows "pager_sys_ok ps [demo_pager]"
proof -
  have "mapped [demo_pager] = {}" using demo_mapped by (auto simp: mapped_def)
  moreover have "parts_ok ps" using assms(2,3) demo_part_ok(1) nth_mem by (fastforce simp: parts_ok_def)
  moreover have "pager_ok demo_pager" by (auto simp: pager_ok_def map_ok_def demo_pager_def intro: exI [of _ 2])
  moreover have "index_ok ps (cur_partition demo_pager)" using assms(1) by (simp add: index_ok_def demo_pager_def)
  ultimately show ?thesis by (simp add: pager_sys_ok_def)
qed


end
