(* ===== verification/PagerMove.thy ===== *)
theory PagerMove
  imports PagerStore
begin

text \<open>
  Removal of a paging partition: the pages that the objects have there are moved to other
  partitions (\<open>pager_move_page\<close>, \<open>pager_realloc\<close>), and the slot of the partition is cleared when
  all could be moved. The queue of paging objects is a list; the retry after a failed
  \<^verbatim>\<open>mutex_try_lock\<close> has no counterpart, since operations run one at a time.
\<close>

section \<open>Moving pages\<close>

definition pager_move_page ::
  "nat \<Rightarrow> (nat \<Rightarrow> nat \<Rightarrow> nat \<Rightarrow> 'w \<Rightarrow> u8 list option) \<Rightarrow> (nat \<Rightarrow> nat \<Rightarrow> u8 list \<Rightarrow> 'w \<Rightarrow> (nat \<times> 'w) option) \<Rightarrow>
     'w \<Rightarrow> partitions \<Rightarrow> dp_block \<Rightarrow> (dp_block \<times> 'w \<times> partitions) outcome" where
  "pager_move_page pgsz rd wr w ps b =
     (let old = p_index b; new = choose_partition pgsz ps (ptoa pgsz 1) old in
      if no_partition new then Inr (NO_BLOCK, w, ps)
      else case pager_alloc_page ps new of
        Inl e \<Rightarrow> Inl e
      | Inr (None, ps1) \<Rightarrow> Inl (Panics ''pager_move_page'')
      | Inr (Some new_offset, ps1) \<Rightarrow>
          (case partition_of ps1 (unat old) of
             Inl e \<Rightarrow> Inl e
           | Inr None \<Rightarrow> Inl Null_Deref
           | Inr (Some old_part) \<Rightarrow>
               (case rd (unat old) (ptoa pgsz (p_offset b)) pgsz w of
                  None \<Rightarrow> Inl (Panics ''pager_move_page'')
                | Some bs \<Rightarrow>
                    (case pager_dealloc_page ps1 old (p_offset b) of
                       Inl e \<Rightarrow> Inl e
                     | Inr ps2 \<Rightarrow>
                         (case partition_of ps2 (unat new) of
                            Inl e \<Rightarrow> Inl e
                          | Inr None \<Rightarrow> Inl Null_Deref
                          | Inr (Some new_part) \<Rightarrow>
                              (case wr (unat new) (ptoa pgsz new_offset) bs w of
                                 None \<Rightarrow> Inl (Panics ''pager_move_page'')
                               | Some (n, w') \<Rightarrow>
                                   Inr (\<lparr>p_offset = new_offset mod 2 ^ 24, p_index = new\<rparr>, w', ps2)))))))"

text \<open>The loops of \<open>pager_realloc\<close> over the entries of a map, by page number. Second-level maps that
  were never allocated are skipped. The answer says whether every page could be moved.\<close>

definition has_entry :: "dp_map \<Rightarrow> nat \<Rightarrow> bool" where
  "has_entry m f = (case m of Direct es \<Rightarrow> True | Indirect ms \<Rightarrow> \<not> (f div PAGEMAP_ENTRIES < length ms \<and> ms ! (f div PAGEMAP_ENTRIES) = None))"

fun realloc_loop ::
  "nat \<Rightarrow> (nat \<Rightarrow> nat \<Rightarrow> nat \<Rightarrow> 'w \<Rightarrow> u8 list option) \<Rightarrow> (nat \<Rightarrow> nat \<Rightarrow> u8 list \<Rightarrow> 'w \<Rightarrow> (nat \<times> 'w) option) \<Rightarrow>
     u8 \<Rightarrow> nat list \<Rightarrow> dp_map \<Rightarrow> 'w \<Rightarrow> partitions \<Rightarrow> (bool \<times> dp_map \<times> 'w \<times> partitions) outcome" where
  "realloc_loop pgsz rd wr pindex [] m w ps = Inr (True, m, w, ps)"
| "realloc_loop pgsz rd wr pindex (f # fs) m w ps =
     (if \<not> has_entry m f then realloc_loop pgsz rd wr pindex fs m w ps
      else case map_entry m f of
        Inl e \<Rightarrow> Inl e
      | Inr b \<Rightarrow>
          if p_index b = pindex then
            (case pager_move_page pgsz rd wr w ps b of
               Inl e \<Rightarrow> Inl e
             | Inr (b', w', ps') \<Rightarrow>
                 if no_block b' then Inr (False, m, w', ps')
                 else (case set_map_entry m f b' of
                     Inl e \<Rightarrow> Inl e
                   | Inr m' \<Rightarrow> realloc_loop pgsz rd wr pindex fs m' w' ps'))
          else realloc_loop pgsz rd wr pindex fs m w ps)"

definition map_indices :: "dpager \<Rightarrow> nat list" where
  "map_indices pager =
     (if INDIRECT_PAGEMAP (dp_size pager)
      then [0..<INDIRECT_PAGEMAP_ENTRIES (dp_size pager) * PAGEMAP_ENTRIES] else [0..<dp_size pager])"

definition pager_realloc ::
  "nat \<Rightarrow> (nat \<Rightarrow> nat \<Rightarrow> nat \<Rightarrow> 'w \<Rightarrow> u8 list option) \<Rightarrow> (nat \<Rightarrow> nat \<Rightarrow> u8 list \<Rightarrow> 'w \<Rightarrow> (nat \<times> 'w) option) \<Rightarrow>
     u8 \<Rightarrow> dpager \<Rightarrow> 'w \<Rightarrow> partitions \<Rightarrow> (bool \<times> dpager \<times> 'w \<times> partitions) outcome" where
  "pager_realloc pgsz rd wr pindex pager w ps =
     (case realloc_loop pgsz rd wr pindex (map_indices pager) (dmap pager) w ps of
        Inl e \<Rightarrow> Inl e
      | Inr (False, m, w', ps') \<Rightarrow> Inr (False, pager\<lparr>dmap := m\<rparr>, w', ps')
      | Inr (True, m, w', ps') \<Rightarrow>
          Inr (True, pager\<lparr>dmap := m, cur_partition := choose_partition pgsz ps' 0 P_INDEX_INVALID\<rparr>, w', ps'))"

fun realloc_all ::
  "nat \<Rightarrow> (nat \<Rightarrow> nat \<Rightarrow> nat \<Rightarrow> 'w \<Rightarrow> u8 list option) \<Rightarrow> (nat \<Rightarrow> nat \<Rightarrow> u8 list \<Rightarrow> 'w \<Rightarrow> (nat \<times> 'w) option) \<Rightarrow>
     u8 \<Rightarrow> dpager list \<Rightarrow> 'w \<Rightarrow> partitions \<Rightarrow> (bool \<times> dpager list \<times> 'w \<times> partitions) outcome" where
  "realloc_all pgsz rd wr pindex [] w ps = Inr (True, [], w, ps)"
| "realloc_all pgsz rd wr pindex (d # ds) w ps =
     (case pager_realloc pgsz rd wr pindex d w ps of
        Inl e \<Rightarrow> Inl e
      | Inr (False, d', w', ps') \<Rightarrow> Inr (False, d' # ds, w', ps')
      | Inr (True, d', w', ps') \<Rightarrow>
          (case realloc_all pgsz rd wr pindex ds w' ps' of
             Inl e \<Rightarrow> Inl e
           | Inr (all_ok, ds', w'', ps'') \<Rightarrow> Inr (all_ok, d' # ds', w'', ps'')))"

datatype kern_return_t = KERN_SUCCESS | KERN_INVALID_ARGUMENT | KERN_FAILURE

definition set_going_away :: "bool \<Rightarrow> partitions \<Rightarrow> nat \<Rightarrow> partitions" where
  "set_going_away v ps i = ps[i := map_option (\<lambda>p. p\<lparr>going_away := v\<rparr>) (ps ! i)]"

definition destroy_paging_partition ::
  "nat \<Rightarrow> (nat \<Rightarrow> nat \<Rightarrow> nat \<Rightarrow> 'w \<Rightarrow> u8 list option) \<Rightarrow> (nat \<Rightarrow> nat \<Rightarrow> u8 list \<Rightarrow> 'w \<Rightarrow> (nat \<times> 'w) option) \<Rightarrow>
     u8 list \<Rightarrow> dpager list \<Rightarrow> 'w \<Rightarrow> partitions \<Rightarrow> (kern_return_t \<times> dpager list \<times> 'w \<times> partitions) outcome" where
  "destroy_paging_partition pgsz rd wr name ds w ps =
     (case first_idx (\<lambda>p. case p of None \<Rightarrow> False | Some p \<Rightarrow> pt_id p = part_id name) ps of
        None \<Rightarrow> Inr (KERN_INVALID_ARGUMENT, ds, w, ps)
      | Some i \<Rightarrow>
          (case realloc_all pgsz rd wr (of_nat i) ds w (set_going_away True ps i) of
             Inl e \<Rightarrow> Inl e
           | Inr (True, ds', w', ps') \<Rightarrow>
               (case set_partition_of ps' i None of
                  Inl e \<Rightarrow> Inl e
                | Inr ps'' \<Rightarrow> Inr (KERN_SUCCESS, ds', w', ps''))
           | Inr (False, ds', w', ps') \<Rightarrow> Inr (KERN_FAILURE, ds', w', set_going_away False ps' i)))"

section \<open>Accounting\<close>

definition paging_space_info :: "partitions \<Rightarrow> nat \<times> nat" where
  "paging_space_info ps =
     fold (\<lambda>p (total, free). case p of None \<Rightarrow> (total, free)
             | Some p \<Rightarrow> (total + total_size p, free + pt_free p)) ps (0, 0)"

text \<open>The static variables of \<open>overcommitted\<close>; \<^verbatim>\<open>vm_size_t\<close> is an unsigned 32-bit type. The first
  component of the result says whether the warning or the all-clear is printed.\<close>

record overcommit =
  user_warned :: bool
  pages_shortage :: u32

definition overcommitted :: "partitions \<Rightarrow> bool \<Rightarrow> u32 \<Rightarrow> overcommit \<Rightarrow> bool \<times> overcommit" where
  "overcommitted ps got_more_space amount st =
     (let pages_free = of_nat (snd (paging_space_info ps)) :: u32 in
      if got_more_space then
        let pages_free = pages_free - pages_shortage st in
        (pages_free > 0 \<and> user_warned st,
         \<lparr>user_warned = False, pages_shortage = (if pages_free > 0 then 0 else pages_free)\<rparr>)
      else
        let pages_free = pages_free - amount;
            shortage = (if pages_free > 0 then 0 else - pages_free) in
        (\<not> user_warned st \<and> shortage \<noteq> 0,
         \<lparr>user_warned = user_warned st \<or> shortage \<noteq> 0, pages_shortage = shortage\<rparr>))"

section \<open>One page\<close>

text \<open>What a move does: nothing when no other partition has room, or a new block elsewhere that
  holds the same data, with the old block free again.\<close>

definition move_result ::
  "nat \<Rightarrow> (nat \<Rightarrow> nat \<Rightarrow> nat \<Rightarrow> 'w \<Rightarrow> u8 list option) \<Rightarrow> 'w \<Rightarrow> partitions \<Rightarrow> dp_block \<Rightarrow>
     dp_block \<Rightarrow> 'w \<Rightarrow> partitions \<Rightarrow> bool" where
  "move_result pgsz rd w ps b b' w' ps' \<longleftrightarrow>
     (if b' = NO_BLOCK then w' = w \<and> ps' = ps \<and> fst ` usable ps \<subseteq> {unat (p_index b)}
      else key b' \<in> space ps \<and> p_index b' \<noteq> p_index b \<and> parts_ok ps' \<and> shape ps' = shape ps \<and>
        space ps' = insert (key b) (space ps - {key b'}) \<and>
        rd (fst (key b')) (ptoa pgsz (snd (key b'))) pgsz w' = rd (fst (key b)) (ptoa pgsz (snd (key b))) pgsz w \<and>
        (\<forall>i k. (i, k) \<noteq> key b' \<longrightarrow> rd i (ptoa pgsz k) pgsz w' = rd i (ptoa pgsz k) pgsz w))"

lemma block_key: "parts_ok ps \<Longrightarrow> (unat c, k) \<in> space ps \<Longrightarrow> \<not> no_partition c \<Longrightarrow>
  key \<lparr>p_offset = k mod 2 ^ 24, p_index = c\<rparr> = (unat c, k) \<and> \<lparr>p_offset = k mod 2 ^ 24, p_index = c\<rparr> \<noteq> NO_BLOCK"
  by (auto simp: space_def free_pages_def parts_ok_def part_ok_def key_def NO_BLOCK_def no_partition_def
      P_INDEX_INVALID_def)

lemma pager_move_page_ok:
  assumes ok: "parts_ok ps" and b: "valid_block ps (key b)" "key b \<notin> space ps"
    and disk: "disk_ok pgsz rd wr" and pg: "0 < pgsz"
  shows "case pager_move_page pgsz rd wr w ps b of
      Inl e \<Rightarrow> e = Panics ''pager_move_page'' \<and> rd (fst (key b)) (ptoa pgsz (snd (key b))) pgsz w = None
    | Inr (b', w', ps') \<Rightarrow> move_result pgsz rd w ps b b' w' ps'"
proof -
  let ?new = "choose_partition pgsz ps (ptoa pgsz 1) (p_index b)"
  note choose = choose_partition_cases [OF ok, of pgsz "ptoa pgsz 1" "p_index b"]
  show ?thesis
  proof (cases "no_partition ?new")
    case True
    then have none: "\<forall>i p. i < length ps \<and> i \<noteq> unat (p_index b) \<and> ps ! i = Some p \<and> \<not> going_away p \<longrightarrow> pt_free p = 0"
      using choose of_nat_index pg by (auto simp: ptoa_def)
    have "i = unat (p_index b)" if "(i, k) \<in> usable ps" for i k
    proof (rule ccontr)
      assume "i \<noteq> unat (p_index b)"
      with that none obtain q where "ps ! i = Some q" "pt_free q = 0" "k \<in> free_pages q" "i < length ps"
        by (auto simp: usable_def space_def)
      with ok show False by (auto simp: parts_ok_def part_ok_def)
    qed
    with True show ?thesis by (auto simp: pager_move_page_def move_result_def Let_def)
  next
    case False
    with choose obtain i p where i: "?new = of_nat i" "i < length ps" "i < 255" "ps ! i = Some p"
      "\<not> going_away p" "pgsz \<le> ptoa pgsz (pt_free p)" "i \<noteq> unat (p_index b)"
      by (auto simp: no_partition_def ptoa_def)
    have u: "unat ?new = i" using of_nat_index [OF i(3)] i(1) by simp
    have pf: "0 < pt_free p" using i(6) pg by (cases "pt_free p") (simp_all add: ptoa_def)
    have "free_pages p \<noteq> {}" using part_room [OF _ pf] ok i(2,4) by (simp add: parts_ok_def)
    with pager_alloc_page_ok [OF ok, of ?new] u i False obtain k ps1 where
      a: "pager_alloc_page ps ?new = Inr (Some k, ps1)" "(i, k) \<in> space ps" "space ps1 = space ps - {(i, k)}"
        "parts_ok ps1" "shape ps1 = shape ps"
      by (auto split: sum.splits option.splits)
    have kb: "key b = (unat (p_index b), p_offset b)" by (simp add: key_def)
    have v1: "valid_block ps1 (key b)" using b(1) valid_block_shape [OF a(5)] by simp
    then obtain q where q: "unat (p_index b) < length ps1" "ps1 ! unat (p_index b) = Some q"
      by (auto simp: valid_block_def key_def)
    have "(unat (p_index b), p_offset b) \<notin> space ps1" using b(2) a(3) kb by auto
    from pager_dealloc_page_ok [OF a(4) v1 [unfolded kb] this] obtain ps2 where
      d: "pager_dealloc_page ps1 (p_index b) (p_offset b) = Inr ps2" "space ps2 = insert (key b) (space ps1)"
        "parts_ok ps2" "shape ps2 = shape ps1" using kb by auto
    have len2: "length ps2 = length ps" using shape_length [OF d(4)] shape_length [OF a(5)] by simp
    have "ps2 ! i \<noteq> None"
      using shape_nth [OF d(4), of i] shape_nth [OF a(5), of i] i(2,4) len2 shape_length [OF a(5)] by auto
    then obtain r where r: "ps2 ! i = Some r" by auto
    show ?thesis
    proof (cases "rd (unat (p_index b)) (ptoa pgsz (p_offset b)) pgsz w")
      case None
      then show ?thesis using False a(1) q kb
        by (simp add: pager_move_page_def Let_def partition_of_def)
    next
      case (Some bs)
      then have bs: "length bs = pgsz" using disk unfolding disk_ok_def by blast
      from disk bs obtain w' where w': "wr i (ptoa pgsz k) bs w = Some (pgsz, w')"
        "rd i (ptoa pgsz k) pgsz w' = Some bs"
        "\<forall>j l. (j, l) \<noteq> (i, k) \<longrightarrow> rd j (ptoa pgsz l) pgsz w' = rd j (ptoa pgsz l) pgsz w"
        unfolding disk_ok_def by blast
      let ?b = "\<lparr>p_offset = k mod 2 ^ 24, p_index = ?new\<rparr>"
      have run: "pager_move_page pgsz rd wr w ps b = Inr (?b, w', ps2)"
        using False a(1) q d(1) Some w'(1) r u i(2) len2
        by (simp add: pager_move_page_def Let_def partition_of_def)
      have key: "key ?b = (i, k)" "?b \<noteq> NO_BLOCK" using block_key [OF ok, of ?new k] a(2) u False by simp_all
      have "p_index ?b \<noteq> p_index b" using i(7) u by auto
      with key a d w' Some kb show ?thesis unfolding run by (simp add: move_result_def)
    qed
  qed
qed

section \<open>All pages of an object\<close>

text \<open>Two states of the objects with the same mapped pages, which hold the same data.\<close>

definition same_pages ::
  "nat \<Rightarrow> (nat \<Rightarrow> nat \<Rightarrow> nat \<Rightarrow> 'w \<Rightarrow> u8 list option) \<Rightarrow> 'w \<Rightarrow> dpager list \<Rightarrow> 'w \<Rightarrow> dpager list \<Rightarrow> bool" where
  "same_pages pgsz rd w ds w' ds' \<longleftrightarrow> map dp_size ds' = map dp_size ds \<and> mapped ds' = mapped ds \<and>
     (\<forall>x \<in> mapped ds. stored pgsz rd w' ds' x = stored pgsz rd w ds x)"

lemma same_pages_refl [simp]: "same_pages pgsz rd w ds w ds"
  by (simp add: same_pages_def)

lemma same_pages_trans:
  "same_pages pgsz rd w1 ds1 w2 ds2 \<Longrightarrow> same_pages pgsz rd w2 ds2 w3 ds3 \<Longrightarrow> same_pages pgsz rd w1 ds1 w3 ds3"
  by (simp add: same_pages_def)

lemma sys_ok_pager: "pager_sys_ok ps ds \<Longrightarrow> d < length ds \<Longrightarrow> pager_ok (ds ! d) \<and> index_ok ps (cur_partition (ds ! d))"
  by (simp add: pager_sys_ok_def)

lemma replace_block_ok:
  assumes sys: "pager_sys_ok ps ds" and d: "d < length ds"
    and b: "entry (dmap (ds ! d)) f = b" "b \<noteq> NO_BLOCK"
    and mv: "move_result pgsz rd w ps b b' w' ps'" "b' \<noteq> NO_BLOCK"
    and p': "pager_ok p'" "entry (dmap p') = (entry (dmap (ds ! d)))(f := b')"
      "cur_partition p' = cur_partition (ds ! d)" "dp_size p' = dp_size (ds ! d)"
  shows "pager_sys_ok ps' (ds[d := p']) \<and> same_pages pgsz rd w ds w' (ds[d := p'])"
proof -
  let ?ds = "ds[d := p']"
  from mv have m: "key b' \<in> space ps" "parts_ok ps'" "shape ps' = shape ps"
      "space ps' = insert (key b) (space ps - {key b'})"
      "rd (fst (key b')) (ptoa pgsz (snd (key b'))) pgsz w' = rd (fst (key b)) (ptoa pgsz (snd (key b))) pgsz w"
      "\<forall>i k. (i, k) \<noteq> key b' \<longrightarrow> rd i (ptoa pgsz k) pgsz w' = rd i (ptoa pgsz k) pgsz w"
    by (simp_all add: move_result_def)
  from sys have s: "inj_on (block_at ds) (mapped ds)" "block_at ds ` mapped ds \<inter> space ps = {}"
    "\<forall>x \<in> mapped ds. valid_block ps (block_at ds x)" by (simp_all add: pager_sys_ok_def)
  have e: "entry (dmap (?ds ! i)) g = (if (i, g) = (d, f) then b' else entry (dmap (ds ! i)) g)"
    if "i < length ds" for i g using that p'(2) by (cases "i = d") auto
  have mem: "(d, f) \<in> mapped ds" using d b by (simp add: mapped_def)
  have map: "mapped ?ds = mapped ds" using e mv(2) b d by (auto simp: mapped_def split: if_splits)
  have at: "block_at ?ds x = (if x = (d, f) then key b' else block_at ds x)" if "x \<in> mapped ds" for x
    using that e by (cases x) (auto simp: block_at_def mapped_def)
  have here: "block_at ds (d, f) = key b" using b(1) by (simp add: block_at_def)
  have fresh: "key b' \<notin> block_at ds ` mapped ds" using s(2) m(1) by blast
  have "inj_on (block_at ?ds) (mapped ?ds)"
    unfolding map using inj_on_fun_updI [OF s(1) fresh, of "(d, f)"] at by (simp cong: inj_on_cong)
  moreover have "block_at ?ds x \<notin> space ps'" if "x \<in> mapped ds" for x
  proof (cases "x = (d, f)")
    case True
    then show ?thesis using at [OF that] m(1,4) s(2) mem here by auto
  next
    case False
    then have "block_at ds x \<noteq> key b" using s(1) that mem here by (metis inj_onD)
    with False at [OF that] m(4) s(2) that show ?thesis by auto
  qed
  moreover have "valid_block ps (key b')"
    using m(1) by (auto simp: space_def valid_block_def free_pages_def)
  then have "\<forall>x \<in> mapped ?ds. valid_block ps' (block_at ?ds x)"
    unfolding map using s(3) at valid_block_shape [OF m(3)] by auto
  moreover have "\<forall>p \<in> set ?ds. pager_ok p \<and> index_ok ps' (cur_partition p)"
    using sys p'(1,3) index_ok_shape [OF m(3)] sys_ok_pager [OF sys d] set_update_subset_insert [of ds d p']
    by (auto simp: pager_sys_ok_def)
  ultimately have "pager_sys_ok ps' ?ds" using m(2) map by (auto simp: pager_sys_ok_def)
  moreover have "stored pgsz rd w' ?ds x = stored pgsz rd w ds x" if "x \<in> mapped ds" for x
  proof (cases "x = (d, f)")
    case True
    then show ?thesis using at [OF that] m(5) here by (simp add: stored_def)
  next
    case False
    have "block_at ds x \<noteq> key b'" using fresh that by (metis imageI)
    then show ?thesis using False at [OF that] m(6) by (simp add: stored_def)
  qed
  moreover have "map dp_size ?ds = map dp_size ds" using p'(4) d by (simp add: map_update list_update_same_conv)
  ultimately show ?thesis using map by (simp add: same_pages_def)
qed

lemma no_entry: "\<not> has_entry m f \<Longrightarrow> entry m f = NO_BLOCK"
  by (cases m) (auto simp: has_entry_def entry_def PAGEMAP_ENTRIES_def)

text \<open>The state after a number of moves from a state: it is consistent, nothing is lost, and the
  pages in \<open>fs\<close> of an object are no longer in partition \<open>pindex\<close>.\<close>

definition moved ::
  "nat \<Rightarrow> (nat \<Rightarrow> nat \<Rightarrow> nat \<Rightarrow> 'w \<Rightarrow> u8 list option) \<Rightarrow> u8 \<Rightarrow> 'w \<Rightarrow> partitions \<Rightarrow> dpager list \<Rightarrow>
     bool \<Rightarrow> 'w \<Rightarrow> partitions \<Rightarrow> dpager list \<Rightarrow> bool" where
  "moved pgsz rd pindex w ps ds ok w' ps' ds' \<longleftrightarrow>
     pager_sys_ok ps' ds' \<and> same_pages pgsz rd w ds w' ds' \<and> shape ps' = shape ps \<and>
     (\<not> ok \<longrightarrow> fst ` usable ps' \<subseteq> {unat pindex})"

definition cleared :: "u8 \<Rightarrow> nat set \<Rightarrow> dp_map \<Rightarrow> dp_map \<Rightarrow> bool" where
  "cleared pindex fs m m' \<longleftrightarrow> (\<forall>f. p_index (entry m' f) = pindex \<longrightarrow> p_index (entry m f) = pindex \<and> f \<notin> fs)"

lemma realloc_loop_ok:
  assumes disk: "disk_ok pgsz rd wr" and pg: "0 < pgsz" and pi: "p_index NO_BLOCK \<noteq> pindex" and d: "d < length ds"
  shows "pager_sys_ok ps (ds[d := p\<lparr>dmap := m\<rparr>]) \<Longrightarrow> \<forall>f \<in> set fs. f < dp_size p \<Longrightarrow>
    case realloc_loop pgsz rd wr pindex fs m w ps of
      Inl e \<Rightarrow> e = Panics ''pager_move_page'' \<and>
        (\<exists>x \<in> mapped (ds[d := p\<lparr>dmap := m\<rparr>]). stored pgsz rd w (ds[d := p\<lparr>dmap := m\<rparr>]) x = None)
    | Inr (ok, m', w', ps') \<Rightarrow>
        moved pgsz rd pindex w ps (ds[d := p\<lparr>dmap := m\<rparr>]) ok w' ps' (ds[d := p\<lparr>dmap := m'\<rparr>]) \<and>
        (ok \<longrightarrow> cleared pindex (set fs) m m')"
proof (induction fs arbitrary: m w ps)
  case Nil
  then show ?case by (simp add: moved_def cleared_def)
next
  case (Cons f fs)
  let ?ds = "ds[d := p\<lparr>dmap := m\<rparr>]"
  have len: "d < length ?ds" and nth: "?ds ! d = p\<lparr>dmap := m\<rparr>" using d by simp_all
  have ok: "parts_ok ps" using Cons.prems(1) by (simp add: pager_sys_ok_def)
  have mok: "map_ok m (dp_size p)" using sys_ok_pager [OF Cons.prems(1) len] nth by (simp add: pager_ok_def)
  have f: "f < dp_size p" and fs: "\<forall>f \<in> set fs. f < dp_size p" using Cons.prems(2) by simp_all
  have me: "map_entry m f = Inr (entry m f)" by (rule map_entry_eq [OF mok f])
  show ?case
  proof (cases "has_entry m f \<and> p_index (entry m f) = pindex")
    case False
    then have run: "realloc_loop pgsz rd wr pindex (f # fs) m w ps = realloc_loop pgsz rd wr pindex fs m w ps"
      using me by auto
    have "p_index (entry m f) \<noteq> pindex" using False no_entry [of m f] pi by auto
    then have cl: "cleared pindex (set (f # fs)) m m' \<longleftrightarrow> cleared pindex (set fs) m m'" for m'
      by (auto simp: cleared_def)
    show ?thesis unfolding run cl by (rule Cons.IH [OF Cons.prems(1) fs])
  next
    case True
    let ?b = "entry m f"
    have nb: "?b \<noteq> NO_BLOCK" using True pi by auto
    have mem: "(d, f) \<in> mapped ?ds" using d nb by (simp add: mapped_def)
    have at: "block_at ?ds (d, f) = key ?b" using d by (simp add: block_at_def)
    have vb: "valid_block ps (key ?b)" "key ?b \<notin> space ps"
      using Cons.prems(1) mem at unfolding pager_sys_ok_def by (metis, metis IntI empty_iff imageI)
    note mv = pager_move_page_ok [OF ok vb disk pg, of w]
    show ?thesis
    proof (cases "pager_move_page pgsz rd wr w ps ?b")
      case (Inl e)
      then have "e = Panics ''pager_move_page''" "stored pgsz rd w ?ds (d, f) = None"
        using mv at by (simp_all add: stored_def)
      with Inl True me mem show ?thesis by auto
    next
      case (Inr r)
      then obtain b' w1 ps1 where r: "pager_move_page pgsz rd wr w ps ?b = Inr (b', w1, ps1)" by (cases r) auto
      with mv have mr: "move_result pgsz rd w ps ?b b' w1 ps1" by simp
      show ?thesis
      proof (cases "b' = NO_BLOCK")
        case nob: True
        then have "w1 = w" "ps1 = ps" "fst ` usable ps \<subseteq> {unat pindex}" using mr True by (simp_all add: move_result_def)
        with nob r True me Cons.prems(1) show ?thesis by (simp add: no_block_def moved_def)
      next
        case new: False
        have "\<And>ms. m = Indirect ms \<Longrightarrow> ms ! (f div 64) \<noteq> None"
          using True mok f div64_less [of f "dp_size p"] by (auto simp: has_entry_def map_ok_def PAGEMAP_ENTRIES_def)
        from set_map_entry_ok [OF mok f this, of b'] obtain m1 where
          m1: "set_map_entry m f b' = Inr m1" "map_ok m1 (dp_size p)" "entry m1 = (entry m)(f := b')" by metis
        have run: "realloc_loop pgsz rd wr pindex (f # fs) m w ps = realloc_loop pgsz rd wr pindex fs m1 w1 ps1"
          using r True me m1(1) new by (simp add: no_block_def)
        have rep: "pager_sys_ok ps1 (ds[d := p\<lparr>dmap := m1\<rparr>])" "same_pages pgsz rd w ?ds w1 (ds[d := p\<lparr>dmap := m1\<rparr>])"
          using replace_block_ok [OF Cons.prems(1) len _ nb mr new, of f "p\<lparr>dmap := m1\<rparr>"] m1(2,3) d
          by (simp_all add: pager_ok_def)
        have sh: "shape ps1 = shape ps" "p_index b' \<noteq> pindex" using mr new True by (simp_all add: move_result_def)
        have "(\<exists>x \<in> mapped (ds[d := p\<lparr>dmap := m1\<rparr>]). stored pgsz rd w1 (ds[d := p\<lparr>dmap := m1\<rparr>]) x = None) \<longleftrightarrow>
            (\<exists>x \<in> mapped ?ds. stored pgsz rd w ?ds x = None)" using rep(2) by (simp add: same_pages_def)
        moreover have "moved pgsz rd pindex w1 ps1 (ds[d := p\<lparr>dmap := m1\<rparr>]) k w2 ps2 ds2 \<Longrightarrow>
            moved pgsz rd pindex w ps ?ds k w2 ps2 ds2" for k w2 ps2 ds2
          using rep(2) sh(1) same_pages_trans unfolding moved_def by metis
        moreover have "cleared pindex (set fs) m1 m' \<Longrightarrow> cleared pindex (set (f # fs)) m m'" for m'
          using sh(2) m1(3) by (auto simp: cleared_def split: if_splits)
        ultimately show ?thesis unfolding run using Cons.IH [OF rep(1) fs, of w1]
          by (auto split: sum.splits)
      qed
    qed
  qed
qed

section \<open>All objects\<close>

lemma moved_trans:
  assumes "moved pgsz rd pindex w ps ds k w1 ps1 ds1" "moved pgsz rd pindex w1 ps1 ds1 ok w2 ps2 ds2"
  shows "moved pgsz rd pindex w ps ds ok w2 ps2 ds2"
  using assms same_pages_trans unfolding moved_def by metis

lemma moved_unreadable:
  "moved pgsz rd pindex w ps ds ok w' ps' ds' \<Longrightarrow>
   (\<exists>x \<in> mapped ds'. stored pgsz rd w' ds' x = None) \<longleftrightarrow> (\<exists>x \<in> mapped ds. stored pgsz rd w ds x = None)"
  by (simp add: moved_def same_pages_def)

lemma moved_cur_partition:
  assumes mv: "moved pgsz rd pindex w ps ds ok w' ps' (ds[d := p])" and d: "d < length ds" and c: "index_ok ps' c"
  shows "moved pgsz rd pindex w ps ds ok w' ps' (ds[d := p\<lparr>cur_partition := c\<rparr>])"
proof -
  let ?a = "ds[d := p]" and ?b = "ds[d := p\<lparr>cur_partition := c\<rparr>]"
  have dm: "dmap (?b ! e) = dmap (?a ! e)" if "e < length ds" for e using that by (cases "e = d") simp_all
  then have m: "mapped ?b = mapped ?a" by (auto simp: mapped_def)
  have at: "block_at ?b x = block_at ?a x" if "x \<in> mapped ?a" for x
    using that dm by (auto simp: block_at_def mapped_def)
  have sys: "pager_sys_ok ps' ?a" using mv by (simp add: moved_def)
  then have "pager_ok p" using sys_ok_pager [of ps' ?a d] d by simp
  then have "\<forall>q \<in> set ?b. pager_ok q \<and> index_ok ps' (cur_partition q)"
    using sys c d by (auto simp: pager_sys_ok_def pager_ok_def all_set_conv_all_nth nth_list_update)
  then have "pager_sys_ok ps' ?b"
    using sys at unfolding pager_sys_ok_def m by (simp cong: inj_on_cong image_cong)
  moreover have "map dp_size ?b = map dp_size ?a" by (simp add: map_update)
  ultimately show ?thesis using mv at by (auto simp: moved_def same_pages_def m stored_def)
qed

lemma pager_realloc_ok:
  assumes disk: "disk_ok pgsz rd wr" and pg: "0 < pgsz" and pi: "p_index NO_BLOCK \<noteq> pindex"
    and sys: "pager_sys_ok ps ds" and d: "d < length ds"
  shows "case pager_realloc pgsz rd wr pindex (ds ! d) w ps of
      Inl e \<Rightarrow> e = Panics ''pager_move_page'' \<and> (\<exists>x \<in> mapped ds. stored pgsz rd w ds x = None)
    | Inr (ok, p', w', ps') \<Rightarrow> moved pgsz rd pindex w ps ds ok w' ps' (ds[d := p']) \<and>
        (ok \<longrightarrow> (\<forall>f. p_index (entry (dmap p') f) \<noteq> pindex))"
proof -
  let ?p = "ds ! d"
  have pok: "pager_ok ?p" using sys_ok_pager [OF sys d] by simp
  then have so: "size_ok (dp_size ?p)" by (rule pager_ok_size)
  have idx: "set (map_indices ?p) = {..<dp_size ?p}"
    using indirect_entries [OF so] so
    by (auto simp: map_indices_def INDIRECT_PAGEMAP_def PAGEMAP_ENTRIES_def size_ok_def)
  have here: "ds[d := ?p\<lparr>dmap := dmap ?p\<rparr>] = ds" by simp
  have loop: "case realloc_loop pgsz rd wr pindex (map_indices ?p) (dmap ?p) w ps of
      Inl e \<Rightarrow> e = Panics ''pager_move_page'' \<and> (\<exists>x \<in> mapped ds. stored pgsz rd w ds x = None)
    | Inr (ok, m', w', ps') \<Rightarrow> moved pgsz rd pindex w ps ds ok w' ps' (ds[d := ?p\<lparr>dmap := m'\<rparr>]) \<and>
        (ok \<longrightarrow> cleared pindex {..<dp_size ?p} (dmap ?p) m')"
    using realloc_loop_ok [OF disk pg pi d, where ps = ps and p = ?p and m = "dmap ?p" and fs = "map_indices ?p" and w = w] sys unfolding here idx by simp
  show ?thesis
  proof (cases "realloc_loop pgsz rd wr pindex (map_indices ?p) (dmap ?p) w ps")
    case (Inl e)
    with loop show ?thesis by (simp add: pager_realloc_def)
  next
    case (Inr r)
    then obtain ok m' w' ps' where r: "realloc_loop pgsz rd wr pindex (map_indices ?p) (dmap ?p) w ps = Inr (ok, m', w', ps')"
      by (cases r) auto
    with loop have mv: "moved pgsz rd pindex w ps ds ok w' ps' (ds[d := ?p\<lparr>dmap := m'\<rparr>])"
      and cl: "ok \<Longrightarrow> cleared pindex {..<dp_size ?p} (dmap ?p) m'" by simp_all
    show ?thesis
    proof (cases ok)
      case False
      with r mv show ?thesis by (simp add: pager_realloc_def)
    next
      case True
      have sys': "pager_sys_ok ps' (ds[d := ?p\<lparr>dmap := m'\<rparr>])" using mv by (simp add: moved_def)
      then have "map_ok m' (dp_size ?p)" using sys_ok_pager [OF sys', of d] d by (simp add: pager_ok_def)
      then have "p_index (entry m' f) \<noteq> pindex" for f
        using cl [OF True] entry_beyond [of m' "dp_size ?p" f] pi by (cases "f < dp_size ?p") (auto simp: cleared_def)
      moreover have "index_ok ps' (choose_partition pgsz ps' 0 P_INDEX_INVALID)"
        using sys' choose_partition_index by (simp add: pager_sys_ok_def)
      ultimately show ?thesis using r True moved_cur_partition [OF mv d] by (simp add: pager_realloc_def)
    qed
  qed
qed

lemma realloc_all_ok:
  assumes disk: "disk_ok pgsz rd wr" and pg: "0 < pgsz" and pi: "p_index NO_BLOCK \<noteq> pindex"
  shows "pager_sys_ok ps (pre @ ds) \<Longrightarrow>
    case realloc_all pgsz rd wr pindex ds w ps of
      Inl e \<Rightarrow> e = Panics ''pager_move_page'' \<and> (\<exists>x \<in> mapped (pre @ ds). stored pgsz rd w (pre @ ds) x = None)
    | Inr (ok, ds', w', ps') \<Rightarrow> moved pgsz rd pindex w ps (pre @ ds) ok w' ps' (pre @ ds') \<and>
        (ok \<longrightarrow> (\<forall>p \<in> set ds'. \<forall>f. p_index (entry (dmap p) f) \<noteq> pindex))"
proof (induction ds arbitrary: pre w ps)
  case Nil
  then show ?case by (simp add: moved_def)
next
  case (Cons d ds)
  have at: "(pre @ d # ds) ! length pre = d" "(pre @ d # ds)[length pre := x] = (pre @ [x]) @ ds" for x by simp_all
  note one = pager_realloc_ok [OF disk pg pi Cons.prems, of "length pre" w, unfolded at]
  show ?case
  proof (cases "pager_realloc pgsz rd wr pindex d w ps")
    case (Inl e)
    with one show ?thesis by simp
  next
    case (Inr r)
    then obtain ok d' w1 ps1 where r: "pager_realloc pgsz rd wr pindex d w ps = Inr (ok, d', w1, ps1)"
      by (cases r) auto
    with one have mv: "moved pgsz rd pindex w ps (pre @ d # ds) ok w1 ps1 ((pre @ [d']) @ ds)"
      and cl: "ok \<Longrightarrow> \<forall>f. p_index (entry (dmap d') f) \<noteq> pindex" by simp_all
    show ?thesis
    proof (cases ok)
      case False
      with r mv show ?thesis by simp
    next
      case True
      have "pager_sys_ok ps1 ((pre @ [d']) @ ds)" using mv by (simp add: moved_def)
      note ih = Cons.IH [OF this, of w1]
      show ?thesis
        using ih r True cl [OF True] moved_trans [OF mv] moved_unreadable [OF mv]
        by (auto split: sum.splits)
    qed
  qed
qed

section \<open>Removing a partition\<close>

lemma set_going_away_ok:
  assumes "i < length ps"
  shows "space (set_going_away v ps i) = space ps" "parts_ok (set_going_away v ps i) = parts_ok ps"
    "valid_block (set_going_away v ps i) b = valid_block ps b" "length (set_going_away v ps i) = length ps"
proof -
  have f: "free_pages (p\<lparr>going_away := v\<rparr>) = free_pages p" for p by (simp add: free_pages_def page_used_def)
  then have k: "part_ok (p\<lparr>going_away := v\<rparr>) = part_ok p" for p by (simp add: part_ok_def)
  have n: "set_going_away v ps i ! j = (if j = i then map_option (\<lambda>p. p\<lparr>going_away := v\<rparr>) (ps ! i) else ps ! j)" for j
    using assms by (simp add: set_going_away_def nth_list_update)
  show l: "length (set_going_away v ps i) = length ps" by (simp add: set_going_away_def)
  show "space (set_going_away v ps i) = space ps" unfolding space_def l by (auto simp: n f split: if_splits)
  show "parts_ok (set_going_away v ps i) = parts_ok ps" unfolding parts_ok_def l by (auto simp: n k split: if_splits)
  show "valid_block (set_going_away v ps i) b = valid_block ps b" unfolding valid_block_def l by (auto simp: n split: if_splits)
qed

lemma pager_sys_ok_going_away:
  "i < length ps \<Longrightarrow> pager_sys_ok (set_going_away v ps i) ds \<longleftrightarrow> pager_sys_ok ps ds"
  by (simp add: pager_sys_ok_def set_going_away_ok index_ok_def)

lemma pager_sys_ok_remove:
  assumes sys: "pager_sys_ok ps ds" and i: "i < length ps"
    and clear: "\<forall>p \<in> set ds. \<forall>f. unat (p_index (entry (dmap p) f)) \<noteq> i"
  shows "pager_sys_ok (ps[i := None]) ds"
proof -
  have fst: "fst (block_at ds x) \<noteq> i" if "x \<in> mapped ds" for x
    using that clear by (auto simp: mapped_def block_at_def key_def)
  have "valid_block (ps[i := None]) b \<longleftrightarrow> valid_block ps b" if "fst b \<noteq> i" for b
    using that by (simp add: valid_block_def)
  moreover have "space (ps[i := None]) \<subseteq> space ps"
    using i by (auto simp: space_def nth_list_update split: if_splits)
  moreover have "parts_ok (ps[i := None])" using sys i by (auto simp: pager_sys_ok_def parts_ok_def nth_list_update)
  ultimately show ?thesis using sys fst unfolding pager_sys_ok_def index_ok_def by auto
qed

text \<open>What moving all pages away from the partition at \<open>i\<close> yields.\<close>

lemma realloc_all_away:
  assumes sys: "pager_sys_ok ps ds" and disk: "disk_ok pgsz rd wr" and pg: "0 < pgsz" and i: "i < length ps"
  shows "case realloc_all pgsz rd wr (of_nat i) ds w (set_going_away True ps i) of
      Inl e \<Rightarrow> e = Panics ''pager_move_page'' \<and> (\<exists>x \<in> mapped ds. stored pgsz rd w ds x = None)
    | Inr (ok, ds', w', ps') \<Rightarrow>
        pager_sys_ok ps' ds' \<and> same_pages pgsz rd w ds w' ds' \<and> length ps' = length ps \<and>
        (if ok then \<forall>p \<in> set ds'. \<forall>f. unat (p_index (entry (dmap p) f)) \<noteq> i else fst ` usable ps' \<subseteq> {i})"
proof -
  let ?ps = "set_going_away True ps i"
  have "length ps \<le> 255" using sys by (simp add: pager_sys_ok_def parts_ok_def)
  with i have u: "unat (of_nat i :: u8) = i" "p_index NO_BLOCK \<noteq> of_nat i"
    using of_nat_index [of i] by (auto simp: NO_BLOCK_def no_partition_def P_INDEX_INVALID_def)
  have "pager_sys_ok ?ps ([] @ ds)" using sys i by (simp add: pager_sys_ok_going_away)
  note all = realloc_all_ok [OF disk pg u(2) this, of w]
  show ?thesis
  proof (cases "realloc_all pgsz rd wr (of_nat i) ds w ?ps")
    case (Inl e)
    with all show ?thesis by simp
  next
    case (Inr r)
    then obtain ok ds' w' ps' where r: "realloc_all pgsz rd wr (of_nat i) ds w ?ps = Inr (ok, ds', w', ps')"
      by (cases r) auto
    with all have mv: "moved pgsz rd (of_nat i) w ?ps ds ok w' ps' ds'"
      and cl: "ok \<Longrightarrow> \<forall>p \<in> set ds'. \<forall>f. p_index (entry (dmap p) f) \<noteq> of_nat i" by simp_all
    from mv have m: "pager_sys_ok ps' ds'" "same_pages pgsz rd w ds w' ds'" "shape ps' = shape ?ps"
      "\<not> ok \<Longrightarrow> fst ` usable ps' \<subseteq> {i}" using u(1) by (simp_all add: moved_def)
    have "length ps' = length ps" using shape_length [OF m(3)] set_going_away_ok(4) [OF i] by simp
    moreover have "\<forall>p \<in> set ds'. \<forall>f. unat (p_index (entry (dmap p) f)) \<noteq> i" if ok using cl [OF that] by force
    ultimately show ?thesis using r m by simp
  qed
qed

lemma usable_restored:
  assumes "i < length ps" "fst ` usable ps \<subseteq> {i}"
  shows "fst ` usable (set_going_away False ps i) \<subseteq> {i}"
proof
  fix j assume "j \<in> fst ` usable (set_going_away False ps i)"
  then obtain k where "(j, k) \<in> usable (set_going_away False ps i)" by auto
  then have "j = i \<or> (j, k) \<in> usable ps"
    using set_going_away_ok(1) [of i ps False] assms(1) by (auto simp: usable_def set_going_away_def nth_list_update)
  with assms(2) show "j \<in> {i}" by force
qed


text \<open>A page in the first of two partitions, which is then removed.\<close>

definition demo_move_pager :: dpager where
  "demo_move_pager = demo_pager\<lparr>dmap := Direct (\<lparr>p_offset = 0, p_index = 0\<rparr> # replicate 3 NO_BLOCK)\<rparr>"

definition demo_move_parts :: partitions where
  "demo_move_parts = [Some (demo_part\<lparr>pt_id := part_id [65], pt_free := 3, bitmap := [1]\<rparr>), Some demo_part]"

lemma demo_move_sys_ok: "pager_sys_ok demo_move_parts [demo_move_pager]"
proof -
  let ?p = "demo_part\<lparr>pt_id := part_id [65], pt_free := 3, bitmap := [1]\<rparr>"
  have f: "free_pages ?p = {1, 2, 3}"
    by (auto simp: free_pages_def page_used_def demo_part_def bit_1_iff)
  then have p: "part_ok ?p" unfolding part_ok_def f by (simp add: demo_part_def howmany_def NB_BM_def)
  have e: "entry (dmap demo_move_pager) f = (if f = 0 then \<lparr>p_offset = 0, p_index = 0\<rparr> else NO_BLOCK)" for f
    by (auto simp: entry_def demo_move_pager_def nth_Cons split: nat.split)
  have m: "mapped [demo_move_pager] = {(0, 0)}" by (auto simp: mapped_def e NO_BLOCK_def split: if_splits)
  have b: "block_at [demo_move_pager] (0, 0) = (0, 0)" by (simp add: block_at_def e key_def)
  have "parts_ok demo_move_parts"
    using p demo_part_ok(1) by (auto simp: parts_ok_def demo_move_parts_def nth_Cons split: nat.splits)
  moreover have "(0, 0) \<notin> space demo_move_parts" using f by (auto simp: space_def demo_move_parts_def)
  moreover have "valid_block demo_move_parts (0, 0)" by (simp add: valid_block_def demo_move_parts_def demo_part_def)
  moreover have "pager_ok demo_move_pager"
    by (auto simp: pager_ok_def map_ok_def demo_move_pager_def demo_pager_def intro: exI [of _ 2])
  moreover have "index_ok demo_move_parts (cur_partition demo_move_pager)"
    by (simp add: index_ok_def demo_move_pager_def demo_pager_def demo_move_parts_def)
  ultimately show ?thesis unfolding pager_sys_ok_def m by (simp add: b)
qed


text \<open>
  The warning that paging space is over-committed is never given: the test
  \<open>pages_free > 0\<close> is on an unsigned difference, so that the shortage is always computed as 0,
  whatever is asked for and however little is free.
\<close>

theorem overcommitted_never_warns:
  "overcommitted ps False amount st =
     (False, \<lparr>user_warned = user_warned st, pages_shortage = 0\<rparr>)"
  by (auto simp: overcommitted_def Let_def word_gt_0)

end
