(* ===== verification/PagerPort.thy ===== *)
theory PagerPort
  imports PagerMove
begin

text \<open>
  The request protocol of the default pager (\<^verbatim>\<open>src/mach/bootstrap/default_pager.c\<close>). Several
  threads serve the requests for one memory object. A request is admitted when its sequence
  number is that of the object; reads then wait for the writes in progress, terminations for
  the reads and writes, and the transfers themselves run in parallel. A request is served in
  steps that interleave in any order: what a thread does while it holds the lock of the object
  is one step, and so is the transfer of one page, which the locks inside the paging object
  serialise. Sequence numbers and counters are numbers; the calls to the kernel that adjust
  port references do not act on this state.
\<close>

section \<open>The object\<close>

record dstruct =
  ds_seqno :: nat
  pager_request :: nat
  request_refs :: nat
  pager_name :: nat
  name_refs :: nat
  readers :: nat
  writers :: nat
  ds_errors :: nat
  ds_dpager :: dpager

definition MACH_PORT_NULL :: nat where
  "MACH_PORT_NULL = 0"

definition default_pager_max_urefs :: nat where
  "default_pager_max_urefs = 10000"

text \<open>The condition under which \<open>pager_port_lock\<close> returns, and the locked updates.\<close>

definition pager_port_lock :: "dstruct \<Rightarrow> nat \<Rightarrow> bool" where
  "pager_port_lock ds seqno \<longleftrightarrow> ds_seqno ds = seqno"

definition pager_port_unlock :: "dstruct \<Rightarrow> dstruct" where
  "pager_port_unlock ds = ds\<lparr>ds_seqno := ds_seqno ds + 1\<rparr>"

definition pager_port_start_read :: "dstruct \<Rightarrow> dstruct" where
  "pager_port_start_read ds = ds\<lparr>readers := readers ds + 1\<rparr>"

definition pager_port_wait_for_readers :: "dstruct \<Rightarrow> bool" where
  "pager_port_wait_for_readers ds \<longleftrightarrow> readers ds = 0"

definition pager_port_finish_read :: "dstruct \<Rightarrow> dstruct" where
  "pager_port_finish_read ds = ds\<lparr>readers := readers ds - 1\<rparr>"

definition pager_port_start_write :: "dstruct \<Rightarrow> dstruct" where
  "pager_port_start_write ds = ds\<lparr>writers := writers ds + 1\<rparr>"

definition pager_port_wait_for_writers :: "dstruct \<Rightarrow> bool" where
  "pager_port_wait_for_writers ds \<longleftrightarrow> writers ds = 0"

definition pager_port_finish_write :: "dstruct \<Rightarrow> dstruct" where
  "pager_port_finish_write ds = ds\<lparr>writers := writers ds - 1\<rparr>"

definition pager_port_wait_for_refs :: "dstruct \<Rightarrow> bool" where
  "pager_port_wait_for_refs ds \<longleftrightarrow> name_refs ds \<noteq> 0"

definition pager_port_check_request :: "dstruct \<Rightarrow> dstruct" where
  "pager_port_check_request ds =
     (let r = request_refs ds + 1 in ds\<lparr>request_refs := (if r > default_pager_max_urefs then 1 else r)\<rparr>)"

text \<open>A new object: a partition with room, else any partition, else none.\<close>

definition pager_port_alloc :: "nat \<Rightarrow> partitions \<Rightarrow> nat \<Rightarrow> dstruct outcome" where
  "pager_port_alloc pgsz ps bytes =
     (let part = choose_partition pgsz ps bytes P_INDEX_INVALID;
          part = (if no_partition part then choose_partition pgsz ps 0 P_INDEX_INVALID else part) in
      case pager_alloc pgsz part bytes of
        Inl e \<Rightarrow> Inl e
      | Inr d \<Rightarrow> Inr \<lparr>ds_seqno = 0, pager_request = 0, request_refs = 0, pager_name = 0, name_refs = 0,
                    readers = 0, writers = 0, ds_errors = 0, ds_dpager = d\<rparr>)"

section \<open>Requests and their steps\<close>

text \<open>The requests of the kernel. A data request says whether write access is wanted, in which
  case the block of the page is given up after the read; writes carry whole pages.\<close>

datatype request =
    Object_Init nat nat
  | Object_Terminate
  | Data_Request nat bool
  | Data_Initialize nat "u8 list list"
  | Data_Write nat "u8 list list"

datatype reply = Data_Supply "u8 list" | Data_Unavailable | Data_Error

text \<open>How far a request has got: received, inside \<open>pager_port_lock\<close>, transferring (with the number
  of pages done), answered, or done (with the answer that was sent, if any).\<close>

datatype phase = Received | Inside | Active nat | Answered reply | Done "reply option"

fun reply_of :: "pager_status \<times> u8 list \<Rightarrow> reply" where
  "reply_of (PAGER_SUCCESS, bs) = Data_Supply bs"
| "reply_of (PAGER_ABSENT, bs) = Data_Unavailable"
| "reply_of (PAGER_ERROR, bs) = Data_Error"

fun checks_request :: "request \<Rightarrow> bool" where
  "checks_request (Object_Init p nm) = False"
| "checks_request Object_Terminate = False"
| "checks_request r = True"

fun pages_of :: "request \<Rightarrow> (nat \<times> u8 list list) option" where
  "pages_of (Data_Write off pages) = Some (off, pages)"
| "pages_of (Data_Initialize off pages) = Some (off, pages)"
| "pages_of r = None"

definition seqnos_memory_object_init :: "nat \<Rightarrow> nat \<Rightarrow> dstruct \<Rightarrow> dstruct outcome" where
  "seqnos_memory_object_init request nm ds =
     (if pager_request ds \<noteq> MACH_PORT_NULL then Inl (Panics ''init'')
      else Inr (pager_port_unlock (ds\<lparr>pager_request := request, request_refs := 1, pager_name := nm, name_refs := 1\<rparr>)))"

definition seqnos_memory_object_terminate :: "dstruct \<Rightarrow> dstruct" where
  "seqnos_memory_object_terminate ds =
     pager_port_unlock (ds\<lparr>pager_request := MACH_PORT_NULL, request_refs := 0, pager_name := MACH_PORT_NULL, name_refs := 0\<rparr>)"

text \<open>The transfer of one page of a write; \<open>data_initialize\<close> leaves pages that exist.\<close>

definition write_page ::
  "nat \<Rightarrow> (nat \<Rightarrow> nat \<Rightarrow> u8 list \<Rightarrow> 'w \<Rightarrow> (nat \<times> 'w) option) \<Rightarrow> bool \<Rightarrow> nat \<Rightarrow> u8 list \<Rightarrow>
     partitions \<Rightarrow> 'w \<Rightarrow> dstruct \<Rightarrow> (partitions \<times> 'w \<times> dstruct) outcome" where
  "write_page pgsz wr keep offset bs ps w ds =
     (case (if keep then default_has_page pgsz (ds_dpager ds) offset else Inr False) of
        Inl e \<Rightarrow> Inl e
      | Inr True \<Rightarrow> Inr (ps, w, ds)
      | Inr False \<Rightarrow>
          (case default_write pgsz True wr w ps (ds_dpager ds) bs offset of
             Inl e \<Rightarrow> Inl e
           | Inr (st, w', ps', d') \<Rightarrow>
               Inr (ps', w', ds\<lparr>ds_dpager := d', ds_errors := (if st = PAGER_SUCCESS then ds_errors ds else ds_errors ds + 1)\<rparr>)))"

fun keeps_pages :: "request \<Rightarrow> bool" where
  "keeps_pages (Data_Initialize off pages) = True"
| "keeps_pages r = False"

record 'w port_sys =
  sys_parts :: partitions
  sys_disk :: 'w
  sys_ds :: dstruct
  sys_phase :: "nat \<Rightarrow> phase"

text \<open>The steps. \<open>reqs n\<close> is the request with sequence number \<open>n\<close>.\<close>

inductive port_step ::
  "(nat \<Rightarrow> request) \<Rightarrow> nat \<Rightarrow> (nat \<Rightarrow> nat \<Rightarrow> nat \<Rightarrow> 'w \<Rightarrow> u8 list option) \<Rightarrow>
     (nat \<Rightarrow> nat \<Rightarrow> u8 list \<Rightarrow> 'w \<Rightarrow> (nat \<times> 'w) option) \<Rightarrow> 'w port_sys \<Rightarrow> 'w port_sys \<Rightarrow> bool"
  for reqs pgsz rd wr where
  enter: "sys_phase s n = Received \<Longrightarrow> pager_port_lock (sys_ds s) n \<Longrightarrow>
     port_step reqs pgsz rd wr s
       (s\<lparr>sys_ds := (if checks_request (reqs n) then pager_port_check_request (sys_ds s) else sys_ds s),
          sys_phase := (sys_phase s)(n := Inside)\<rparr>)"
| init: "sys_phase s n = Inside \<Longrightarrow> reqs n = Object_Init p nm \<Longrightarrow> seqnos_memory_object_init p nm (sys_ds s) = Inr ds \<Longrightarrow>
     port_step reqs pgsz rd wr s (s\<lparr>sys_ds := ds, sys_phase := (sys_phase s)(n := Done None)\<rparr>)"
| terminate: "sys_phase s n = Inside \<Longrightarrow> reqs n = Object_Terminate \<Longrightarrow>
     pager_port_wait_for_readers (sys_ds s) \<Longrightarrow> pager_port_wait_for_writers (sys_ds s) \<Longrightarrow> pager_port_wait_for_refs (sys_ds s) \<Longrightarrow>
     port_step reqs pgsz rd wr s
       (s\<lparr>sys_ds := seqnos_memory_object_terminate (sys_ds s), sys_phase := (sys_phase s)(n := Done None)\<rparr>)"
| start_read: "sys_phase s n = Inside \<Longrightarrow> reqs n = Data_Request offset dealloc \<Longrightarrow> pager_port_wait_for_writers (sys_ds s) \<Longrightarrow>
     port_step reqs pgsz rd wr s
       (s\<lparr>sys_ds := pager_port_unlock (pager_port_start_read (sys_ds s)),
          sys_phase := (sys_phase s)(n := (if ds_errors (sys_ds s) \<noteq> 0 then Answered Data_Error else Active 0))\<rparr>)"
| get_page: "sys_phase s n = Active 0 \<Longrightarrow> reqs n = Data_Request offset dealloc \<Longrightarrow>
     default_read pgsz rd (sys_disk s) (sys_parts s) (ds_dpager (sys_ds s)) pgsz offset dealloc = Inr (st, bs, ps', d') \<Longrightarrow>
     port_step reqs pgsz rd wr s
       (s\<lparr>sys_parts := ps', sys_ds := (sys_ds s)\<lparr>ds_dpager := d'\<rparr>,
          sys_phase := (sys_phase s)(n := Answered (reply_of (st, bs)))\<rparr>)"
| finish_read: "sys_phase s n = Answered r \<Longrightarrow>
     port_step reqs pgsz rd wr s
       (s\<lparr>sys_ds := pager_port_finish_read (sys_ds s), sys_phase := (sys_phase s)(n := Done (Some r))\<rparr>)"
| start_write: "sys_phase s n = Inside \<Longrightarrow> pages_of (reqs n) = Some (offset, pages) \<Longrightarrow>
     port_step reqs pgsz rd wr s
       (s\<lparr>sys_ds := pager_port_unlock (pager_port_start_write (sys_ds s)), sys_phase := (sys_phase s)(n := Active 0)\<rparr>)"
| put_page: "sys_phase s n = Active i \<Longrightarrow> pages_of (reqs n) = Some (offset, pages) \<Longrightarrow> i < length pages \<Longrightarrow>
     write_page pgsz wr (keeps_pages (reqs n)) (offset + i * pgsz) (pages ! i) (sys_parts s) (sys_disk s) (sys_ds s) =
       Inr (ps', w', ds') \<Longrightarrow>
     port_step reqs pgsz rd wr s
       (s\<lparr>sys_parts := ps', sys_disk := w', sys_ds := ds', sys_phase := (sys_phase s)(n := Active (Suc i))\<rparr>)"
| finish_write: "sys_phase s n = Active i \<Longrightarrow> pages_of (reqs n) = Some (offset, pages) \<Longrightarrow> i = length pages \<Longrightarrow>
     port_step reqs pgsz rd wr s
       (s\<lparr>sys_ds := pager_port_finish_write (sys_ds s), sys_phase := (sys_phase s)(n := Done None)\<rparr>)"

definition port_start :: "'w \<Rightarrow> partitions \<Rightarrow> dstruct \<Rightarrow> 'w port_sys" where
  "port_start w ps ds = \<lparr>sys_parts = ps, sys_disk = w, sys_ds = ds, sys_phase = (\<lambda>_. Received)\<rparr>"

inductive port_run ::
  "(nat \<Rightarrow> request) \<Rightarrow> nat \<Rightarrow> (nat \<Rightarrow> nat \<Rightarrow> nat \<Rightarrow> 'w \<Rightarrow> u8 list option) \<Rightarrow>
     (nat \<Rightarrow> nat \<Rightarrow> u8 list \<Rightarrow> 'w \<Rightarrow> (nat \<times> 'w) option) \<Rightarrow> 'w port_sys \<Rightarrow> 'w port_sys \<Rightarrow> bool"
  for reqs pgsz rd wr s where
  none: "port_run reqs pgsz rd wr s s"
| step: "port_run reqs pgsz rd wr s t \<Longrightarrow> port_step reqs pgsz rd wr t u \<Longrightarrow> port_run reqs pgsz rd wr s u"

inductive_cases port_stepE: "port_step reqs pgsz rd wr s t"

section \<open>The order of requests\<close>

fun busy :: "phase \<Rightarrow> bool" where
  "busy (Active i) = True" | "busy (Answered r) = True" | "busy p = False"

fun finished :: "phase \<Rightarrow> bool" where
  "finished (Done r) = True" | "finished p = False"

fun is_read :: "request \<Rightarrow> bool" where
  "is_read (Data_Request offset dealloc) = True" | "is_read r = False"

definition is_write :: "request \<Rightarrow> bool" where
  "is_write r \<longleftrightarrow> pages_of r \<noteq> None"

definition order_ok :: "(nat \<Rightarrow> request) \<Rightarrow> dstruct \<Rightarrow> (nat \<Rightarrow> phase) \<Rightarrow> bool" where
  "order_ok reqs ds ph \<longleftrightarrow>
     (\<forall>n. busy (ph n) \<or> finished (ph n) \<longleftrightarrow> n < ds_seqno ds) \<and> (\<forall>n. ph n = Inside \<longrightarrow> n = ds_seqno ds) \<and>
     (\<forall>n. busy (ph n) \<longrightarrow> is_read (reqs n) \<or> is_write (reqs n)) \<and>
     readers ds = card {n. is_read (reqs n) \<and> busy (ph n)} \<and> writers ds = card {n. is_write (reqs n) \<and> busy (ph n)} \<and>
     (\<forall>n < ds_seqno ds. is_read (reqs n) \<longrightarrow> (\<forall>m < n. is_write (reqs m) \<longrightarrow> finished (ph m))) \<and>
     (\<forall>n < ds_seqno ds. reqs n = Object_Terminate \<longrightarrow> (\<forall>m < n. finished (ph m)))"

lemma is_write_simps [simp]:
  "\<not> is_write (Object_Init p nm)" "\<not> is_write Object_Terminate" "\<not> is_write (Data_Request offset dealloc)"
  "is_write (Data_Initialize offset pages)" "is_write (Data_Write offset pages)"
  by (simp_all add: is_write_def)

lemma is_read_not_write: "is_read r \<Longrightarrow> \<not> is_write r"
  by (cases r) simp_all

lemma busy_set_update:
  "{k. P k \<and> busy ((ph(n := x)) k)} = (if P n \<and> busy x then insert n {k. P k \<and> busy (ph k)} else {k. P k \<and> busy (ph k)} - {n})"
  by auto

lemma busy_finite: "order_ok reqs ds ph \<Longrightarrow> finite {k. P k \<and> busy (ph k)}"
  by (rule finite_subset [of _ "{..<ds_seqno ds}"]) (auto simp: order_ok_def)

text \<open>A request starts when it is its turn. The guards are those of the waits.\<close>

lemma order_start:
  assumes ok: "order_ok reqs ds ph" and n: "ph n = Inside" and x: "busy x \<or> finished x" "busy x \<Longrightarrow> is_read (reqs n) \<or> is_write (reqs n)"
    and ds': "ds_seqno ds' = ds_seqno ds + 1"
      "readers ds' = readers ds + (if is_read (reqs n) \<and> busy x then 1 else 0)"
      "writers ds' = writers ds + (if is_write (reqs n) \<and> busy x then 1 else 0)"
    and guard: "is_read (reqs n) \<Longrightarrow> writers ds = 0" "reqs n = Object_Terminate \<Longrightarrow> readers ds = 0 \<and> writers ds = 0"
  shows "order_ok reqs ds' (ph(n := x))"
proof -
  have nq: "n = ds_seqno ds" using ok n by (simp add: order_ok_def)
  have nb: "\<not> busy (ph n)" "\<not> finished (ph n)" using n by simp_all
  have card: "card {k. P k \<and> busy ((ph(n := x)) k)} = card {k. P k \<and> busy (ph k)} + (if P n \<and> busy x then 1 else 0)" for P
    using busy_finite [OF ok, of P] nb(1) unfolding busy_set_update by (auto simp: card_insert_if)
  have wdone: "finished (ph m)" if "writers ds = 0" "m < n" "is_write (reqs m)" for m
  proof -
    have "{k. is_write (reqs k) \<and> busy (ph k)} = {}" using that(1) ok busy_finite [OF ok, of "\<lambda>k. is_write (reqs k)"]
      by (simp add: order_ok_def)
    moreover have "busy (ph m) \<or> finished (ph m)" using ok that(2) nq by (simp add: order_ok_def)
    ultimately show ?thesis using that(3) by auto
  qed
  have rdone: "finished (ph m)" if "readers ds = 0" "m < n" "is_read (reqs m)" for m
  proof -
    have "{k. is_read (reqs k) \<and> busy (ph k)} = {}" using that(1) ok busy_finite [OF ok, of "\<lambda>k. is_read (reqs k)"]
      by (simp add: order_ok_def)
    moreover have "busy (ph m) \<or> finished (ph m)" using ok that(2) nq by (simp add: order_ok_def)
    ultimately show ?thesis using that(3) by auto
  qed
  have all: "finished (ph m)" if "readers ds = 0" "writers ds = 0" "m < n" for m
  proof -
    have "busy (ph m) \<or> finished (ph m)" "busy (ph m) \<Longrightarrow> is_read (reqs m) \<or> is_write (reqs m)"
      using ok that(3) nq by (simp_all add: order_ok_def)
    then show ?thesis using wdone [OF that(2,3)] rdone [OF that(1,3)] by blast
  qed
  have "\<forall>k < ds_seqno ds + 1. is_read (reqs k) \<longrightarrow> (\<forall>m < k. is_write (reqs m) \<longrightarrow> finished ((ph(n := x)) m))"
    using ok wdone guard(1) nq by (auto simp: order_ok_def less_Suc_eq)
  moreover have "\<forall>k < ds_seqno ds + 1. reqs k = Object_Terminate \<longrightarrow> (\<forall>m < k. finished ((ph(n := x)) m))"
    using ok all guard(2) nq by (auto simp: order_ok_def less_Suc_eq)
  moreover have "\<forall>k. busy ((ph(n := x)) k) \<or> finished ((ph(n := x)) k) \<longleftrightarrow> k < ds_seqno ds + 1"
    using ok x(1) nq by (auto simp: order_ok_def less_Suc_eq)
  moreover have "\<forall>k. (ph(n := x)) k = Inside \<longrightarrow> k = ds_seqno ds + 1"
    using ok x(1) nq by (auto simp: order_ok_def)
  moreover have "\<forall>k. busy ((ph(n := x)) k) \<longrightarrow> is_read (reqs k) \<or> is_write (reqs k)"
    using ok x(2) by (simp add: order_ok_def)
  moreover have "readers ds' = card {k. is_read (reqs k) \<and> busy ((ph(n := x)) k)}"
    "writers ds' = card {k. is_write (reqs k) \<and> busy ((ph(n := x)) k)}"
    unfolding card ds'(2,3) using ok by (simp_all add: order_ok_def)
  ultimately show ?thesis unfolding order_ok_def ds'(1) by blast
qed

text \<open>A running request goes on or ends.\<close>

lemma order_continue:
  assumes ok: "order_ok reqs ds ph" and n: "busy (ph n)" and x: "busy x \<or> finished x"
    and ds': "ds_seqno ds' = ds_seqno ds"
      "readers ds' = readers ds - (if is_read (reqs n) \<and> \<not> busy x then 1 else 0)"
      "writers ds' = writers ds - (if is_write (reqs n) \<and> \<not> busy x then 1 else 0)"
  shows "order_ok reqs ds' (ph(n := x))"
proof -
  have card: "card {k. P k \<and> busy ((ph(n := x)) k)} = card {k. P k \<and> busy (ph k)} - (if P n \<and> \<not> busy x then 1 else 0)" for P
    using busy_finite [OF ok, of P] n unfolding busy_set_update by (auto simp: insert_absorb)
  have fin: "finished (ph m) \<Longrightarrow> finished ((ph(n := x)) m)" for m using n by (cases "ph n") auto
  have o: "\<And>k m. k < ds_seqno ds \<Longrightarrow> is_read (reqs k) \<Longrightarrow> m < k \<Longrightarrow> is_write (reqs m) \<Longrightarrow> finished (ph m)"
    "\<And>k m. k < ds_seqno ds \<Longrightarrow> reqs k = Object_Terminate \<Longrightarrow> m < k \<Longrightarrow> finished (ph m)"
    using ok by (simp_all add: order_ok_def)
  have "\<forall>k < ds_seqno ds. is_read (reqs k) \<longrightarrow> (\<forall>m < k. is_write (reqs m) \<longrightarrow> finished ((ph(n := x)) m))"
    "\<forall>k < ds_seqno ds. reqs k = Object_Terminate \<longrightarrow> (\<forall>m < k. finished ((ph(n := x)) m))"
    by (intro allI impI fin, erule (3) o, intro allI impI fin, erule (2) o)
  moreover have "\<forall>k. busy ((ph(n := x)) k) \<or> finished ((ph(n := x)) k) \<longleftrightarrow> k < ds_seqno ds"
    "\<forall>k. (ph(n := x)) k = Inside \<longrightarrow> k = ds_seqno ds" "\<forall>k. busy ((ph(n := x)) k) \<longrightarrow> is_read (reqs k) \<or> is_write (reqs k)"
    using ok x n by (auto simp: order_ok_def)
  moreover have "readers ds' = card {k. is_read (reqs k) \<and> busy ((ph(n := x)) k)}"
    "writers ds' = card {k. is_write (reqs k) \<and> busy ((ph(n := x)) k)}"
    unfolding card ds'(2,3) using ok by (simp_all add: order_ok_def)
  ultimately show ?thesis unfolding order_ok_def ds'(1) by blast
qed

lemma order_enter:
  "order_ok reqs ds ph \<Longrightarrow> ph n = Received \<Longrightarrow> n = ds_seqno ds \<Longrightarrow>
   order_ok reqs (ds\<lparr>request_refs := r\<rparr>) (ph(n := Inside)) \<and> order_ok reqs ds (ph(n := Inside))"
  unfolding order_ok_def busy_set_update by auto

section \<open>Transfers\<close>

text \<open>What the read of a page of the object would give.\<close>

definition object_page ::
  "nat \<Rightarrow> (nat \<Rightarrow> nat \<Rightarrow> nat \<Rightarrow> 'w \<Rightarrow> u8 list option) \<Rightarrow> partitions \<Rightarrow> 'w \<Rightarrow> dstruct \<Rightarrow> nat \<Rightarrow> (pager_status \<times> u8 list) outcome" where
  "object_page pgsz rd ps w ds offset = page_data pgsz rd w ps (ds_dpager ds) offset"

definition transfer_ok ::
  "nat \<Rightarrow> (nat \<Rightarrow> nat \<Rightarrow> nat \<Rightarrow> 'w \<Rightarrow> u8 list option) \<Rightarrow> nat set \<Rightarrow> partitions \<Rightarrow> 'w \<Rightarrow> dstruct \<Rightarrow>
     partitions \<Rightarrow> 'w \<Rightarrow> dstruct \<Rightarrow> bool" where
  "transfer_ok pgsz rd touched ps w ds ps' w' ds' \<longleftrightarrow>
     pager_sys_ok ps' [ds_dpager ds'] \<and> dp_size (ds_dpager ds) \<le> dp_size (ds_dpager ds') \<and>
     ds_errors ds \<le> ds_errors ds' \<and>
     (\<forall>g. atop pgsz g \<notin> touched \<and> atop pgsz g < dp_size (ds_dpager ds) \<longrightarrow>
        object_page pgsz rd ps' w' ds' g = object_page pgsz rd ps w ds g)"

lemma write_page_ok:
  assumes sys: "pager_sys_ok ps [ds_dpager ds]" and disk: "disk_ok pgsz rd wr" and pg: "0 < pgsz" and bs: "length bs = pgsz"
    and run: "write_page pgsz wr keep offset bs ps w ds = Inr (ps', w', ds')"
  shows "transfer_ok pgsz rd {atop pgsz offset} ps w ds ps' w' ds'"
    "ds' = ds\<lparr>ds_dpager := ds_dpager ds', ds_errors := ds_errors ds'\<rparr>"
    "\<not> keep \<Longrightarrow> ds_errors ds' = ds_errors ds \<Longrightarrow>
       atop pgsz offset < dp_size (ds_dpager ds') \<and> object_page pgsz rd ps' w' ds' offset = Inr (PAGER_SUCCESS, bs)"
proof -
  let ?d = "ds_dpager ds"
  have "(0::nat) < length [?d]" by simp
  from default_write_ok [OF sys this pg disk bs, where w = w and offset = offset] obtain st w1 ps1 d1 where
    w: "default_write pgsz True wr w ps ?d bs offset = Inr (st, w1, ps1, d1)" "pager_sys_ok ps1 [d1]" "dp_size ?d \<le> dp_size d1"
      "st = PAGER_SUCCESS \<and> atop pgsz offset < dp_size d1 \<and> page_data pgsz rd w1 ps1 d1 offset = Inr (PAGER_SUCCESS, bs) \<or>
       st = PAGER_ERROR \<and> usable ps = {}"
      "\<forall>g. atop pgsz g < dp_size ?d \<and> atop pgsz g \<noteq> atop pgsz offset \<longrightarrow>
         page_data pgsz rd w1 ps1 d1 g = page_data pgsz rd w ps ?d g" by auto
  consider (kept) "keep" "ps' = ps" "w' = w" "ds' = ds"
    | (written) "ps' = ps1" "w' = w1"
        "ds' = ds\<lparr>ds_dpager := d1, ds_errors := (if st = PAGER_SUCCESS then ds_errors ds else ds_errors ds + 1)\<rparr>"
    using run w(1) by (auto simp: write_page_def split: sum.splits bool.splits if_splits)
  then have "transfer_ok pgsz rd {atop pgsz offset} ps w ds ps' w' ds' \<and> ds' = ds\<lparr>ds_dpager := ds_dpager ds', ds_errors := ds_errors ds'\<rparr> \<and>
     (\<not> keep \<longrightarrow> ds_errors ds' = ds_errors ds \<longrightarrow>
       atop pgsz offset < dp_size (ds_dpager ds') \<and> object_page pgsz rd ps' w' ds' offset = Inr (PAGER_SUCCESS, bs))"
  proof cases
    case kept
    then show ?thesis using sys by (auto simp: transfer_ok_def)
  next
    case written
    then show ?thesis using w(2-5) by (auto simp: transfer_ok_def object_page_def)
  qed
  then show "transfer_ok pgsz rd {atop pgsz offset} ps w ds ps' w' ds'" "ds' = ds\<lparr>ds_dpager := ds_dpager ds', ds_errors := ds_errors ds'\<rparr>"
    "\<not> keep \<Longrightarrow> ds_errors ds' = ds_errors ds \<Longrightarrow>
       atop pgsz offset < dp_size (ds_dpager ds') \<and> object_page pgsz rd ps' w' ds' offset = Inr (PAGER_SUCCESS, bs)"
    by blast+
qed

lemma write_page_returns:
  assumes sys: "pager_sys_ok ps [ds_dpager ds]" and disk: "disk_ok pgsz rd wr" and pg: "0 < pgsz" and bs: "length bs = pgsz"
  shows "\<exists>r. write_page pgsz wr False offset bs ps w ds = Inr r"
proof -
  have "(0::nat) < length [ds_dpager ds]" by simp
  from default_write_ok [OF sys this pg disk bs, where w = w and offset = offset] show ?thesis
    by (auto simp: write_page_def)
qed

lemma read_page_ok:
  assumes sys: "pager_sys_ok ps [ds_dpager ds]" and disk: "disk_ok pgsz rd wr"
    and run: "default_read pgsz rd w ps (ds_dpager ds) pgsz offset dealloc = Inr (st, bs, ps', d')"
  shows "transfer_ok pgsz rd (if dealloc then {atop pgsz offset} else {}) ps w ds ps' w (ds\<lparr>ds_dpager := d'\<rparr>)"
    "object_page pgsz rd ps w ds offset = Inr (st, bs)" "atop pgsz offset < dp_size (ds_dpager ds)"
proof -
  show in_range: "atop pgsz offset < dp_size (ds_dpager ds)"
    using run by (auto simp: default_read_def pager_read_offset_def Let_def split: if_splits)
  have l: "(0::nat) < length [ds_dpager ds]" by simp
  have r: "atop pgsz offset < dp_size ([ds_dpager ds] ! 0)" using in_range by simp
  from default_read_ok [OF disk sys l r, of w dealloc] run have
    "page_data pgsz rd w ps (ds_dpager ds) offset = Inr (st, bs)" "pager_sys_ok ps' [d']" "dp_size d' = dp_size (ds_dpager ds)"
    "\<forall>g. (dealloc \<longrightarrow> atop pgsz g \<noteq> atop pgsz offset) \<and> atop pgsz g < dp_size (ds_dpager ds) \<longrightarrow>
        page_data pgsz rd w ps' d' g = page_data pgsz rd w ps (ds_dpager ds) g" by auto
  then show "transfer_ok pgsz rd (if dealloc then {atop pgsz offset} else {}) ps w ds ps' w (ds\<lparr>ds_dpager := d'\<rparr>)"
    "object_page pgsz rd ps w ds offset = Inr (st, bs)"
    by (auto simp: transfer_ok_def object_page_def)
qed

end
