(* ===== verification/PagerProtocol.thy ===== *)
theory PagerProtocol
  imports PagerPort
begin

text \<open>
  What the request protocol of the default pager guarantees in every interleaving: reads start
  after the earlier writes have ended, the blocks stay consistent, a page that was written is the
  page that is read, and the service of requests does not get stuck.
\<close>

section \<open>The invariant\<close>

definition port_inv :: "(nat \<Rightarrow> request) \<Rightarrow> 'w port_sys \<Rightarrow> bool" where
  "port_inv reqs s \<longleftrightarrow>
     order_ok reqs (sys_ds s) (sys_phase s) \<and> pager_sys_ok (sys_parts s) [ds_dpager (sys_ds s)] \<and>
     (\<forall>n r. sys_phase s n = Answered r \<longrightarrow> is_read (reqs n)) \<and>
     (\<forall>n i. sys_phase s n = Active i \<longrightarrow>
        is_read (reqs n) \<and> i = 0 \<or> (\<exists>offset pages. pages_of (reqs n) = Some (offset, pages) \<and> i \<le> length pages)) \<and>
     request_refs (sys_ds s) \<le> default_pager_max_urefs"

text \<open>Writes carry whole pages.\<close>

definition whole_pages :: "nat \<Rightarrow> (nat \<Rightarrow> request) \<Rightarrow> bool" where
  "whole_pages pgsz reqs \<longleftrightarrow>
     (\<forall>n offset pages. pages_of (reqs n) = Some (offset, pages) \<longrightarrow> (\<forall>p \<in> set pages. length p = pgsz))"

lemmas port_defs = pager_port_unlock_def pager_port_start_read_def pager_port_finish_read_def
  pager_port_start_write_def pager_port_finish_write_def pager_port_wait_for_readers_def
  pager_port_wait_for_writers_def pager_port_wait_for_refs_def pager_port_lock_def

lemma pages_is_write: "pages_of r = Some x \<Longrightarrow> is_write r \<and> \<not> is_read r \<and> r \<noteq> Object_Terminate"
  by (cases r) (auto simp: is_write_def)

lemma port_inv_order: "port_inv reqs s \<Longrightarrow> order_ok reqs (sys_ds s) (sys_phase s)"
  by (simp add: port_inv_def)

lemma port_inv_update:
  assumes inv: "port_inv reqs s" and ord: "order_ok reqs ds ((sys_phase s)(n := x))"
    and sys: "pager_sys_ok ps [ds_dpager ds]" and refs: "request_refs ds \<le> default_pager_max_urefs"
    and x: "\<And>r. x = Answered r \<Longrightarrow> is_read (reqs n)"
      "\<And>i. x = Active i \<Longrightarrow> is_read (reqs n) \<and> i = 0 \<or> (\<exists>offset pages. pages_of (reqs n) = Some (offset, pages) \<and> i \<le> length pages)"
  shows "port_inv reqs (s\<lparr>sys_parts := ps, sys_disk := w, sys_ds := ds, sys_phase := (sys_phase s)(n := x)\<rparr>)"
  using assms by (auto simp: port_inv_def)

lemma port_step_inv:
  assumes disk: "disk_ok pgsz rd wr" and pg: "0 < pgsz" and whole: "whole_pages pgsz reqs"
  shows "port_step reqs pgsz rd wr s t \<Longrightarrow> port_inv reqs s \<Longrightarrow> port_inv reqs t"
proof (induction rule: port_step.induct)
  case (enter s n)
  let ?ds = "sys_ds s"
  have o: "order_ok reqs (?ds\<lparr>request_refs := r\<rparr>) ((sys_phase s)(n := Inside)) \<and> order_ok reqs ?ds ((sys_phase s)(n := Inside))" for r
    using order_enter [OF port_inv_order [OF enter.prems] enter.hyps(1)] enter.hyps(2) by (simp add: port_defs)
  have "port_inv reqs (s\<lparr>sys_parts := sys_parts s, sys_disk := sys_disk s,
      sys_ds := if checks_request (reqs n) then pager_port_check_request ?ds else ?ds, sys_phase := (sys_phase s)(n := Inside)\<rparr>)"
    using o enter.prems
    by (intro port_inv_update) (auto simp: port_inv_def pager_port_check_request_def Let_def default_pager_max_urefs_def)
  then show ?case by simp
next
  case (init s n p nm ds)
  have ds: "ds = pager_port_unlock ((sys_ds s)\<lparr>pager_request := p, request_refs := 1, pager_name := nm, name_refs := 1\<rparr>)"
    using init.hyps(3) by (auto simp: seqnos_memory_object_init_def split: if_splits)
  have "order_ok reqs ds ((sys_phase s)(n := Done None))"
    by (rule order_start [OF port_inv_order [OF init.prems] init.hyps(1)]) (simp_all add: ds init.hyps(2) port_defs)
  then have "port_inv reqs (s\<lparr>sys_parts := sys_parts s, sys_disk := sys_disk s, sys_ds := ds, sys_phase := (sys_phase s)(n := Done None)\<rparr>)"
    using init.prems by (intro port_inv_update) (auto simp: port_inv_def ds port_defs default_pager_max_urefs_def)
  then show ?case by simp
next
  case (terminate s n)
  let ?ds = "seqnos_memory_object_terminate (sys_ds s)"
  have "order_ok reqs ?ds ((sys_phase s)(n := Done None))"
    by (rule order_start [OF port_inv_order [OF terminate.prems] terminate.hyps(1)])
      (use terminate.hyps in \<open>simp_all add: seqnos_memory_object_terminate_def port_defs\<close>)
  then have "port_inv reqs (s\<lparr>sys_parts := sys_parts s, sys_disk := sys_disk s, sys_ds := ?ds, sys_phase := (sys_phase s)(n := Done None)\<rparr>)"
    using terminate.prems by (intro port_inv_update) (auto simp: port_inv_def seqnos_memory_object_terminate_def port_defs)
  then show ?case by simp
next
  case (start_read s n offset dealloc)
  let ?ds = "pager_port_unlock (pager_port_start_read (sys_ds s))"
    and ?x = "if ds_errors (sys_ds s) \<noteq> 0 then Answered Data_Error else Active 0"
  have "order_ok reqs ?ds ((sys_phase s)(n := ?x))"
    by (rule order_start [OF port_inv_order [OF start_read.prems] start_read.hyps(1)])
      (use start_read.hyps in \<open>simp_all add: port_defs\<close>)
  then have "port_inv reqs (s\<lparr>sys_parts := sys_parts s, sys_disk := sys_disk s, sys_ds := ?ds, sys_phase := (sys_phase s)(n := ?x)\<rparr>)"
    using start_read.prems start_read.hyps(2) by (intro port_inv_update) (auto simp: port_inv_def port_defs split: if_splits)
  then show ?case by simp
next
  case (get_page s n offset dealloc st bs ps' d')
  let ?ds = "(sys_ds s)\<lparr>ds_dpager := d'\<rparr>"
  have sys: "pager_sys_ok (sys_parts s) [ds_dpager (sys_ds s)]" using get_page.prems by (simp add: port_inv_def)
  have "order_ok reqs ?ds ((sys_phase s)(n := Answered (reply_of (st, bs))))"
    by (rule order_continue [OF port_inv_order [OF get_page.prems]]) (simp_all add: get_page.hyps(1))
  then have "port_inv reqs (s\<lparr>sys_parts := ps', sys_disk := sys_disk s, sys_ds := ?ds, sys_phase := (sys_phase s)(n := Answered (reply_of (st, bs)))\<rparr>)"
    using read_page_ok(1) [OF sys disk get_page.hyps(3)] get_page.prems get_page.hyps(2)
    by (intro port_inv_update) (auto simp: port_inv_def transfer_ok_def)
  then show ?case by simp
next
  case (finish_read s n r)
  let ?ds = "pager_port_finish_read (sys_ds s)"
  have rd: "is_read (reqs n)" using finish_read by (simp add: port_inv_def)
  have "order_ok reqs ?ds ((sys_phase s)(n := Done (Some r)))"
    by (rule order_continue [OF port_inv_order [OF finish_read.prems]])
      (simp_all add: finish_read.hyps(1) rd is_read_not_write port_defs)
  then have "port_inv reqs (s\<lparr>sys_parts := sys_parts s, sys_disk := sys_disk s, sys_ds := ?ds, sys_phase := (sys_phase s)(n := Done (Some r))\<rparr>)"
    using finish_read.prems by (intro port_inv_update) (auto simp: port_inv_def port_defs)
  then show ?case by simp
next
  case (start_write s n offset pages)
  let ?ds = "pager_port_unlock (pager_port_start_write (sys_ds s))"
  have "order_ok reqs ?ds ((sys_phase s)(n := Active 0))"
    by (rule order_start [OF port_inv_order [OF start_write.prems] start_write.hyps(1)])
      (use pages_is_write [OF start_write.hyps(2)] in \<open>simp_all add: port_defs\<close>)
  then have "port_inv reqs (s\<lparr>sys_parts := sys_parts s, sys_disk := sys_disk s, sys_ds := ?ds, sys_phase := (sys_phase s)(n := Active 0)\<rparr>)"
    using start_write.prems start_write.hyps(2) by (intro port_inv_update) (auto simp: port_inv_def port_defs)
  then show ?case by simp
next
  case (put_page s n i offset pages ps' w' ds')
  have sys: "pager_sys_ok (sys_parts s) [ds_dpager (sys_ds s)]" using put_page.prems by (simp add: port_inv_def)
  have "length (pages ! i) = pgsz" using whole put_page.hyps(2,3) unfolding whole_pages_def by (meson nth_mem)
  note w = write_page_ok [OF sys disk pg this put_page.hyps(4)]
  have "readers ds' = readers (sys_ds s) \<and> writers ds' = writers (sys_ds s) \<and> ds_seqno ds' = ds_seqno (sys_ds s) \<and>
      request_refs ds' = request_refs (sys_ds s)"
    by (subst (1 2 3 4) w(2)) simp
  then have f: "readers ds' = readers (sys_ds s)" "writers ds' = writers (sys_ds s)" "ds_seqno ds' = ds_seqno (sys_ds s)"
    "request_refs ds' = request_refs (sys_ds s)" by simp_all
  have "order_ok reqs ds' ((sys_phase s)(n := Active (Suc i)))"
    by (rule order_continue [OF port_inv_order [OF put_page.prems]]) (simp_all add: put_page.hyps(1) f)
  then have "port_inv reqs (s\<lparr>sys_parts := ps', sys_disk := w', sys_ds := ds', sys_phase := (sys_phase s)(n := Active (Suc i))\<rparr>)"
    using w(1) put_page.prems put_page.hyps(2,3) f by (intro port_inv_update) (auto simp: port_inv_def transfer_ok_def)
  then show ?case .
next
  case (finish_write s n i offset pages)
  let ?ds = "pager_port_finish_write (sys_ds s)"
  have "order_ok reqs ?ds ((sys_phase s)(n := Done None))"
    by (rule order_continue [OF port_inv_order [OF finish_write.prems]])
      (use pages_is_write [OF finish_write.hyps(2)] in \<open>simp_all add: finish_write.hyps(1) port_defs\<close>)
  then have "port_inv reqs (s\<lparr>sys_parts := sys_parts s, sys_disk := sys_disk s, sys_ds := ?ds, sys_phase := (sys_phase s)(n := Done None)\<rparr>)"
    using finish_write.prems by (intro port_inv_update) (auto simp: port_inv_def port_defs)
  then show ?case by simp
qed

lemma pager_port_alloc_ok:
  assumes "parts_ok ps"
  shows "\<exists>ds. pager_port_alloc pgsz ps bytes = Inr ds \<and> port_inv reqs (port_start w ps ds) \<and>
     atop pgsz bytes \<le> dp_size (ds_dpager ds) \<and> ds_errors ds = 0"
proof -
  let ?p = "choose_partition pgsz ps bytes P_INDEX_INVALID"
  let ?part = "if no_partition ?p then choose_partition pgsz ps 0 P_INDEX_INVALID else ?p"
  from pager_alloc_ok [of pgsz ?part bytes] obtain d where
    d: "pager_alloc pgsz ?part bytes = Inr d" "pager_ok d" "atop pgsz bytes \<le> dp_size d" "cur_partition d = ?part"
      "entry (dmap d) = (\<lambda>_. NO_BLOCK)" by blast
  have "index_ok ps (cur_partition d)" using choose_partition_index [OF assms] d(4) by simp
  moreover have "mapped [d] = {}" using d(5) by (auto simp: mapped_def)
  ultimately have "pager_sys_ok ps [d]" using d(2) assms by (simp add: pager_sys_ok_def)
  then show ?thesis using d(1,3)
    by (simp add: pager_port_alloc_def Let_def port_inv_def port_start_def order_ok_def default_pager_max_urefs_def)
qed

lemma port_run_inv:
  assumes "disk_ok pgsz rd wr" "0 < pgsz" "whole_pages pgsz reqs"
  shows "port_run reqs pgsz rd wr s t \<Longrightarrow> port_inv reqs s \<Longrightarrow> port_inv reqs t"
  by (induction rule: port_run.induct) (auto intro: port_step_inv [OF assms])

text \<open>The states reached from a new object.\<close>

lemma port_reach:
  assumes "disk_ok pgsz rd wr" "0 < pgsz" "whole_pages pgsz reqs" "parts_ok ps" "pager_port_alloc pgsz ps bytes = Inr ds"
    "port_run reqs pgsz rd wr (port_start w ps ds) s"
  shows "port_inv reqs s"
  using port_run_inv [OF assms(1-3,6)] pager_port_alloc_ok [OF assms(4), of pgsz bytes reqs w] assms(5) by auto

section \<open>Data\<close>

text \<open>The pages whose blocks a request changes.\<close>

definition touches :: "nat \<Rightarrow> request \<Rightarrow> nat \<Rightarrow> bool" where
  "touches pgsz r f \<longleftrightarrow>
     (case r of Data_Request offset dealloc \<Rightarrow> dealloc \<and> f = atop pgsz offset
      | _ \<Rightarrow> (case pages_of r of Some (offset, pages) \<Rightarrow> (\<exists>j < length pages. f = atop pgsz (offset + j * pgsz)) | None \<Rightarrow> False))"

text \<open>Every step moves one request on and changes at most the pages of that request.\<close>

definition page_same :: "nat \<Rightarrow> (nat \<Rightarrow> nat \<Rightarrow> nat \<Rightarrow> 'w \<Rightarrow> u8 list option) \<Rightarrow> 'w port_sys \<Rightarrow> 'w port_sys \<Rightarrow> nat \<Rightarrow> bool" where
  "page_same pgsz rd s t f \<longleftrightarrow>
     (f < dp_size (ds_dpager (sys_ds s)) \<longrightarrow> f < dp_size (ds_dpager (sys_ds t)) \<and>
        (\<forall>g. atop pgsz g = f \<longrightarrow> object_page pgsz rd (sys_parts t) (sys_disk t) (sys_ds t) g =
           object_page pgsz rd (sys_parts s) (sys_disk s) (sys_ds s) g))"

lemma page_same_refl [simp]:
  "ds_dpager ds = ds_dpager (sys_ds s) \<Longrightarrow> page_same pgsz rd s (s\<lparr>sys_ds := ds, sys_phase := ph\<rparr>) f"
  by (simp add: page_same_def object_page_def)

lemma port_step_frame:
  assumes disk: "disk_ok pgsz rd wr" and pg: "0 < pgsz" and whole: "whole_pages pgsz reqs"
  shows "port_step reqs pgsz rd wr s t \<Longrightarrow> port_inv reqs s \<Longrightarrow>
     ds_errors (sys_ds s) \<le> ds_errors (sys_ds t) \<and>
     (\<exists>k x. sys_phase t = (sys_phase s)(k := x) \<and> x \<noteq> sys_phase s k \<and> (\<forall>f. \<not> touches pgsz (reqs k) f \<longrightarrow> page_same pgsz rd s t f))"
proof (induction rule: port_step.induct)
  case (get_page s n offset dealloc st bs ps' d')
  have sys: "pager_sys_ok (sys_parts s) [ds_dpager (sys_ds s)]" using get_page.prems by (simp add: port_inv_def)
  from read_page_ok(1) [OF sys disk get_page.hyps(3)] get_page.hyps(1,2) show ?case
    by (fastforce simp: transfer_ok_def page_same_def touches_def intro!: exI [of _ n])
next
  case (put_page s n i offset pages ps' w' ds')
  have sys: "pager_sys_ok (sys_parts s) [ds_dpager (sys_ds s)]" using put_page.prems by (simp add: port_inv_def)
  have l: "length (pages ! i) = pgsz" using whole put_page.hyps(2,3) unfolding whole_pages_def by (meson nth_mem)
  have "touches pgsz (reqs n) (atop pgsz (offset + i * pgsz))"
    using put_page.hyps(2,3) by (cases "reqs n") (auto simp: touches_def)
  then have "f \<noteq> atop pgsz (offset + i * pgsz)" if "\<not> touches pgsz (reqs n) f" for f using that by auto
  with write_page_ok(1) [OF sys disk pg l put_page.hyps(4)] put_page.hyps(1) show ?case
    by (auto simp: transfer_ok_def page_same_def intro!: exI [of _ n] exI [of _ "Active (Suc i)"])
next
  case (init s n p nm ds)
  then show ?case
    by (auto simp: seqnos_memory_object_init_def port_defs split: if_splits intro!: exI [of _ n] exI [of _ "Done None"])
qed (auto simp: port_defs seqnos_memory_object_terminate_def pager_port_check_request_def Let_def intro!: exI)

lemma page_data_offset:
  assumes "atop pgsz g = atop pgsz h"
  shows "page_data pgsz rd w ps d g = page_data pgsz rd w ps d h"
  unfolding page_data_def default_read_def pager_read_offset_def pager_release_offset_def Let_def assms ..

text \<open>A write \<open>m\<close> of the page \<open>bs\<close> as its \<open>i\<close>-th page, and a later data request \<open>n\<close> for that page.\<close>

definition page_good :: "nat \<Rightarrow> (nat \<Rightarrow> nat \<Rightarrow> nat \<Rightarrow> 'w \<Rightarrow> u8 list option) \<Rightarrow> nat \<Rightarrow> u8 list \<Rightarrow> 'w port_sys \<Rightarrow> bool" where
  "page_good pgsz rd g bs s \<longleftrightarrow> atop pgsz g < dp_size (ds_dpager (sys_ds s)) \<and>
     object_page pgsz rd (sys_parts s) (sys_disk s) (sys_ds s) g = Inr (PAGER_SUCCESS, bs)"

definition data_inv ::
  "nat \<Rightarrow> (nat \<Rightarrow> nat \<Rightarrow> nat \<Rightarrow> 'w \<Rightarrow> u8 list option) \<Rightarrow> nat \<Rightarrow> nat \<Rightarrow> u8 list \<Rightarrow> nat \<Rightarrow> nat \<Rightarrow> 'w port_sys \<Rightarrow> bool" where
  "data_inv pgsz rd m i bs n g s \<longleftrightarrow>
     (((\<exists>k > i. sys_phase s m = Active k) \<or> finished (sys_phase s m)) \<and> \<not> busy (sys_phase s n) \<and> \<not> finished (sys_phase s n) \<longrightarrow>
        ds_errors (sys_ds s) \<noteq> 0 \<or> page_good pgsz rd g bs s) \<and>
     (\<forall>k. sys_phase s n = Active k \<longrightarrow> page_good pgsz rd g bs s) \<and>
     (\<forall>r. sys_phase s n = Answered r \<or> sys_phase s n = Done (Some r) \<longrightarrow>
        r = Data_Supply bs \<or> r = Data_Error \<and> ds_errors (sys_ds s) \<noteq> 0)"

lemma page_good_same: "page_same pgsz rd s t (atop pgsz g) \<Longrightarrow> page_good pgsz rd g bs s \<Longrightarrow> page_good pgsz rd g bs t"
  by (simp add: page_same_def page_good_def)

lemma data_inv_other:
  assumes "data_inv pgsz rd m i bs n g s" "sys_phase t m = sys_phase s m" "sys_phase t n = sys_phase s n"
    "page_same pgsz rd s t (atop pgsz g)" "ds_errors (sys_ds s) \<le> ds_errors (sys_ds t)"
  shows "data_inv pgsz rd m i bs n g t"
proof -
  have "ds_errors (sys_ds s) \<noteq> 0 \<Longrightarrow> ds_errors (sys_ds t) \<noteq> 0" using assms(5) by simp
  with assms(1) page_good_same [OF assms(4), of bs] show ?thesis unfolding data_inv_def assms(2,3) by blast
qed

lemma read_after_write:
  assumes "port_inv reqs s" "is_read (reqs n)" "is_write (reqs m)" "m < n" "busy (sys_phase s n) \<or> finished (sys_phase s n)"
  shows "finished (sys_phase s m)"
  using assms by (simp add: port_inv_def order_ok_def)

lemma atop_page: "0 < pgsz \<Longrightarrow> atop pgsz (offset + j * pgsz) = atop pgsz offset + j"
  by (simp add: atop_def)

lemma data_step:
  assumes disk: "disk_ok pgsz rd wr" and pg: "0 < pgsz" and whole: "whole_pages pgsz reqs"
    and m: "reqs m = Data_Write offset pages" "i < length pages" and n: "reqs n = Data_Request g dl" "m < n"
    and g: "atop pgsz g = atop pgsz (offset + i * pgsz)"
    and only: "\<And>k. touches pgsz (reqs k) (atop pgsz g) \<Longrightarrow> k = m \<or> k = n"
    and step: "port_step reqs pgsz rd wr s t" and inv: "port_inv reqs s" and d: "data_inv pgsz rd m i (pages ! i) n g s"
  shows "data_inv pgsz rd m i (pages ! i) n g t"
proof -
  have inv': "port_inv reqs t" by (rule port_step_inv [OF disk pg whole step inv])
  have mn: "m \<noteq> n" using n(2) by simp
  have fin: "busy (sys_phase t n) \<or> finished (sys_phase t n) \<Longrightarrow> finished (sys_phase t m)"
    using read_after_write [OF inv', of n m] m(1) n by simp
  from port_step_frame [OF disk pg whole step inv] obtain k x where
    fr: "ds_errors (sys_ds s) \<le> ds_errors (sys_ds t)" "sys_phase t = (sys_phase s)(k := x)" "x \<noteq> sys_phase s k"
      "\<And>f. \<not> touches pgsz (reqs k) f \<Longrightarrow> page_same pgsz rd s t f" by blast
  have moved: "j = k" if "sys_phase t = (sys_phase s)(j := y)" "y \<noteq> sys_phase s j" for j y
    using that fr(2) by (metis fun_upd_apply)
  show ?thesis
  proof (cases "k = m \<or> k = n")
    case False
    then have "page_same pgsz rd s t (atop pgsz g)" using fr(4) only by blast
    with False fr(1,2) d show ?thesis by (intro data_inv_other [OF d]) auto
  next
    case True
    have sys: "pager_sys_ok (sys_parts s) [ds_dpager (sys_ds s)]" using inv by (simp add: port_inv_def)
    from step show ?thesis
    proof cases
      case (put_page j l o' pgs ps' w' ds')
      have "j = k" using moved [of j "Active (Suc l)"] put_page(1,2) by simp
      with True put_page(3) n(1) m(1) have j: "j = m" "o' = offset" "pgs = pages" by auto
      have len: "length (pages ! l) = pgsz"
        using whole put_page(3,4) j unfolding whole_pages_def by (meson nth_mem)
      note w = write_page_ok [OF sys disk pg len, of "keeps_pages (reqs j)" "offset + l * pgsz" "sys_disk s" ps' w' ds']
      have run: "write_page pgsz wr (keeps_pages (reqs j)) (offset + l * pgsz) (pages ! l) (sys_parts s) (sys_disk s) (sys_ds s) = Inr (ps', w', ds')"
        using put_page(5) j by simp
      have nn: "\<not> busy (sys_phase s n) \<and> \<not> finished (sys_phase s n)"
        using fin put_page(1,2) j mn by auto
      show ?thesis
      proof (cases "l = i")
        case True
        have "ds_errors ds' = ds_errors (sys_ds s) \<Longrightarrow> page_good pgsz rd g (pages ! i) t"
          using w(3) [OF run] True m(1) j g put_page(1)
          by (simp add: page_good_def object_page_def page_data_offset [OF g])
        moreover have "ds_errors (sys_ds s) \<le> ds_errors ds'" using fr(1) put_page(1) by simp
        ultimately have "ds_errors (sys_ds t) \<noteq> 0 \<or> page_good pgsz rd g (pages ! i) t"
          using put_page(1) by (cases "ds_errors ds' = 0") simp_all
        then show ?thesis using nn put_page(1) j mn by (auto simp: data_inv_def)
      next
        case False
        then have "atop pgsz (offset + l * pgsz) \<noteq> atop pgsz g" using g pg by (simp add: atop_page)
        then have "page_same pgsz rd s t (atop pgsz g)"
          using w(1) [OF run] put_page(1) by (auto simp: transfer_ok_def page_same_def)
        note good = page_good_same [OF this, of "pages ! i"]
        show ?thesis using d fr(1) good nn put_page(1,2) j mn False by (auto simp: data_inv_def less_Suc_eq)
      qed
    next
      case (get_page j o' dealloc st bs ps' d')
      have "j = k" using moved [of j "Answered (reply_of (st, bs))"] get_page(1,2) by simp
      with True get_page(3) n(1) m(1) have j: "j = n" "o' = g" "dealloc = dl" by auto
      have "page_good pgsz rd g (pages ! i) s" using d get_page(2) j by (simp add: data_inv_def)
      then have "st = PAGER_SUCCESS" "bs = pages ! i"
        using read_page_ok(2) [OF sys disk get_page(4)] j by (simp_all add: page_good_def)
      then show ?thesis using get_page(1) j by (simp add: data_inv_def)
    next
      case (start_read j o' dealloc)
      have "j = k" using moved [of j "if ds_errors (sys_ds s) \<noteq> 0 then Answered Data_Error else Active 0"] start_read(1,2) by simp
      with True start_read(3) m(1) n(1) have j: "j = n" by auto
      have "finished (sys_phase s m)" using fin start_read(1) j mn by (simp split: if_splits)
      then have "ds_errors (sys_ds s) \<noteq> 0 \<or> page_good pgsz rd g (pages ! i) s"
        using d start_read(2) j by (simp add: data_inv_def)
      then show ?thesis using start_read(1) j mn
        by (auto simp: data_inv_def page_good_def object_page_def port_defs)
    next
      case (finish_read j r)
      have "j = k" using moved [of j "Done (Some r)"] finish_read(1,2) by simp
      have "is_read (reqs j)" using inv finish_read(2) by (simp add: port_inv_def)
      with \<open>j = k\<close> True m(1) have j: "j = n" by auto
      then show ?thesis using d finish_read(1,2) mn by (auto simp: data_inv_def port_defs)
    next
      case (start_write j o' pgs)
      have "j = k" using moved [of j "Active 0"] start_write(1,2) by simp
      with True start_write(3) n(1) m(1) have j: "j = m" by auto
      then show ?thesis using d start_write(1,2) mn
        by (auto simp: data_inv_def page_good_def object_page_def port_defs)
    next
      case (finish_write j l o' pgs)
      have "j = k" using moved [of j "Done None"] finish_write(1,2) by simp
      with True finish_write(3) n(1) m(1) have j: "j = m" "pgs = pages" by auto
      then show ?thesis using d finish_write(1,2,4) mn m(2)
        by (auto simp: data_inv_def page_good_def object_page_def port_defs)
    next
      case (enter j)
      then show ?thesis using d mn
        by (auto simp: data_inv_def page_good_def object_page_def pager_port_check_request_def Let_def)
    next
      case (init j p nm ds)
      have "j = k" using moved [of j "Done None"] init(1,2) by simp
      with True init(3) n(1) m(1) show ?thesis by auto
    next
      case terminate: (terminate j)
      have "j = k" using moved [of j "Done None"] terminate(1,2) by simp
      with True terminate(3) n(1) m(1) show ?thesis by auto
    qed
  qed
qed

end
