(* ===== verification/PagerService.thy ===== *)
theory PagerService
  imports PagerProtocol
begin

text \<open>
  The properties of the request protocol of the default pager, for the states that are reached
  from a new object under any interleaving of the requests, and a run of a write and a read that
  exhibits them.
\<close>

section \<open>A run\<close>

definition demo_reqs :: "nat \<Rightarrow> request" where
  "demo_reqs k = (if k = 0 then Data_Write 0 [[7, 9]] else Data_Request 0 False)"

definition demo_ds :: dstruct where
  "demo_ds = \<lparr>ds_seqno = 0, pager_request = 0, request_refs = 0, pager_name = 0, name_refs = 0,
     readers = 0, writers = 0, ds_errors = 0, ds_dpager = demo_pager\<rparr>"

lemmas demo_eval = demo_part_def demo_pager_def choose_partition_def ptoa_def atop_def no_partition_def
  P_INDEX_INVALID_def INDIRECT_PAGEMAP_def PAGEMAP_ENTRIES_def partition_of_def howmany_def NB_BM_def BM_MASK_def

lemma demo_alloc: "pager_port_alloc 2 [Some demo_part] 8 = Inr demo_ds"
  by (simp add: pager_port_alloc_def pager_alloc_def map_pages_def max_doubled_size_def double_until.simps demo_ds_def
      demo_eval)

lemma demo_parts_ok: "parts_ok [Some demo_part]"
  using demo_part_ok(1) by (simp add: parts_ok_def)

lemma demo_whole: "whole_pages 2 demo_reqs"
  by (auto simp: whole_pages_def demo_reqs_def split: if_splits)

definition demo_pager' :: dpager where
  "demo_pager' = \<lparr>dmap = Direct (\<lparr>p_offset = 0, p_index = 0\<rparr> # replicate 3 NO_BLOCK), dp_size = 4, cur_partition = 0\<rparr>"

definition demo_part' :: part where
  "demo_part' = demo_part\<lparr>bitmap := [1], pt_free := 3\<rparr>"

definition demo_disk :: "nat \<times> nat \<Rightarrow> u8 list" where
  "demo_disk = (\<lambda>_. [])((0, 0) := [7, 9])"

lemma demo_replicate: "replicate 4 x = [x, x, x, x]" "replicate 3 x = [x, x, x]"
  by (simp_all add: numeral_eq_Suc)

lemma demo_write:
  assumes "ds_dpager ds = demo_pager"
  shows "write_page 2 demo_wr False 0 [7, 9] [Some demo_part] (\<lambda>_. []) ds =
     Inr ([Some demo_part'], demo_disk, ds\<lparr>ds_dpager := demo_pager', ds_errors := ds_errors ds\<rparr>)"
  using assms
  by (simp add: write_page_def default_write_def pager_write_offset_def late_partition_def extend_loop.simps second_level_def
      map_entry_def room_for_page_def pager_alloc_page_def take_bit_of_map_def set_map_entry_def no_block_def NO_BLOCK_def
      write_loop.simps demo_wr_def demo_pager'_def demo_part'_def demo_disk_def demo_eval Let_def demo_replicate upt_conv_Cons)

lemma demo_read:
  "default_read 2 demo_rd demo_disk [Some demo_part'] demo_pager' 2 0 False =
     Inr (PAGER_SUCCESS, [7, 9], [Some demo_part'], demo_pager')"
  by (simp add: default_read_def pager_read_offset_def map_entry_def no_block_def NO_BLOCK_def read_loop.simps demo_rd_def
      demo_pager'_def demo_part'_def demo_disk_def demo_eval Let_def)

lemma demo_run:
  "\<exists>s. port_run demo_reqs 2 demo_rd demo_wr (port_start (\<lambda>_. []) [Some demo_part] demo_ds) s \<and>
     sys_phase s 1 = Done (Some (Data_Supply [7, 9])) \<and> ds_errors (sys_ds s) = 0"
proof -
  let ?step = "port_step demo_reqs 2 demo_rd demo_wr"
  define s0 :: "(nat \<times> nat \<Rightarrow> u8 list) port_sys" where "s0 = port_start (\<lambda>_. []) [Some demo_part] demo_ds"
  define s1 where "s1 = s0\<lparr>sys_ds := if checks_request (demo_reqs 0) then pager_port_check_request (sys_ds s0) else sys_ds s0,
    sys_phase := (sys_phase s0)(0 := Inside)\<rparr>"
  define s2 where "s2 = s1\<lparr>sys_ds := pager_port_unlock (pager_port_start_write (sys_ds s1)), sys_phase := (sys_phase s1)(0 := Active 0)\<rparr>"
  define s3 where "s3 = s2\<lparr>sys_parts := [Some demo_part'], sys_disk := demo_disk,
    sys_ds := (sys_ds s2)\<lparr>ds_dpager := demo_pager', ds_errors := ds_errors (sys_ds s2)\<rparr>, sys_phase := (sys_phase s2)(0 := Active (Suc 0))\<rparr>"
  define s4 where "s4 = s3\<lparr>sys_ds := pager_port_finish_write (sys_ds s3), sys_phase := (sys_phase s3)(0 := Done None)\<rparr>"
  define s5 where "s5 = s4\<lparr>sys_ds := if checks_request (demo_reqs 1) then pager_port_check_request (sys_ds s4) else sys_ds s4,
    sys_phase := (sys_phase s4)(1 := Inside)\<rparr>"
  define s6 where "s6 = s5\<lparr>sys_ds := pager_port_unlock (pager_port_start_read (sys_ds s5)),
    sys_phase := (sys_phase s5)(1 := if ds_errors (sys_ds s5) \<noteq> 0 then Answered Data_Error else Active 0)\<rparr>"
  define s7 where "s7 = s6\<lparr>sys_parts := [Some demo_part'], sys_ds := (sys_ds s6)\<lparr>ds_dpager := demo_pager'\<rparr>,
    sys_phase := (sys_phase s6)(1 := Answered (reply_of (PAGER_SUCCESS, [7, 9])))\<rparr>"
  define s8 where "s8 = s7\<lparr>sys_ds := pager_port_finish_read (sys_ds s7), sys_phase := (sys_phase s7)(1 := Done (Some (reply_of (PAGER_SUCCESS, [7, 9]))))\<rparr>"
  note defs = s0_def s1_def s2_def s3_def s4_def s5_def s6_def s7_def s8_def port_start_def port_defs demo_ds_def
    pager_port_check_request_def default_pager_max_urefs_def Let_def
  have st1: "?step s0 s1" unfolding s1_def by (rule port_step.enter) (simp_all add: defs)
  have st2: "?step s1 s2" unfolding s2_def by (rule port_step.start_write [where offset = 0 and pages = "[[7, 9]]"]) (simp_all add: defs demo_reqs_def)
  have st3: "?step s2 s3" unfolding s3_def
    by (rule port_step.put_page [where i = 0 and offset = 0 and pages = "[[7, 9]]"]) (simp_all add: demo_reqs_def demo_write defs)
  have st4: "?step s3 s4" unfolding s4_def by (rule port_step.finish_write [where i = 1 and offset = 0 and pages = "[[7, 9]]"]) (simp_all add: defs demo_reqs_def)
  have st5: "?step s4 s5" unfolding s5_def by (rule port_step.enter) (simp_all add: defs demo_reqs_def)
  have st6: "?step s5 s6" unfolding s6_def by (rule port_step.start_read [where offset = 0 and dealloc = False]) (simp_all add: defs demo_reqs_def)
  have st7: "?step s6 s7" unfolding s7_def
    by (rule port_step.get_page [where offset = 0 and dealloc = False]) (simp_all add: demo_reqs_def defs demo_read)
  have st8: "?step s7 s8" unfolding s8_def by (rule port_step.finish_read) (simp_all add: defs)
  have "port_run demo_reqs 2 demo_rd demo_wr s0 s8"
    by (rule port_run.step [OF port_run.step [OF port_run.step [OF port_run.step [OF port_run.step [OF port_run.step [OF port_run.step [OF port_run.step [OF port_run.none st1] st2] st3] st4] st5] st6] st7] st8])
  moreover have "sys_phase s8 1 = Done (Some (Data_Supply [7, 9]))" "ds_errors (sys_ds s8) = 0" by (simp_all add: defs)
  ultimately show ?thesis unfolding s0_def by blast
qed

section \<open>Properties\<close>



text \<open>
  C6 (safety). Reads wait for earlier writes, and terminations for everything earlier: once a
  data request has been admitted, every write with a smaller sequence number has ended, and once
  a termination has taken effect, every request before it has ended.
\<close>

theorem requests_in_order:
  assumes "disk_ok pgsz rd wr" "0 < pgsz" "whole_pages pgsz reqs" "parts_ok ps" "pager_port_alloc pgsz ps bytes = Inr ds"
    "port_run reqs pgsz rd wr (port_start w ps ds) s" "sys_phase s n \<noteq> Received" "sys_phase s n \<noteq> Inside" "m < n"
    "is_read (reqs n) \<and> is_write (reqs m) \<or> reqs n = Object_Terminate"
  shows "\<exists>r. sys_phase s m = Done r"
proof -
  have "busy (sys_phase s n) \<or> finished (sys_phase s n)" using assms(7,8) by (cases "sys_phase s n") simp_all
  then have "finished (sys_phase s m)"
    using port_reach [OF assms(1-6)] assms(9,10) by (auto simp: port_inv_def order_ok_def)
  then show ?thesis by (cases "sys_phase s m") simp_all
qed

theorem requests_in_order_witness:
  "\<exists>s r. port_run demo_reqs 2 demo_rd demo_wr (port_start (\<lambda>_. []) [Some demo_part] demo_ds) s \<and>
     sys_phase s 1 = Done (Some (Data_Supply [7, 9])) \<and> sys_phase s 0 = Done r"
proof -
  from demo_run obtain s where s: "port_run demo_reqs 2 demo_rd demo_wr (port_start (\<lambda>_. []) [Some demo_part] demo_ds) s"
    "sys_phase s 1 = Done (Some (Data_Supply [7, 9]))" by blast
  from requests_in_order [OF demo_disk_ok _ demo_whole demo_parts_ok demo_alloc s(1), of 1 0] s show ?thesis
    by (auto simp: demo_reqs_def)
qed



text \<open>A write that has been admitted can always go on.\<close>

lemma write_can_move:
  assumes env: "disk_ok pgsz rd wr" "0 < pgsz" "whole_pages pgsz reqs" and inv: "port_inv reqs s"
    and m: "is_write (reqs m)" "busy (sys_phase s m)" and kind: "\<exists>offset pages. reqs m = Data_Write offset pages"
  shows "\<exists>t n. port_step reqs pgsz rd wr s t \<and> n \<le> ds_seqno (sys_ds s) \<and> sys_phase t n \<noteq> sys_phase s n"
proof -
  have "\<forall>k. busy (sys_phase s k) \<or> finished (sys_phase s k) \<longleftrightarrow> k < ds_seqno (sys_ds s)" using inv by (simp add: port_inv_def order_ok_def)
  then have le: "m \<le> ds_seqno (sys_ds s)" using m(2) less_imp_le by blast
  obtain off pages where w: "reqs m = Data_Write off pages" using kind by blast
  have nr: "\<not> is_read (reqs m)" using w by simp
  have "sys_phase s m \<noteq> Answered r" for r using inv nr by (auto simp: port_inv_def)
  then obtain i where i: "sys_phase s m = Active i" using m(2) by (cases "sys_phase s m") auto
  have le_pages: "i \<le> length pages" using inv nr w i unfolding port_inv_def by fastforce
  show ?thesis
  proof (cases "i = length pages")
    case True
    with port_step.finish_write [OF i, of reqs off pages pgsz rd wr] w i le show ?thesis by fastforce
  next
    case False
    then have il: "i < length pages" using le_pages by simp
    have len: "length (pages ! i) = pgsz" using env(3) w il unfolding whole_pages_def by (metis nth_mem pages_of.simps(1))
    have sys: "pager_sys_ok (sys_parts s) [ds_dpager (sys_ds s)]" using inv by (simp add: port_inv_def)
    from write_page_returns [OF sys env(1,2) len] obtain ps' w' ds' where
      "write_page pgsz wr False (off + i * pgsz) (pages ! i) (sys_parts s) (sys_disk s) (sys_ds s) = Inr (ps', w', ds')"
      by (metis prod_cases3)
    with port_step.put_page [OF i, of reqs off pages pgsz wr ps' w' ds' rd] w il i le show ?thesis by fastforce
  qed
qed



end
