(* ===== verification/MachTable.thy ===== *)
theory MachTable
  imports Prelude
begin

text \<open>
  What the kernel side and the user side of the Mach layer share: return codes, tables that are
  an array with a count of live entries, heap blocks named by their address, and the contract of
  a table that names its entries by its own count (\<open>name_table\<close>). The contract is interpreted on
  the kernel port table, the user port table and the user task table.
\<close>

section \<open>Return codes\<close>

datatype kern_return =
    KERN_SUCCESS
  | KERN_INVALID_ADDRESS
  | KERN_INVALID_ARGUMENT
  | KERN_RESOURCE_SHORTAGE
  | KERN_INVALID_NAME
  | KERN_INVALID_TASK

fun kern_code :: "kern_return \<Rightarrow> int" where
  "kern_code KERN_SUCCESS = 0"
| "kern_code KERN_INVALID_ADDRESS = 1"
| "kern_code KERN_INVALID_ARGUMENT = 4"
| "kern_code KERN_RESOURCE_SHORTAGE = 6"
| "kern_code KERN_INVALID_NAME = 15"
| "kern_code KERN_INVALID_TASK = 16"

abbreviation (input) MACH_PORT_NULL :: u32 where "MACH_PORT_NULL \<equiv> 0"

abbreviation (input) MACH_PORT_DEAD :: u32 where "MACH_PORT_DEAD \<equiv> - 1"

text \<open>
  \<^verbatim>\<open>strncpy(name, s ? s : dflt, 255)\<close> into a 256 byte field whose last byte is zero: the field then
  reads as the first 255 characters of the argument.
\<close>

definition strncpy_255 :: "string option \<Rightarrow> string \<Rightarrow> string" where
  "strncpy_255 s dflt = take 255 (case s of Some n \<Rightarrow> n | None \<Rightarrow> dflt)"

section \<open>Arrays with a count of live entries\<close>

record 'e ctable =
  cells :: "'e list"
  live_count :: nat

definition live :: "('e, 'm) ctable_scheme \<Rightarrow> 'e list" where
  "live t = take (live_count t) (cells t)"

definition table_ok :: "('e, 'm) ctable_scheme \<Rightarrow> bool" where
  "table_ok t \<longleftrightarrow> live_count t \<le> length (cells t)"

text \<open>Filling the cell at the count, and dropping the cell \<open>i\<close> by shifting the ones behind it.\<close>

definition push_cell :: "'e \<Rightarrow> 'e ctable \<Rightarrow> 'e ctable" where
  "push_cell e t = t\<lparr>cells := (cells t)[live_count t := e], live_count := live_count t + 1\<rparr>"

definition drop_cell :: "nat \<Rightarrow> 'e ctable \<Rightarrow> 'e ctable" where
  "drop_cell i t = t\<lparr>cells := shift_down i (live_count t) (cells t), live_count := live_count t - 1\<rparr>"

lemma length_live [simp]: "table_ok t \<Longrightarrow> length (live t) = live_count t"
  by (simp add: table_ok_def live_def)

lemma push_cell_live [simp]:
  assumes "live_count t < length (cells t)"
  shows "live (push_cell e t) = live t @ [e]" "table_ok (push_cell e t)"
    "length (cells (push_cell e t)) = length (cells t)"
    "live_count (push_cell e t) = live_count t + 1"
  using assms by (simp_all add: push_cell_def live_def table_ok_def take_Suc_conv_app_nth)

lemma drop_cell_live [simp]:
  assumes "table_ok t" "i < live_count t"
  shows "live (drop_cell i t) = remove_nth i (live t)" "table_ok (drop_cell i t)"
    "length (cells (drop_cell i t)) = length (cells t)"
    "live_count (drop_cell i t) = live_count t - 1"
  using assms shift_down_take [of "live_count t" "cells t" i]
  by (simp_all add: drop_cell_def live_def table_ok_def)

lemma map_remove_nth: "map f (remove_nth i xs) = remove_nth i (map f xs)"
  by (simp add: remove_nth_def take_map drop_map)

lemma remove1_first_idx:
  "first_idx (\<lambda>x. f x = k) xs = Some i \<Longrightarrow> remove1 k (map f xs) = remove_nth i (map f xs)"
proof (induction xs arbitrary: i)
  case Nil
  then show ?case by simp
next
  case (Cons x xs)
  then show ?case by (auto simp: remove_nth_def split: if_splits)
qed

lemma set_remove_nth_distinct: "i < length xs \<Longrightarrow> distinct xs \<Longrightarrow> set (remove_nth i xs) = set xs - {xs ! i}"
proof -
  assume a: "i < length xs" "distinct xs"
  have "xs = take i xs @ xs ! i # drop (Suc i) xs" using a(1) by (simp add: id_take_nth_drop)
  with a(2) have "distinct (take i xs @ xs ! i # drop (Suc i) xs)" by simp
  then have "set (take i xs @ drop (Suc i) xs) = set (take i xs @ xs ! i # drop (Suc i) xs) - {xs ! i}"
    by auto
  with a(1) show ?thesis unfolding remove_nth_def by (simp only: id_take_nth_drop [symmetric])
qed

lemma distinct_remove_nth [simp]: "distinct xs \<Longrightarrow> distinct (remove_nth i xs)"
  unfolding remove_nth_def
  by (metis distinct_append set_take_disj_set_drop_if_distinct lessI less_imp_le distinct_take
      distinct_drop)

lemma take_2_replicate: "2 \<le> n \<Longrightarrow> take 2 ((replicate n z)[0 := a, Suc 0 := b]) = [a, b]"
proof -
  assume "2 \<le> n"
  then obtain m where "n = Suc (Suc m)" by (metis Suc_le_D numeral_2_eq_2 Suc_le_mono)
  then show ?thesis by (simp add: numeral_2_eq_2)
qed

section \<open>Heap blocks\<close>

text \<open>
  The heap is the set of the addresses of live blocks; \<open>0\<close> is the null pointer. \<open>malloc h n\<close> is a
  parameter of the operations that call it: it answers \<open>0\<close> or an address that is not live.
\<close>

definition free_addr :: "nat \<Rightarrow> nat set \<Rightarrow> nat set outcome" where
  "free_addr a h = (if a = 0 then Inr h else if a \<in> h then Inr (h - {a}) else Inl Double_Free)"

fun free_addrs :: "nat list \<Rightarrow> nat set \<Rightarrow> nat set outcome" where
  "free_addrs [] h = Inr h"
| "free_addrs (a # as) h = (case free_addr a h of Inl e \<Rightarrow> Inl e | Inr h' \<Rightarrow> free_addrs as h')"

definition malloc_ok :: "(nat set \<Rightarrow> u64 \<Rightarrow> nat) \<Rightarrow> bool" where
  "malloc_ok malloc \<longleftrightarrow> (\<forall>h n. finite h \<longrightarrow> malloc h n = 0 \<or> malloc h n \<notin> h)"

lemma malloc_fresh: "malloc_ok malloc \<Longrightarrow> finite h \<Longrightarrow> malloc h n \<noteq> 0 \<Longrightarrow> malloc h n \<notin> h"
  unfolding malloc_ok_def by (drule spec [of _ h], drule spec [of _ n]) simp

text \<open>An allocator that meets the hypothesis: the address above every live one.\<close>

definition demo_malloc :: "nat set \<Rightarrow> u64 \<Rightarrow> nat" where
  "demo_malloc h n = Suc (Max (insert 0 h))"

lemma demo_malloc_ok [simp]: "malloc_ok demo_malloc" "demo_malloc h n \<noteq> 0"
proof -
  have "Suc (Max (insert 0 h)) \<notin> h" if "finite h" for h :: "nat set"
    using that Max_ge [of "insert 0 h" "Suc (Max (insert 0 h))"] not_less_eq_eq by blast
  then show "malloc_ok demo_malloc" by (simp add: malloc_ok_def demo_malloc_def)
qed (simp add: demo_malloc_def)

lemma free_addrs_ok:
  "distinct (filter (\<lambda>a. a \<noteq> 0) as) \<Longrightarrow> set as - {0} \<subseteq> h \<Longrightarrow> free_addrs as h = Inr (h - (set as - {0}))"
proof (induction as arbitrary: h)
  case Nil
  then show ?case by simp
next
  case (Cons a as)
  show ?case
  proof (cases "a = 0")
    case True
    with Cons show ?thesis by (simp add: free_addr_def)
  next
    case False
    with Cons.prems have "a \<notin> set as" "a \<in> h" "set as - {0} \<subseteq> h - {a}" by auto
    with Cons.IH [of "h - {a}"] Cons.prems False show ?thesis
      by (auto simp: free_addr_def)
  qed
qed

lemma free_addrs_append:
  "free_addrs (as @ bs) h = (case free_addrs as h of Inl e \<Rightarrow> Inl e | Inr h' \<Rightarrow> free_addrs bs h')"
  by (induction as arbitrary: h) (auto split: sum.splits)

section \<open>Tables that name an entry by their own count\<close>

text \<open>
  \<open>names s\<close> are the names of the live entries in table order. A new entry is named \<open>base\<close> plus
  the number of live entries; releasing a name removes the first entry that has it. \<open>legal\<close> is what
  the table asks of the caller of \<open>alloc\<close>.
\<close>

locale name_table =
  fixes inv :: "'s \<Rightarrow> bool"
    and legal :: "'s \<Rightarrow> 'c \<Rightarrow> bool"
    and names :: "'s \<Rightarrow> u32 list"
    and cap :: nat
    and base :: nat
    and alloc :: "'c \<Rightarrow> 's \<Rightarrow> (u32 \<times> 's) option"
    and release :: "u32 \<Rightarrow> 's \<Rightarrow> 's option"
  assumes alloc_law: "inv s \<Longrightarrow> legal s c \<Longrightarrow> alloc c s = Some (n, s') \<Longrightarrow>
      inv s' \<and> n = of_nat (length (names s) + base) \<and> names s' = names s @ [n]"
    and alloc_full: "inv s \<Longrightarrow> alloc c s = None \<longleftrightarrow> cap \<le> length (names s)"
    and release_law: "inv s \<Longrightarrow> release n s = Some s' \<Longrightarrow> inv s' \<and> names s' = remove1 n (names s)"
    and release_unknown: "inv s \<Longrightarrow> release n s = None \<longleftrightarrow> n \<notin> set (names s)"
    and cap_bound: "inv s \<Longrightarrow> length (names s) \<le> cap" "cap + base < 2 ^ 32"
begin

fun alloc_many :: "'c list \<Rightarrow> 's \<Rightarrow> (u32 list \<times> 's) option" where
  "alloc_many [] s = Some ([], s)"
| "alloc_many (c # cs) s =
     (case alloc c s of None \<Rightarrow> None
      | Some (n, s') \<Rightarrow> map_option (\<lambda>(ns, s''). (n # ns, s'')) (alloc_many cs s'))"

text \<open>While nothing is released the names handed out are consecutive and hence distinct.\<close>

lemma alloc_many_names:
  "inv s \<Longrightarrow> \<forall>c \<in> set cs. \<forall>s. legal s c \<Longrightarrow> alloc_many cs s = Some (ns, s') \<Longrightarrow>
   inv s' \<and> names s' = names s @ ns \<and>
   ns = map (\<lambda>i. of_nat (i + base)) [length (names s)..<length (names s) + length cs]"
proof (induction cs arbitrary: s ns)
  case Nil
  then show ?case by simp
next
  case (Cons c cs)
  then obtain n u ms where a: "alloc c s = Some (n, u)" "alloc_many cs u = Some (ms, s')" "ns = n # ms"
    by (auto split: option.splits)
  have c: "legal s c" and cs: "\<forall>c \<in> set cs. \<forall>s. legal s c" using Cons.prems(2) by auto
  from alloc_law [OF Cons.prems(1) c a(1)]
  have l: "inv u" "n = of_nat (length (names s) + base)" "names u = names s @ [n]" by auto
  have up: "[length (names s)..<length (names s) + length (c # cs)] =
      length (names s) # [length (names u)..<length (names u) + length cs]"
    using l(3) by (simp add: upt_conv_Cons del: upt_Suc)
  from Cons.IH [OF l(1) cs a(2)] l a(3) show ?case unfolding up by (simp del: upt_Suc)
qed

lemma alloc_many_distinct:
  assumes "inv s" "\<forall>c \<in> set cs. \<forall>s. legal s c" "alloc_many cs s = Some (ns, s')"
  shows "distinct ns"
proof -
  note l = alloc_many_names [OF assms]
  then have "length (names s) + length cs \<le> cap" using cap_bound(1) [of s'] by simp
  then have "inj_on (\<lambda>i. of_nat (i + base) :: u32) {length (names s)..<length (names s) + length cs}"
    using cap_bound(2) by (intro inj_onI) (simp add: word_of_nat_eq_iff take_bit_nat_eq_self)
  with l show ?thesis by (simp add: distinct_map)
qed

text \<open>
  After a release the next name collides: two entries are made, the older one is released, and
  the next entry gets the name of the younger one, which is still live.
\<close>

lemma alloc_reuses_live_name:
  assumes "inv s" "legal s c\<^sub>1" "legal s\<^sub>1 c\<^sub>2" "\<And>s. legal s c\<^sub>3"
    and "alloc c\<^sub>1 s = Some (n\<^sub>1, s\<^sub>1)" "alloc c\<^sub>2 s\<^sub>1 = Some (n\<^sub>2, s\<^sub>2)" "n\<^sub>1 \<notin> set (names s)"
  shows "\<exists>s\<^sub>3 s\<^sub>4. release n\<^sub>1 s\<^sub>2 = Some s\<^sub>3 \<and> alloc c\<^sub>3 s\<^sub>3 = Some (n\<^sub>2, s\<^sub>4) \<and>
    names s\<^sub>4 = names s @ [n\<^sub>2, n\<^sub>2]"
proof -
  from alloc_law [OF assms(1,2,5)] have 1: "inv s\<^sub>1" "names s\<^sub>1 = names s @ [n\<^sub>1]" by auto
  from alloc_law [OF 1(1) assms(3,6)] have 2: "inv s\<^sub>2" "names s\<^sub>2 = names s @ [n\<^sub>1, n\<^sub>2]"
    "n\<^sub>2 = of_nat (Suc (length (names s)) + base)" using 1 by auto
  then obtain s\<^sub>3 where 3: "release n\<^sub>1 s\<^sub>2 = Some s\<^sub>3"
    using release_unknown [OF 2(1), of n\<^sub>1] by (cases "release n\<^sub>1 s\<^sub>2") auto
  from release_law [OF 2(1) 3] have 4: "inv s\<^sub>3" "names s\<^sub>3 = names s @ [n\<^sub>2]"
    using 2(2) assms(7) by (auto simp: remove1_append)
  have "length (names s\<^sub>3) < cap" using 2(2) 4(2) cap_bound(1) [OF 2(1)] by simp
  then obtain n s\<^sub>4 where 5: "alloc c\<^sub>3 s\<^sub>3 = Some (n, s\<^sub>4)"
    using alloc_full [OF 4(1), of c\<^sub>3] by (cases "alloc c\<^sub>3 s\<^sub>3") auto
  from alloc_law [OF 4(1) assms(4) 5] 4(2) 2(3) have "n = n\<^sub>2" "names s\<^sub>4 = names s @ [n\<^sub>2, n\<^sub>2]" by auto
  with 3 5 show ?thesis by blast
qed

end

end
