(* ===== verification/MachKernel.thy ===== *)
theory MachKernel
  imports MachTable "HOL-Library.Multiset"
begin

text \<open>
  The kernel side of the Mach layer (\<^verbatim>\<open>src/mach/kernel_patches.c\<close>): the table of ports, the table
  of tasks, the message queues ordered by priority, and the table of memory regions, with every
  operation of the file. Messages are byte buffers; \<^verbatim>\<open>msgh_size\<close> is the little-endian word at
  offset 4 of a message. A message queue is the list of its nodes from the head on, so the null
  pointer is the empty list.
\<close>

section \<open>State\<close>

record kern_mach_port =
  kp_port :: u32
  kp_name :: string
  kp_ref_count :: int
  kp_data :: nat
  kp_is_kernel_port :: bool

record kern_mach_task =
  kt_task :: u32
  kt_pid :: int
  kt_name :: string
  kt_active :: bool
  kt_priority :: int
  kt_task_data :: nat

record mach_msg_node =
  mq_node :: nat
  mq_msg :: nat
  mq_bytes :: "u8 list"
  mq_priority :: int
  mq_timestamp :: u64

record kern_mach_memory =
  km_addr :: nat
  km_size :: u64
  km_protection :: int
  km_is_mapped :: bool
  km_owner :: string

record mach_kernel =
  kern_ports :: "kern_mach_port ctable"
  kern_tasks :: "kern_mach_task ctable"
  msg_queues :: "mach_msg_node list list"
  msg_queue_count :: int
  kern_memory :: "kern_mach_memory ctable"
  kern_heap :: "nat set"

definition zero_port :: kern_mach_port where
  "zero_port = \<lparr>kp_port = 0, kp_name = '''', kp_ref_count = 0, kp_data = 0, kp_is_kernel_port = False\<rparr>"

definition zero_task :: kern_mach_task where
  "zero_task = \<lparr>kt_task = 0, kt_pid = 0, kt_name = '''', kt_active = False, kt_priority = 0,
     kt_task_data = 0\<rparr>"

definition zero_memory :: kern_mach_memory where
  "zero_memory = \<lparr>km_addr = 0, km_size = 0, km_protection = 0, km_is_mapped = False, km_owner = ''''\<rparr>"

section \<open>Initialisation\<close>

text \<open>
  Neither the message queue count nor the count of memory regions is reset here; they are zero
  when the program starts and after a cleanup.
\<close>

definition mach_kernel_init :: "u32 \<Rightarrow> mach_kernel \<Rightarrow> kern_return \<times> mach_kernel" where
  "mach_kernel_init task_self s =
     (KERN_SUCCESS,
      s\<lparr>kern_ports :=
          \<lparr>cells = (replicate 2048 zero_port)
             [0 := zero_port\<lparr>kp_port := MACH_PORT_NULL, kp_name := ''MACH_PORT_NULL'',
                             kp_ref_count := 1, kp_is_kernel_port := True\<rparr>,
              1 := zero_port\<lparr>kp_port := MACH_PORT_DEAD, kp_name := ''MACH_PORT_DEAD'',
                             kp_ref_count := 1, kp_is_kernel_port := True\<rparr>],
           live_count = 2\<rparr>,
        kern_tasks :=
          \<lparr>cells = (replicate 128 zero_task)
             [0 := zero_task\<lparr>kt_task := task_self, kt_pid := 0, kt_name := ''kernel_task'',
                             kt_active := True, kt_priority := 255\<rparr>],
           live_count = 1\<rparr>,
        msg_queues := replicate 1024 [],
        kern_memory := (kern_memory s)\<lparr>cells := replicate 4096 zero_memory\<rparr>\<rparr>)"

section \<open>Ports\<close>

definition mach_port_allocate_kernel ::
  "string option \<Rightarrow> nat \<Rightarrow> mach_kernel \<Rightarrow> kern_return \<times> u32 option \<times> mach_kernel" where
  "mach_port_allocate_kernel name data s =
     (if 2048 \<le> live_count (kern_ports s) then (KERN_RESOURCE_SHORTAGE, None, s)
      else let new_port = of_nat (live_count (kern_ports s) + 0x1000) in
        (KERN_SUCCESS, Some new_port,
         s\<lparr>kern_ports := push_cell
             \<lparr>kp_port = new_port, kp_name = strncpy_255 name ''kern_unnamed'', kp_ref_count = 1,
              kp_data = data, kp_is_kernel_port = True\<rparr> (kern_ports s)\<rparr>))"

definition mach_port_deallocate_kernel :: "u32 \<Rightarrow> mach_kernel \<Rightarrow> (kern_return \<times> mach_kernel) outcome" where
  "mach_port_deallocate_kernel port s =
     (let t = kern_ports s in
      case first_idx (\<lambda>e. kp_port e = port) (live t) of
        None \<Rightarrow> Inr (KERN_INVALID_NAME, s)
      | Some i \<Rightarrow>
          let e = cells t ! i;
              e' = e\<lparr>kp_ref_count := kp_ref_count e - 1\<rparr>;
              t' = t\<lparr>cells := (cells t)[i := e']\<rparr> in
          if kp_ref_count e' \<le> 0 then
            (case free_addr (kp_data e) (kern_heap s) of
               Inl err \<Rightarrow> Inl err
             | Inr h \<Rightarrow> Inr (KERN_SUCCESS, s\<lparr>kern_ports := drop_cell i t', kern_heap := h\<rparr>))
          else Inr (KERN_SUCCESS, s\<lparr>kern_ports := t'\<rparr>))"

section \<open>Message queues\<close>

definition le32 :: "u8 list \<Rightarrow> nat \<Rightarrow> u32" where
  "le32 bs i = ucast (bs ! i) OR push_bit 8 (ucast (bs ! (i + 1))) OR
     push_bit 16 (ucast (bs ! (i + 2))) OR push_bit 24 (ucast (bs ! (i + 3)))"

text \<open>\<^verbatim>\<open>msg->msgh_size\<close>: a read outside the buffer when the message is shorter than eight bytes.\<close>

definition read_msgh_size :: "u8 list \<Rightarrow> u32 outcome" where
  "read_msgh_size m = (if length m < 8 then Inl Out_Of_Bounds else Inr (le32 m 4))"

definition mach_msg_queue_create :: "u32 \<Rightarrow> mach_kernel \<Rightarrow> (kern_return \<times> mach_kernel) outcome" where
  "mach_msg_queue_create port s =
     (if 1024 \<le> msg_queue_count s then Inr (KERN_RESOURCE_SHORTAGE, s)
      else if unat port < length (msg_queues s) then
        Inr (KERN_SUCCESS, s\<lparr>msg_queues := (msg_queues s)[unat port := []],
                             msg_queue_count := msg_queue_count s + 1\<rparr>)
      else Inl Out_Of_Bounds)"

fun node_addrs :: "mach_msg_node list \<Rightarrow> nat list" where
  "node_addrs [] = []"
| "node_addrs (n # ns) = mq_msg n # mq_node n # node_addrs ns"

definition mach_msg_queue_destroy :: "u32 \<Rightarrow> mach_kernel \<Rightarrow> (kern_return \<times> mach_kernel) outcome" where
  "mach_msg_queue_destroy port s =
     (if 1024 \<le> unat port \<or> msg_queues s ! unat port = [] then Inr (KERN_INVALID_NAME, s)
      else
        (case free_addrs (node_addrs (msg_queues s ! unat port)) (kern_heap s) of
           Inl e \<Rightarrow> Inl e
         | Inr h \<Rightarrow> Inr (KERN_SUCCESS,
             s\<lparr>msg_queues := (msg_queues s)[unat port := []],
               msg_queue_count := msg_queue_count s - 1, kern_heap := h\<rparr>)))"

text \<open>The walk along \<^verbatim>\<open>current->next\<close>, and the insertion at the head or behind the walk.\<close>

fun insert_after :: "mach_msg_node \<Rightarrow> mach_msg_node list \<Rightarrow> mach_msg_node list" where
  "insert_after new [] = [new]"
| "insert_after new (n # ns) =
     (if mq_priority new \<le> mq_priority n then n # insert_after new ns else new # n # ns)"

definition insert_msg :: "mach_msg_node \<Rightarrow> mach_msg_node list \<Rightarrow> mach_msg_node list" where
  "insert_msg new q =
     (case q of
        [] \<Rightarrow> [new]
      | n # ns \<Rightarrow> if mq_priority n < mq_priority new then new # n # ns else n # insert_after new ns)"

definition mach_msg_enqueue ::
  "(nat set \<Rightarrow> u64 \<Rightarrow> nat) \<Rightarrow> u32 \<Rightarrow> u8 list \<Rightarrow> int \<Rightarrow> mach_kernel \<Rightarrow>
   (kern_return \<times> mach_kernel) outcome" where
  "mach_msg_enqueue malloc port msg priority s =
     (if 1024 \<le> unat port \<or> msg_queues s ! unat port = [] then Inr (KERN_INVALID_NAME, s)
      else
        let node = malloc (kern_heap s) 32; h1 = insert node (kern_heap s) in
        if node = 0 then Inr (KERN_RESOURCE_SHORTAGE, s)
        else
          (case read_msgh_size msg of
             Inl e \<Rightarrow> Inl e
           | Inr sz \<Rightarrow>
               let m = malloc h1 (ucast sz) in
               if m = 0 then
                 (case free_addr node h1 of
                    Inl e \<Rightarrow> Inl e
                  | Inr h \<Rightarrow> Inr (KERN_RESOURCE_SHORTAGE, s\<lparr>kern_heap := h\<rparr>))
               else if length msg < unat sz then Inl Out_Of_Bounds
               else
                 let new = \<lparr>mq_node = node, mq_msg = m, mq_bytes = take (unat sz) msg,
                            mq_priority = priority, mq_timestamp = 0\<rparr> in
                 Inr (KERN_SUCCESS,
                   s\<lparr>msg_queues := (msg_queues s)[unat port := insert_msg new (msg_queues s ! unat port)],
                     kern_heap := insert m h1\<rparr>)))"

definition mach_msg_dequeue ::
  "u32 \<Rightarrow> u64 \<Rightarrow> mach_kernel \<Rightarrow> (kern_return \<times> u8 list \<times> mach_kernel) outcome" where
  "mach_msg_dequeue port max_size s =
     (if 1024 \<le> unat port then Inr (KERN_INVALID_NAME, [], s)
      else
        (case msg_queues s ! unat port of
           [] \<Rightarrow> Inr (KERN_INVALID_NAME, [], s)
         | n # ns \<Rightarrow>
             if mq_msg n = 0 then Inr (KERN_INVALID_NAME, [], s)
             else
               (case read_msgh_size (mq_bytes n) of
                  Inl e \<Rightarrow> Inl e
                | Inr sz \<Rightarrow>
                    if unat max_size < unat sz then Inr (KERN_RESOURCE_SHORTAGE, [], s)
                    else if length (mq_bytes n) < unat sz then Inl Out_Of_Bounds
                    else
                      (case free_addrs [mq_msg n, mq_node n] (kern_heap s) of
                         Inl e \<Rightarrow> Inl e
                       | Inr h \<Rightarrow> Inr (KERN_SUCCESS, take (unat sz) (mq_bytes n),
                           s\<lparr>msg_queues := (msg_queues s)[unat port := ns], kern_heap := h\<rparr>)))))"

section \<open>Tasks and memory regions\<close>

definition task_create_kernel ::
  "int \<Rightarrow> string option \<Rightarrow> int \<Rightarrow> mach_kernel \<Rightarrow> kern_return \<times> u32 option \<times> mach_kernel" where
  "task_create_kernel pid name priority s =
     (if 128 \<le> live_count (kern_tasks s) then (KERN_RESOURCE_SHORTAGE, None, s)
      else let new_task = of_nat (live_count (kern_tasks s) + 0x2000) in
        (KERN_SUCCESS, Some new_task,
         s\<lparr>kern_tasks := push_cell
             \<lparr>kt_task = new_task, kt_pid = pid, kt_name = strncpy_255 name ''kern_unnamed_task'',
              kt_active = True, kt_priority = priority, kt_task_data = 0\<rparr> (kern_tasks s)\<rparr>))"

definition vm_allocate_kernel ::
  "(nat set \<Rightarrow> u64 \<Rightarrow> nat) \<Rightarrow> u64 \<Rightarrow> int \<Rightarrow> string option \<Rightarrow> mach_kernel \<Rightarrow>
   kern_return \<times> nat option \<times> mach_kernel" where
  "vm_allocate_kernel malloc sz protection owner s =
     (if 4096 \<le> live_count (kern_memory s) then (KERN_RESOURCE_SHORTAGE, None, s)
      else let memory = malloc (kern_heap s) sz in
        if memory = 0 then (KERN_RESOURCE_SHORTAGE, None, s)
        else (KERN_SUCCESS, Some memory,
          s\<lparr>kern_memory := push_cell
              \<lparr>km_addr = memory, km_size = sz, km_protection = protection, km_is_mapped = True,
               km_owner = strncpy_255 owner ''kernel''\<rparr> (kern_memory s),
            kern_heap := insert memory (kern_heap s)\<rparr>))"

definition vm_deallocate_kernel :: "nat \<Rightarrow> mach_kernel \<Rightarrow> (kern_return \<times> mach_kernel) outcome" where
  "vm_deallocate_kernel addr s =
     (case first_idx (\<lambda>e. km_addr e = addr) (live (kern_memory s)) of
        None \<Rightarrow> Inr (KERN_INVALID_ADDRESS, s)
      | Some i \<Rightarrow>
          (case free_addr addr (kern_heap s) of
             Inl e \<Rightarrow> Inl e
           | Inr h \<Rightarrow> Inr (KERN_SUCCESS,
               s\<lparr>kern_memory := drop_cell i (kern_memory s), kern_heap := h\<rparr>)))"

text \<open>The sum that \<^verbatim>\<open>mach_kernel_stats\<close> reports, in \<^verbatim>\<open>size_t\<close> arithmetic.\<close>

definition mach_kernel_total_memory :: "mach_kernel \<Rightarrow> u64" where
  "mach_kernel_total_memory s = sum_list (map km_size (live (kern_memory s)))"

section \<open>Cleanup\<close>

text \<open>The first loop destroys the queue of every index that is not empty.\<close>

fun destroy_queues :: "nat list \<Rightarrow> mach_kernel \<Rightarrow> mach_kernel outcome" where
  "destroy_queues [] s = Inr s"
| "destroy_queues (i # is) s =
     (if msg_queues s ! i = [] then destroy_queues is s
      else (case mach_msg_queue_destroy (of_nat i) s of
              Inl e \<Rightarrow> Inl e
            | Inr (_, s') \<Rightarrow> destroy_queues is s'))"

definition mach_kernel_cleanup :: "mach_kernel \<Rightarrow> mach_kernel outcome" where
  "mach_kernel_cleanup s =
     (case destroy_queues [0..<1024] s of
        Inl e \<Rightarrow> Inl e
      | Inr s' \<Rightarrow>
          (case free_addrs (map km_addr (live (kern_memory s'))) (kern_heap s') of
             Inl e \<Rightarrow> Inl e
           | Inr h \<Rightarrow>
               (case free_addrs (map kp_data (live (kern_ports s'))) h of
                  Inl e \<Rightarrow> Inl e
                | Inr h' \<Rightarrow> Inr
                    \<lparr>kern_ports = \<lparr>cells = replicate 2048 zero_port, live_count = 0\<rparr>,
                     kern_tasks = \<lparr>cells = replicate 128 zero_task, live_count = 0\<rparr>,
                     msg_queues = replicate 1024 [], msg_queue_count = 0,
                     kern_memory = \<lparr>cells = replicate 4096 zero_memory, live_count = 0\<rparr>,
                     kern_heap = h'\<rparr>)))"

text \<open>The state of the file's variables when the program starts, on a heap \<open>h\<close>.\<close>

definition mach_kernel0 :: "nat set \<Rightarrow> mach_kernel" where
  "mach_kernel0 h =
     \<lparr>kern_ports = \<lparr>cells = replicate 2048 zero_port, live_count = 0\<rparr>,
      kern_tasks = \<lparr>cells = replicate 128 zero_task, live_count = 0\<rparr>,
      msg_queues = replicate 1024 [], msg_queue_count = 0,
      kern_memory = \<lparr>cells = replicate 4096 zero_memory, live_count = 0\<rparr>, kern_heap = h\<rparr>"

section \<open>Sequences of calls\<close>

datatype kern_call =
    Port_Allocate "string option" nat
  | Port_Deallocate u32
  | Queue_Create u32
  | Queue_Destroy u32
  | Enqueue u32 "u8 list" int
  | Dequeue u32 u64
  | Task_Create int "string option" int
  | Vm_Allocate u64 int "string option"
  | Vm_Deallocate nat

fun kern_do :: "(nat set \<Rightarrow> u64 \<Rightarrow> nat) \<Rightarrow> kern_call \<Rightarrow> mach_kernel \<Rightarrow>
    (kern_return \<times> mach_kernel) outcome" where
  "kern_do malloc (Port_Allocate n d) s =
     (case mach_port_allocate_kernel n d s of (r, _, s') \<Rightarrow> Inr (r, s'))"
| "kern_do malloc (Port_Deallocate p) s = mach_port_deallocate_kernel p s"
| "kern_do malloc (Queue_Create p) s = mach_msg_queue_create p s"
| "kern_do malloc (Queue_Destroy p) s = mach_msg_queue_destroy p s"
| "kern_do malloc (Enqueue p m pr) s = mach_msg_enqueue malloc p m pr s"
| "kern_do malloc (Dequeue p n) s =
     (case mach_msg_dequeue p n s of Inl e \<Rightarrow> Inl e | Inr (r, _, s') \<Rightarrow> Inr (r, s'))"
| "kern_do malloc (Task_Create pid n pr) s =
     (case task_create_kernel pid n pr s of (r, _, s') \<Rightarrow> Inr (r, s'))"
| "kern_do malloc (Vm_Allocate sz prot ow) s =
     (case vm_allocate_kernel malloc sz prot ow s of (r, _, s') \<Rightarrow> Inr (r, s'))"
| "kern_do malloc (Vm_Deallocate a) s = vm_deallocate_kernel a s"

fun kern_run :: "(nat set \<Rightarrow> u64 \<Rightarrow> nat) \<Rightarrow> kern_call list \<Rightarrow> mach_kernel \<Rightarrow>
    (kern_return list \<times> mach_kernel) outcome" where
  "kern_run malloc [] s = Inr ([], s)"
| "kern_run malloc (c # cs) s =
     (case kern_do malloc c s of
        Inl e \<Rightarrow> Inl e
      | Inr (r, s') \<Rightarrow>
          (case kern_run malloc cs s' of
             Inl e \<Rightarrow> Inl e
           | Inr (rs, s'') \<Rightarrow> Inr (r # rs, s'')))"

section \<open>The invariant of the subsystem\<close>

text \<open>Blocks the subsystem has to free: the memory regions and the data of the ports.\<close>

definition kern_owned :: "mach_kernel \<Rightarrow> nat list" where
  "kern_owned s = map km_addr (live (kern_memory s)) @
     filter (\<lambda>a. a \<noteq> 0) (map kp_data (live (kern_ports s)))"

definition kern_inv :: "mach_kernel \<Rightarrow> bool" where
  "kern_inv s \<longleftrightarrow>
     length (cells (kern_ports s)) = 2048 \<and> table_ok (kern_ports s) \<and>
     (\<forall>e \<in> set (live (kern_ports s)). kp_ref_count e = 1) \<and>
     length (cells (kern_tasks s)) = 128 \<and> table_ok (kern_tasks s) \<and>
     length (cells (kern_memory s)) = 4096 \<and> table_ok (kern_memory s) \<and>
     msg_queues s = replicate 1024 [] \<and> finite (kern_heap s) \<and> 0 \<notin> kern_heap s \<and>
     0 \<notin> set (kern_owned s) \<and> distinct (kern_owned s) \<and> set (kern_owned s) \<subseteq> kern_heap s"

text \<open>
  What the callers keep to: the data handed over with a port is null or a live block that the
  subsystem does not own yet, and a queue is made for an index of the array.
\<close>

fun call_ok :: "kern_call \<Rightarrow> mach_kernel \<Rightarrow> bool" where
  "call_ok (Port_Allocate n d) s \<longleftrightarrow> d = 0 \<or> d \<in> kern_heap s \<and> d \<notin> set (kern_owned s)"
| "call_ok (Queue_Create p) s \<longleftrightarrow> unat p < 1024"
| "call_ok _ s \<longleftrightarrow> True"

fun calls_ok :: "(nat set \<Rightarrow> u64 \<Rightarrow> nat) \<Rightarrow> kern_call list \<Rightarrow> mach_kernel \<Rightarrow> bool" where
  "calls_ok malloc [] s \<longleftrightarrow> True"
| "calls_ok malloc (c # cs) s \<longleftrightarrow> call_ok c s \<and>
     (case kern_do malloc c s of Inl e \<Rightarrow> True | Inr (r, s') \<Rightarrow> calls_ok malloc cs s')"

end
