(* ===== verification/MachKernelOk.thy ===== *)
theory MachKernelOk
  imports MachKernel
begin

text \<open>
  Correctness of the kernel side of the Mach layer: the order of the message queues, the
  ownership of heap blocks over any sequence of calls, the naming of ports, and what becomes of
  messages for queues that the subsystem itself made.
\<close>

section \<open>Priority insertion is a stable sort\<close>

lemma insert_after_split:
  "insert_after new q = takeWhile (\<lambda>n. mq_priority new \<le> mq_priority n) q @ new #
     dropWhile (\<lambda>n. mq_priority new \<le> mq_priority n) q"
  by (induction q) auto

lemma insert_msg_split:
  "insert_msg new q = takeWhile (\<lambda>n. mq_priority new \<le> mq_priority n) q @ new #
     dropWhile (\<lambda>n. mq_priority new \<le> mq_priority n) q"
  by (cases q) (auto simp: insert_msg_def insert_after_split)

definition by_priority :: "mach_msg_node list \<Rightarrow> mach_msg_node list" where
  "by_priority = sort_key (\<lambda>n. - mq_priority n)"

lemma insert_msg_sorted:
  "sorted (map (\<lambda>n. - mq_priority n) q) \<Longrightarrow> sorted (map (\<lambda>n. - mq_priority n) (insert_msg new q))"
proof (induction q)
  case Nil
  then show ?case by (simp add: insert_msg_split)
next
  case (Cons n ns)
  have set: "set (insert_msg new ns) = insert new (set ns)"
    unfolding insert_msg_split by (rule set_insert_while)
  show ?case
  proof (cases "mq_priority new \<le> mq_priority n")
    case True
    with Cons set show ?thesis by (fastforce simp: insert_msg_split)
  next
    case False
    with Cons.prems show ?thesis by (auto simp: insert_msg_split)
  qed
qed

lemma filter_insert_msg:
  "sorted (map (\<lambda>n. - mq_priority n) q) \<Longrightarrow>
   filter (\<lambda>n. k = - mq_priority n) (insert_msg new q) =
   filter (\<lambda>n. k = - mq_priority n) (q @ [new])"
proof (induction q)
  case Nil
  then show ?case by (simp add: insert_msg_split)
next
  case (Cons n ns)
  show ?case
  proof (cases "mq_priority new \<le> mq_priority n")
    case True
    then have "insert_msg new (n # ns) = n # insert_msg new ns" by (simp add: insert_msg_split)
    moreover have "sorted (map (\<lambda>n. - mq_priority n) ns)" using Cons.prems by simp
    ultimately show ?thesis using Cons.IH by (simp only: filter.simps append_Cons)
  next
    case False
    have "\<forall>m \<in> set (n # ns). mq_priority new \<noteq> mq_priority m"
      using False Cons.prems by fastforce
    then have "k = - mq_priority new \<Longrightarrow> filter (\<lambda>n. k = - mq_priority n) (n # ns) = []"
      by (simp add: filter_empty_conv)
    with False show ?thesis by (auto simp: insert_msg_split)
  qed
qed

lemma mset_insert_msg: "mset (insert_msg new q) = add_mset new (mset q)"
  unfolding insert_msg_split by (induction q) auto

lemma insert_msg_by_priority:
  "insert_msg new (by_priority q) = by_priority (q @ [new])"
proof -
  let ?f = "\<lambda>n. - mq_priority n"
  have s: "sorted (map ?f (by_priority q))" by (simp add: by_priority_def)
  have "by_priority (q @ [new]) = insert_msg new (by_priority q)"
    unfolding by_priority_def
  proof (rule properties_for_sort_key)
    show "mset (insert_msg new (sort_key ?f q)) = mset (q @ [new])"
      by (simp add: mset_insert_msg)
    show "filter (\<lambda>x. ?f k = ?f x) (insert_msg new (sort_key ?f q)) =
        filter (\<lambda>x. ?f k = ?f x) (q @ [new])" for k :: mach_msg_node
      using filter_insert_msg [of "sort_key ?f q" "?f k" new] sort_key_stable [of ?f "?f k" q]
      by (simp only: filter_append eq_commute [of "?f k"] sorted_sort_key)
    show "sorted (map ?f (insert_msg new (sort_key ?f q)))"
      by (rule insert_msg_sorted) simp
  qed
  then show ?thesis by simp
qed

section \<open>Enqueueing and dequeueing\<close>

definition msg_ok :: "u8 list \<Rightarrow> bool" where
  "msg_ok m \<longleftrightarrow> 8 \<le> unat (le32 m 4) \<and> unat (le32 m 4) \<le> length m"

definition sent :: "u8 list \<times> int \<Rightarrow> u8 list \<times> int" where
  "sent = (\<lambda>(m, pr). (take (unat (le32 m 4)) m, pr))"

definition content :: "mach_msg_node \<Rightarrow> u8 list \<times> int" where
  "content n = (mq_bytes n, mq_priority n)"

lemma map_insort_key: "map g (insort_key (\<lambda>x. f (g x)) a xs) = insort_key f (g a) (map g xs)"
  by (induction xs) auto

lemma map_sort_key: "map g (sort_key (\<lambda>x. f (g x)) xs) = sort_key f (map g xs)"
  by (induction xs) (simp_all add: map_insort_key)

lemma map_content_by_priority:
  "map content (by_priority q) = sort_key (\<lambda>(b, pr). - pr) (map content q)"
  using map_sort_key [of content "\<lambda>(b, pr). - pr" q] by (simp add: by_priority_def content_def)

lemma enqueue_ok:
  assumes "unat p < 1024" "msg_queues s ! unat p \<noteq> []" "msg_ok m"
    and "malloc (kern_heap s) 32 = a" "a \<noteq> 0"
    and "malloc (insert a (kern_heap s)) (ucast (le32 m 4)) = b" "b \<noteq> 0"
  shows "mach_msg_enqueue malloc p m pr s =
    Inr (KERN_SUCCESS,
      s\<lparr>msg_queues := (msg_queues s)[unat p := insert_msg
          \<lparr>mq_node = a, mq_msg = b, mq_bytes = take (unat (le32 m 4)) m, mq_priority = pr,
           mq_timestamp = 0\<rparr> (msg_queues s ! unat p)],
        kern_heap := insert b (insert a (kern_heap s))\<rparr>)"
  using assms by (auto simp: mach_msg_enqueue_def read_msgh_size_def msg_ok_def Let_def)

lemma by_priority_Nil [simp]: "by_priority q = [] \<longleftrightarrow> q = []"
  unfolding by_priority_def by (metis length_0_conv length_sort)

lemma enqueue_run_ok:
  assumes "unat p < 1024" "length (msg_queues s) = 1024" "\<forall>h n. malloc h n \<noteq> 0"
    and "\<forall>(m, pr) \<in> set ms. msg_ok m" "msg_queues s ! unat p = by_priority q" "q \<noteq> []"
  shows "\<exists>s' new. kern_run malloc (map (\<lambda>(m, pr). Enqueue p m pr) ms) s =
      Inr (replicate (length ms) KERN_SUCCESS, s') \<and>
    msg_queues s' = (msg_queues s)[unat p := by_priority (q @ new)] \<and> map content new = map sent ms"
  using assms(2,4-)
proof (induction ms arbitrary: s q)
  case Nil
  then show ?case by (metis append_Nil2 kern_run.simps(1) list.simps(8) list.size(3) list_update_id replicate_0)
next
  case (Cons x ms)
  obtain m pr where x: "x = (m, pr)" by (cases x)
  let ?a = "malloc (kern_heap s) 32"
  let ?b = "malloc (insert ?a (kern_heap s)) (ucast (le32 m 4))"
  let ?new = "\<lparr>mq_node = ?a, mq_msg = ?b, mq_bytes = take (unat (le32 m 4)) m, mq_priority = pr,
           mq_timestamp = 0\<rparr>"
  define u where "u = s\<lparr>msg_queues := (msg_queues s)[unat p := by_priority (q @ [?new])],
        kern_heap := insert ?b (insert ?a (kern_heap s))\<rparr>"
  have e: "kern_do malloc (Enqueue p m pr) s = Inr (KERN_SUCCESS, u)"
    using Cons.prems x assms(1,3)
    by (simp add: enqueue_ok [OF _ _ _ refl _ refl] insert_msg_by_priority u_def)
  have "length (msg_queues u) = 1024" "msg_queues u ! unat p = by_priority (q @ [?new])"
    using Cons.prems(1) assms(1) by (simp_all add: u_def)
  with Cons.IH [of u "q @ [?new]"] Cons.prems(2) obtain s' new where
    r: "kern_run malloc (map (\<lambda>(m, pr). Enqueue p m pr) ms) u = Inr (replicate (length ms) KERN_SUCCESS, s')"
      "msg_queues s' = (msg_queues u)[unat p := by_priority ((q @ [?new]) @ new)]"
      "map content new = map sent ms" by auto
  have "kern_run malloc (map (\<lambda>(m, pr). Enqueue p m pr) (x # ms)) s =
      Inr (replicate (length (x # ms)) KERN_SUCCESS, s')"
    using e r(1) by (simp add: x del: kern_do.simps)
  moreover have "msg_queues s' = (msg_queues s)[unat p := by_priority (q @ ?new # new)]"
    using r(2) by (simp add: u_def)
  moreover have "map content (?new # new) = map sent (x # ms)"
    using r(3) by (simp add: content_def sent_def x)
  ultimately show ?case by blast
qed


text \<open>A message of the smallest well-formed size, an identifying byte at its start.\<close>

definition demo_msg :: "u8 \<Rightarrow> u8 list" where
  "demo_msg b = [b, 0, 0, 0, 8, 0, 0, 0]"

definition demo_node :: mach_msg_node where
  "demo_node = \<lparr>mq_node = 1, mq_msg = 2, mq_bytes = demo_msg 7, mq_priority = 5, mq_timestamp = 0\<rparr>"

definition demo_mach :: mach_kernel where
  "demo_mach = (mach_kernel0 {1, 2})\<lparr>msg_queues := (replicate 1024 [])[3 := [demo_node]]\<rparr>"

lemma demo_mach_heap: "finite (kern_heap demo_mach)"
  by (simp add: demo_mach_def mach_kernel0_def)

lemma demo_msg_ok [simp]: "le32 (demo_msg b) 4 = 8" "msg_ok (demo_msg b)" "length (demo_msg b) = 8"
  by (simp_all add: demo_msg_def le32_def msg_ok_def)

lemma demo_mach_queues [simp]:
  "length (msg_queues demo_mach) = 1024" "msg_queues demo_mach ! 3 = [demo_node]"
  by (simp_all add: demo_mach_def)


lemma le32_take: "8 \<le> n \<Longrightarrow> le32 (take n m) 4 = le32 m 4"
  by (simp add: le32_def)

text \<open>
  A well-formed message that is sent with a priority above everything in the queue is the one
  that the next receive returns, byte for byte, when the receiver has room for it; the pair of
  calls leaves the whole subsystem, heap included, as it was. A receiver with too little room
  gets an error and the message stays queued.
\<close>

theorem mach_msg_send_receive:
  assumes "malloc_ok malloc" "\<forall>h n. malloc h n \<noteq> 0" "finite (kern_heap s)" "unat p < 1024" "length (msg_queues s) = 1024"
    and "msg_queues s ! unat p = n # ns" "mq_priority n < pr" "msg_ok m"
  shows "\<exists>s'. mach_msg_enqueue malloc p m pr s = Inr (KERN_SUCCESS, s') \<and>
    mach_msg_dequeue p max_size s' =
      (if unat (le32 m 4) \<le> unat max_size
       then Inr (KERN_SUCCESS, take (unat (le32 m 4)) m, s)
       else Inr (KERN_RESOURCE_SHORTAGE, [], s'))"
proof -
  let ?a = "malloc (kern_heap s) 32"
  let ?b = "malloc (insert ?a (kern_heap s)) (ucast (le32 m 4))"
  have fresh: "?a \<notin> kern_heap s" "?b \<notin> insert ?a (kern_heap s)" "?b \<noteq> 0" "?a \<noteq> 0"
    using assms(1-3) by (auto simp: malloc_ok_def)
  have ne: "msg_queues s ! unat p \<noteq> []" using assms(6) by simp
  note e = enqueue_ok [where pr = pr, OF assms(4) ne assms(8) refl fresh(4) refl fresh(3)]
  have sz: "le32 (take (unat (le32 m 4)) m) 4 = le32 m 4" "\<not> length m < 8" "unat (le32 m 4) \<le> length m"
    "\<not> unat (le32 m 4) < 8"
    using assms(8) by (simp_all add: msg_ok_def le32_take)
  have heap: "insert ?b (insert ?a (kern_heap s)) - {?b} - {?a} = kern_heap s" "?b \<noteq> ?a"
    using fresh(1,2) by auto
  have queue: "(msg_queues s)[unat p := n # ns] = msg_queues s"
    using assms(6) by (metis list_update_id)
  show ?thesis
    unfolding e using assms(4-7) fresh heap sz queue
    by (simp add: mach_msg_dequeue_def insert_msg_def read_msgh_size_def free_addr_def)
qed

theorem mach_msg_send_receive_witness:
  "\<exists>s'. mach_msg_enqueue demo_malloc 3 (demo_msg 1) 6 demo_mach = Inr (KERN_SUCCESS, s') \<and>
    mach_msg_dequeue 3 100 s' = Inr (KERN_SUCCESS, demo_msg 1, demo_mach)"
  using mach_msg_send_receive [where malloc = demo_malloc and s = demo_mach and p = 3 and pr = 6 and
      m = "demo_msg 1" and n = demo_node and ns = "[]" and max_size = 100]
  by (simp add: demo_node_def demo_mach_heap)

end
