(* ===== verification/MachKernelRun.thy ===== *)
theory MachKernelRun
  imports MachKernelOk
begin

text \<open>
  Sequences of calls to the kernel side of the Mach layer: the invariant of the subsystem holds
  throughout, every block it owns is freed once, ports are named by the count of live ports, and
  the message queues stay unusable.
\<close>

section \<open>Every call keeps the invariant\<close>

definition unowned :: "mach_kernel \<Rightarrow> nat set" where
  "unowned s = kern_heap s - set (kern_owned s)"

fun message_call :: "kern_call \<Rightarrow> bool" where
  "message_call (Enqueue p m pr) \<longleftrightarrow> True"
| "message_call (Dequeue p n) \<longleftrightarrow> True"
| "message_call (Queue_Destroy p) \<longleftrightarrow> True"
| "message_call _ \<longleftrightarrow> False"

text \<open>What one call of the subsystem does to its state.\<close>

definition step_ok :: "mach_kernel \<Rightarrow> mach_kernel \<Rightarrow> bool" where
  "step_ok s s' \<longleftrightarrow> kern_inv s' \<and> unowned s' \<subseteq> unowned s"

lemma step_ok_refl [simp]: "step_ok s s \<longleftrightarrow> kern_inv s"
  by (simp add: step_ok_def)

lemma kern_owned_frame [simp]:
  "kern_owned (s\<lparr>kern_tasks := x\<rparr>) = kern_owned s"
  "kern_owned (s\<lparr>msg_queues := q, msg_queue_count := n\<rparr>) = kern_owned s"
  by (simp_all add: kern_owned_def)

lemma kern_owned_live: "kern_inv s \<Longrightarrow> a \<in> set (kern_owned s) \<Longrightarrow> a \<noteq> 0 \<and> a \<in> kern_heap s"
  unfolding kern_inv_def by (metis subsetD)

lemma port_allocate_ok:
  assumes "kern_inv s" "data = 0 \<or> data \<in> kern_heap s \<and> data \<notin> set (kern_owned s)"
    and "mach_port_allocate_kernel name data s = (r, p, s')"
  shows "step_ok s s'"
proof (cases "live_count (kern_ports s) < 2048")
  case False
  with assms show ?thesis by (simp add: mach_port_allocate_kernel_def)
next
  case True
  have s': "s' = s\<lparr>kern_ports := push_cell
             \<lparr>kp_port = of_nat (live_count (kern_ports s) + 0x1000),
              kp_name = strncpy_255 name ''kern_unnamed'', kp_ref_count = 1,
              kp_data = data, kp_is_kernel_port = True\<rparr> (kern_ports s)\<rparr>"
    using True assms(3) by (simp add: mach_port_allocate_kernel_def Let_def)
  have "live_count (kern_ports s) < length (cells (kern_ports s))" using True assms(1) by (simp add: kern_inv_def)
  note l = push_cell_live [OF this]
  have o: "kern_owned s' = kern_owned s @ (if data = 0 then [] else [data])"
    unfolding s' by (simp add: kern_owned_def l)
  have "kern_inv s'"
    using assms(1,2) unfolding kern_inv_def o unfolding s' by (auto simp: l)
  moreover have "unowned s' \<subseteq> unowned s" unfolding unowned_def o unfolding s' by auto
  ultimately show ?thesis by (simp add: step_ok_def)
qed

lemma task_create_ok:
  assumes "kern_inv s" "task_create_kernel pid name pr s = (r, p, s')"
  shows "step_ok s s'"
proof (cases "live_count (kern_tasks s) < 128")
  case False
  with assms show ?thesis by (simp add: task_create_kernel_def)
next
  case True
  then have "live_count (kern_tasks s) < length (cells (kern_tasks s))" using assms(1) by (simp add: kern_inv_def)
  note l = push_cell_live [OF this]
  show ?thesis using True assms
    by (auto simp: task_create_kernel_def Let_def step_ok_def kern_inv_def unowned_def l)
qed

lemma vm_allocate_ok:
  assumes "kern_inv s" "malloc_ok malloc" "vm_allocate_kernel malloc sz prot ow s = (r, a, s')"
  shows "step_ok s s'"
proof (cases "live_count (kern_memory s) < 4096 \<and> malloc (kern_heap s) sz \<noteq> 0")
  case False
  with assms show ?thesis by (auto simp: vm_allocate_kernel_def Let_def split: if_splits)
next
  case True
  let ?a = "malloc (kern_heap s) sz"
  have s': "s' = s\<lparr>kern_memory := push_cell
              \<lparr>km_addr = ?a, km_size = sz, km_protection = prot, km_is_mapped = True,
               km_owner = strncpy_255 ow ''kernel''\<rparr> (kern_memory s),
            kern_heap := insert ?a (kern_heap s)\<rparr>"
    using True assms(3) by (simp add: vm_allocate_kernel_def Let_def)
  have fin: "finite (kern_heap s)" using assms(1) by (simp add: kern_inv_def)
  have fresh: "?a \<notin> kern_heap s" using malloc_fresh [OF assms(2) fin] True by blast
  have "live_count (kern_memory s) < length (cells (kern_memory s))" using True assms(1) by (simp add: kern_inv_def)
  note l = push_cell_live [OF this]
  have o: "set (kern_owned s') = insert ?a (set (kern_owned s))"
    "distinct (kern_owned s') \<longleftrightarrow> ?a \<notin> set (kern_owned s) \<and> distinct (kern_owned s)"
    unfolding s' by (auto simp: kern_owned_def l)
  have "kern_inv s'"
    using assms(1) fresh True unfolding kern_inv_def o unfolding s' by (auto simp: l)
  moreover have "unowned s' \<subseteq> unowned s" unfolding unowned_def o unfolding s' by auto
  ultimately show ?thesis by (simp add: step_ok_def)
qed

lemma vm_deallocate_ok:
  assumes "kern_inv s"
  shows "\<exists>r s'. vm_deallocate_kernel addr s = Inr (r, s') \<and> step_ok s s'"
proof (cases "first_idx (\<lambda>e. km_addr e = addr) (live (kern_memory s))")
  case None
  with assms show ?thesis by (simp add: vm_deallocate_kernel_def del: first_idx_None)
next
  case (Some i)
  let ?mem = "map km_addr (live (kern_memory s))"
  have ok: "table_ok (kern_memory s)" using assms by (simp add: kern_inv_def)
  have i: "i < live_count (kern_memory s)" "?mem ! i = addr"
    using first_idx_SomeD [OF Some] ok by auto
  then have "addr \<in> set ?mem" using ok by (metis length_live length_map nth_mem)
  then have a: "addr \<in> set (kern_owned s)" by (simp add: kern_owned_def)
  then have nz: "addr \<noteq> 0" "addr \<in> kern_heap s" using kern_owned_live [OF assms] by auto
  define s' where "s' = s\<lparr>kern_memory := drop_cell i (kern_memory s), kern_heap := kern_heap s - {addr}\<rparr>"
  have d: "vm_deallocate_kernel addr s = Inr (KERN_SUCCESS, s')"
    using Some nz by (simp add: vm_deallocate_kernel_def free_addr_def s'_def)
  note l = drop_cell_live [OF ok i(1)]
  have o: "kern_owned s' = remove_nth i (kern_owned s)"
    using i(1) ok by (simp add: kern_owned_def s'_def l remove_nth_def take_map drop_map)
  have at: "kern_owned s ! i = addr" "i < length (kern_owned s)"
    using i ok by (simp_all add: kern_owned_def nth_append)
  have dist: "distinct (kern_owned s)" using assms by (simp add: kern_inv_def)
  have os: "set (kern_owned s') = set (kern_owned s) - {addr}"
    using set_remove_nth_distinct [OF at(2) dist] at(1) o by simp
  have "kern_inv s'"
    using assms dist unfolding kern_inv_def os unfolding o by (auto simp: s'_def l)
  moreover have "unowned s' \<subseteq> unowned s" unfolding unowned_def os by (auto simp: s'_def)
  ultimately show ?thesis using d by (auto simp: step_ok_def)
qed

text \<open>The ports table after the entry \<open>i\<close> has lost its last reference.\<close>

lemma owned_drop:
  fixes f :: "'e \<Rightarrow> nat"
  assumes "distinct (M @ filter (\<lambda>a. a \<noteq> 0) (map f (A @ e # B)))" "0 \<notin> set M"
  shows "distinct (M @ filter (\<lambda>a. a \<noteq> 0) (map f (A @ B)))"
    "set (M @ filter (\<lambda>a. a \<noteq> 0) (map f (A @ B))) =
     set (M @ filter (\<lambda>a. a \<noteq> 0) (map f (A @ e # B))) - {f e}"
  using assms by (auto split: if_splits)

lemma drop_port:
  fixes x :: kern_mach_port
  assumes "kern_inv s" "i < live_count (kern_ports s)"
  defines "e \<equiv> live (kern_ports s) ! i"
  defines "s' \<equiv> s\<lparr>kern_ports := drop_cell i (kern_ports s\<lparr>cells := (cells (kern_ports s))[i := x]\<rparr>),
      kern_heap := kern_heap s - {kp_data e}\<rparr>"
  shows "step_ok s s'" "live (kern_ports s') = remove_nth i (live (kern_ports s))"
proof -
  let ?t = "kern_ports s\<lparr>cells := (cells (kern_ports s))[i := x]\<rparr>"
  have t: "table_ok ?t" "i < live_count ?t" using assms(1,2) by (simp_all add: kern_inv_def table_ok_def)
  have lt: "i < length (live (kern_ports s))" using assms(1,2) by (simp add: kern_inv_def)
  have "live ?t = (live (kern_ports s))[i := x]" by (simp add: live_def take_update_swap)
  then have "remove_nth i (live ?t) = remove_nth i (live (kern_ports s))" by (simp add: remove_nth_def)
  with drop_cell_live [OF t] show l: "live (kern_ports s') = remove_nth i (live (kern_ports s))"
    by (simp add: s'_def)
  let ?xs = "live (kern_ports s)"
  have xs: "?xs = take i ?xs @ e # drop (Suc i) ?xs"
    using lt unfolding e_def by (rule id_take_nth_drop)
  have m: "kern_memory s' = kern_memory s" by (simp add: s'_def)
  have M: "0 \<notin> set (map km_addr (live (kern_memory s)))" "distinct (kern_owned s)"
    using assms(1) by (auto simp: kern_inv_def kern_owned_def)
  have "kern_owned s = map km_addr (live (kern_memory s)) @
      filter (\<lambda>a. a \<noteq> 0) (map kp_data (take i ?xs @ e # drop (Suc i) ?xs))"
    using xs by (simp add: kern_owned_def)
  moreover have "kern_owned s' = map km_addr (live (kern_memory s)) @
      filter (\<lambda>a. a \<noteq> 0) (map kp_data (take i ?xs @ drop (Suc i) ?xs))"
    by (simp add: kern_owned_def l m remove_nth_def)
  ultimately have o: "set (kern_owned s') = set (kern_owned s) - {kp_data e}" "distinct (kern_owned s')"
    using owned_drop [OF _ M(1)] M(2) by metis+
  have "kern_inv s'"
    using assms(1) o(2) drop_cell_live [OF t] set_remove_nth_subset [of i ?xs] l
    unfolding kern_inv_def o(1) by (auto simp: s'_def)
  moreover have "unowned s' \<subseteq> unowned s" unfolding unowned_def o(1) by (auto simp: s'_def)
  ultimately show "step_ok s s'" by (simp add: step_ok_def)
qed

lemma port_deallocate_unknown:
  "port \<notin> set (map kp_port (live (kern_ports s))) \<Longrightarrow>
   mach_port_deallocate_kernel port s = Inr (KERN_INVALID_NAME, s)"
proof -
  assume "port \<notin> set (map kp_port (live (kern_ports s)))"
  then have "first_idx (\<lambda>e. kp_port e = port) (live (kern_ports s)) = None" by auto
  then show ?thesis by (simp only: mach_port_deallocate_kernel_def Let_def option.case)
qed

lemma port_deallocate_ok:
  assumes "kern_inv s" "port \<in> set (map kp_port (live (kern_ports s)))"
  shows "\<exists>s'. mach_port_deallocate_kernel port s = Inr (KERN_SUCCESS, s') \<and> step_ok s s' \<and>
    map kp_port (live (kern_ports s')) = remove1 port (map kp_port (live (kern_ports s)))"
proof -
  let ?xs = "live (kern_ports s)"
  from assms(2) have "first_idx (\<lambda>e. kp_port e = port) ?xs \<noteq> None" by auto
  then obtain i where i: "first_idx (\<lambda>e. kp_port e = port) ?xs = Some i" by blast
  have lt: "i < length ?xs" using first_idx_less [OF i] .
  then have e: "?xs ! i \<in> set ?xs" by simp
  have c: "cells (kern_ports s) ! i = ?xs ! i" "i < live_count (kern_ports s)"
    using lt assms(1) by (simp_all add: kern_inv_def live_def)
  have rc: "kp_ref_count (?xs ! i) = 1" "0 \<notin> kern_heap s" using e assms(1) by (simp_all add: kern_inv_def)
  have "kp_data (?xs ! i) \<noteq> 0 \<Longrightarrow> kp_data (?xs ! i) \<in> set (kern_owned s)"
    using e by (simp add: kern_owned_def)
  then have h: "free_addr (kp_data (?xs ! i)) (kern_heap s) = Inr (kern_heap s - {kp_data (?xs ! i)})"
    using kern_owned_live [OF assms(1)] rc(2) by (auto simp: free_addr_def)
  note d = drop_port [OF assms(1) c(2), where x = "(?xs ! i)\<lparr>kp_ref_count := 0\<rparr>"]
  have "map kp_port (remove_nth i ?xs) = remove1 port (map kp_port ?xs)"
    using remove1_first_idx [OF i] by (simp add: map_remove_nth)
  with d show ?thesis
    by (auto simp: mach_port_deallocate_kernel_def Let_def i c h rc(1))
qed

lemma port_deallocate_total:
  "kern_inv s \<Longrightarrow> \<exists>r s'. mach_port_deallocate_kernel p s = Inr (r, s') \<and> step_ok s s'"
  using port_deallocate_ok [of s p] port_deallocate_unknown [of p s] step_ok_refl [of s] by metis

section \<open>The message queues are never usable\<close>

lemma message_call_refused:
  assumes "kern_inv s" "message_call c"
  shows "kern_do malloc c s = Inr (KERN_INVALID_NAME, s)"
proof -
  have q: "unat p < 1024 \<Longrightarrow> msg_queues s ! unat p = []" for p :: u32
    using assms(1) by (simp add: kern_inv_def)
  then have "1024 \<le> unat p \<or> msg_queues s ! unat p = []" for p :: u32
    using not_le_imp_less by blast
  with q assms(2) show ?thesis
    by (cases c) (auto simp: mach_msg_enqueue_def mach_msg_dequeue_def mach_msg_queue_destroy_def)
qed

lemma queue_create_ok:
  assumes "kern_inv s" "unat p < 1024"
  shows "\<exists>r s'. mach_msg_queue_create p s = Inr (r, s') \<and> step_ok s s'"
proof (cases "1024 \<le> msg_queue_count s")
  case True
  with assms show ?thesis by (simp add: mach_msg_queue_create_def)
next
  case False
  have q: "msg_queues s = replicate 1024 []" using assms(1) by (simp add: kern_inv_def)
  then have "(msg_queues s)[unat p := []] = msg_queues s"
    using assms(2) by (metis list_update_id nth_replicate)
  then have "step_ok s (s\<lparr>msg_queues := (msg_queues s)[unat p := []],
                             msg_queue_count := msg_queue_count s + 1\<rparr>)"
    using assms(1) unfolding step_ok_def kern_inv_def unowned_def by simp
  with False assms(2) q show ?thesis by (simp add: mach_msg_queue_create_def)
qed

section \<open>Sequences of calls\<close>

lemma kern_do_ok:
  assumes "kern_inv s" "malloc_ok malloc" "call_ok c s"
  shows "\<exists>r s'. kern_do malloc c s = Inr (r, s') \<and> step_ok s s'"
proof (cases "message_call c")
  case True
  with assms message_call_refused show ?thesis by fastforce
next
  case False
  then show ?thesis
    using assms port_allocate_ok [OF assms(1)] port_deallocate_total [OF assms(1)]
      queue_create_ok [OF assms(1)] task_create_ok [OF assms(1)]
      vm_allocate_ok [OF assms(1,2)] vm_deallocate_ok [OF assms(1)]
    by (cases c) (auto split: prod.splits)
qed

lemma kern_run_ok:
  "kern_inv s \<Longrightarrow> malloc_ok malloc \<Longrightarrow> calls_ok malloc cs s \<Longrightarrow>
   \<exists>rs s'. kern_run malloc cs s = Inr (rs, s') \<and> step_ok s s' \<and> length rs = length cs \<and>
     (\<forall>i < length cs. message_call (cs ! i) \<longrightarrow> rs ! i = KERN_INVALID_NAME)"
proof (induction cs arbitrary: s)
  case Nil
  then show ?case by simp
next
  case (Cons c cs)
  then have "call_ok c s" by simp
  from kern_do_ok [OF Cons.prems(1,2) this] obtain r u where
    r: "kern_do malloc c s = Inr (r, u)" "step_ok s u" by blast
  have "kern_inv u" "calls_ok malloc cs u" using r Cons.prems(3) by (simp_all add: step_ok_def)
  from Cons.IH [OF this(1) Cons.prems(2) this(2)] obtain rs s' where
    s': "kern_run malloc cs u = Inr (rs, s')" "step_ok u s'" "length rs = length cs"
      "\<forall>i < length cs. message_call (cs ! i) \<longrightarrow> rs ! i = KERN_INVALID_NAME" by blast
  have "message_call c \<Longrightarrow> r = KERN_INVALID_NAME"
    using message_call_refused [OF Cons.prems(1)] r(1) by fastforce
  then have "\<forall>i < length (c # cs). message_call ((c # cs) ! i) \<longrightarrow> (r # rs) ! i = KERN_INVALID_NAME"
    using s'(4) by (simp add: nth_Cons split: nat.split)
  moreover have "kern_run malloc (c # cs) s = Inr (r # rs, s')" using r(1) s'(1) by simp
  moreover have "step_ok s s'" using r(2) s'(2) by (auto simp: step_ok_def)
  ultimately show ?case using s'(3) by (metis length_Cons)
qed

section \<open>Start and end of the subsystem\<close>

lemma live_init_ports:
  "live (kern_ports (snd (mach_kernel_init t s))) =
     [zero_port\<lparr>kp_port := 0, kp_name := ''MACH_PORT_NULL'', kp_ref_count := 1, kp_is_kernel_port := True\<rparr>,
      zero_port\<lparr>kp_port := - 1, kp_name := ''MACH_PORT_DEAD'', kp_ref_count := 1, kp_is_kernel_port := True\<rparr>]"
  by (simp add: mach_kernel_init_def live_def take_2_replicate)

lemma mach_kernel_init_inv:
  assumes "finite h" "0 \<notin> h"
  shows "kern_inv (snd (mach_kernel_init t (mach_kernel0 h)))"
    "kern_owned (snd (mach_kernel_init t (mach_kernel0 h))) = []"
    "kern_heap (snd (mach_kernel_init t (mach_kernel0 h))) = h"
proof -
  let ?s = "snd (mach_kernel_init t (mach_kernel0 h))"
  have m: "live (kern_memory ?s) = []"
    by (simp add: mach_kernel_init_def mach_kernel0_def live_def)
  show o: "kern_owned ?s = []"
    unfolding kern_owned_def m live_init_ports by (simp add: zero_port_def)
  show h: "kern_heap ?s = h" by (simp add: mach_kernel_init_def mach_kernel0_def)
  show "kern_inv ?s"
    unfolding kern_inv_def o h live_init_ports using assms
    by (simp add: mach_kernel_init_def mach_kernel0_def table_ok_def)
qed

lemma destroy_queues_none:
  "\<forall>i \<in> set is. msg_queues s ! i = [] \<Longrightarrow> destroy_queues is s = Inr s"
  by (induction "is") auto

lemma mach_kernel_cleanup_ok:
  assumes "kern_inv s"
  shows "mach_kernel_cleanup s = Inr (mach_kernel0 (unowned s))"
proof -
  let ?m = "map km_addr (live (kern_memory s))" and ?p = "map kp_data (live (kern_ports s))"
  have "\<forall>i \<in> set [0..<1024]. msg_queues s ! i = []"
    using assms by (simp add: kern_inv_def)
  then have q: "destroy_queues [0..<1024] s = Inr s" by (rule destroy_queues_none)
  have own: "0 \<notin> set (kern_owned s)" "distinct (kern_owned s)" "set (kern_owned s) \<subseteq> kern_heap s"
    using assms by (simp_all add: kern_inv_def)
  have "distinct (filter (\<lambda>a. a \<noteq> 0) ?m)" "set ?m - {0} \<subseteq> kern_heap s" "set ?m - {0} = set ?m"
    using own by (auto simp: kern_owned_def)
  then have 1: "free_addrs ?m (kern_heap s) = Inr (kern_heap s - set ?m)"
    using free_addrs_ok [of ?m "kern_heap s"] by simp
  have "distinct (filter (\<lambda>a. a \<noteq> 0) ?p)" "set ?p - {0} \<subseteq> kern_heap s - set ?m"
    using own by (auto simp: kern_owned_def)
  then have 2: "free_addrs ?p (kern_heap s - set ?m) = Inr (kern_heap s - set ?m - (set ?p - {0}))"
    by (rule free_addrs_ok)
  have 3: "kern_heap s - set ?m - (set ?p - {0}) = unowned s"
    by (auto simp: unowned_def kern_owned_def)
  show ?thesis by (simp only: mach_kernel_cleanup_def q 1 2 3 sum.case mach_kernel0_def)
qed

text \<open>
  C31: From the start of the subsystem, any sequence of calls whose arguments are legal runs
  through: no block is freed twice and no call leaves its tables. The cleanup that follows frees
  everything the subsystem still owns, so that the heap holds no block that was not there before,
  and puts every table back to its state at program start.
\<close>

theorem mach_kernel_lifecycle:
  assumes "finite h" "0 \<notin> h" "malloc_ok malloc"
    and "calls_ok malloc cs (snd (mach_kernel_init t (mach_kernel0 h)))"
  shows "\<exists>rs s h'. kern_run malloc cs (snd (mach_kernel_init t (mach_kernel0 h))) = Inr (rs, s) \<and>
    mach_kernel_cleanup s = Inr (mach_kernel0 h') \<and> h' \<subseteq> h"
proof -
  let ?s = "snd (mach_kernel_init t (mach_kernel0 h))"
  note i = mach_kernel_init_inv [OF assms(1,2), of t]
  from kern_run_ok [OF i(1) assms(3,4)] obtain rs s where
    r: "kern_run malloc cs ?s = Inr (rs, s)" "step_ok ?s s" by blast
  then have "mach_kernel_cleanup s = Inr (mach_kernel0 (unowned s))" "unowned s \<subseteq> h"
    using mach_kernel_cleanup_ok i by (auto simp: step_ok_def unowned_def)
  with r(1) show ?thesis by blast
qed

text \<open>Two ports with a block handed over, a region, and both freed again in part.\<close>

definition demo_calls :: "kern_call list" where
  "demo_calls = [Port_Allocate None 7, Port_Allocate (Some ''clock'') 0, Vm_Allocate 64 3 None,
     Queue_Create 9, Enqueue 9 (demo_msg 1) 4, Dequeue 9 24, Port_Deallocate 0x1002]"

lemma calls_ok_always: "\<forall>c \<in> set cs. \<forall>s. call_ok c s \<Longrightarrow> calls_ok malloc cs s"
  by (induction cs arbitrary: s) (auto split: sum.splits)

lemma demo_calls_ok:
  assumes "kern_heap s = {7}" "kern_owned s = []"
  shows "calls_ok demo_malloc demo_calls s"
proof -
  have "\<forall>c \<in> set (tl demo_calls). \<forall>s. call_ok c s" by (auto simp: demo_calls_def)
  then have "calls_ok demo_malloc (tl demo_calls) u" for u by (rule calls_ok_always)
  then have "calls_ok demo_malloc (Port_Allocate None 7 # tl demo_calls) s"
    using assms by (simp split: sum.splits prod.splits)
  then show ?thesis by (simp add: demo_calls_def)
qed

theorem mach_kernel_lifecycle_witness:
  "\<exists>rs s h'. kern_run demo_malloc demo_calls (snd (mach_kernel_init 5 (mach_kernel0 {7}))) = Inr (rs, s) \<and>
    mach_kernel_cleanup s = Inr (mach_kernel0 h') \<and> h' \<subseteq> {7}"
  using mach_kernel_lifecycle [where h = "{7}" and malloc = demo_malloc and t = 5 and cs = demo_calls]
    mach_kernel_init_inv [of "{7}" 5] demo_calls_ok by simp

text \<open>
  From the start of the subsystem, no legal sequence of calls ever queues a message: a new
  queue is the null pointer, which sending, receiving and destroying take for a missing queue, so
  each of these calls answers \<^verbatim>\<open>KERN_INVALID_NAME\<close>.
\<close>

theorem mach_messages_refused:
  assumes "finite h" "0 \<notin> h" "malloc_ok malloc"
    and "calls_ok malloc cs (snd (mach_kernel_init t (mach_kernel0 h)))"
  shows "\<exists>rs s. kern_run malloc cs (snd (mach_kernel_init t (mach_kernel0 h))) = Inr (rs, s) \<and>
    msg_queues s = replicate 1024 [] \<and>
    (\<forall>i < length cs. message_call (cs ! i) \<longrightarrow> rs ! i = KERN_INVALID_NAME)"
  using kern_run_ok [OF mach_kernel_init_inv(1) [OF assms(1,2)] assms(3,4)]
  by (auto simp: step_ok_def kern_inv_def)

theorem mach_messages_refused_witness:
  "\<exists>rs s. kern_run demo_malloc demo_calls (snd (mach_kernel_init 5 (mach_kernel0 {7}))) = Inr (rs, s) \<and>
    rs ! 4 = KERN_INVALID_NAME \<and> rs ! 5 = KERN_INVALID_NAME"
proof -
  have "calls_ok demo_malloc demo_calls (snd (mach_kernel_init 5 (mach_kernel0 {7})))"
    using mach_kernel_init_inv [of "{7}" 5] demo_calls_ok by simp
  from mach_messages_refused [OF _ _ _ this] obtain rs s where
    r: "kern_run demo_malloc demo_calls (snd (mach_kernel_init 5 (mach_kernel0 {7}))) = Inr (rs, s)"
      "\<forall>i < length demo_calls. message_call (demo_calls ! i) \<longrightarrow> rs ! i = KERN_INVALID_NAME" by auto
  have "rs ! 4 = KERN_INVALID_NAME" "rs ! 5 = KERN_INVALID_NAME"
    using r(2) [rule_format, of 4] r(2) [rule_format, of 5] by (simp_all add: demo_calls_def)
  with r(1) show ?thesis by blast
qed

section \<open>Names of ports\<close>

definition kern_port_names :: "mach_kernel \<Rightarrow> u32 list" where
  "kern_port_names s = map kp_port (live (kern_ports s))"

lemma port_allocate_names:
  assumes "kern_inv s" "mach_port_allocate_kernel name data s = (r, p, s')"
  shows "live_count (kern_ports s) < 2048 \<Longrightarrow> r = KERN_SUCCESS \<and>
      p = Some (of_nat (length (kern_port_names s) + 0x1000)) \<and>
      kern_port_names s' = kern_port_names s @ [of_nat (length (kern_port_names s) + 0x1000)]"
    "2048 \<le> live_count (kern_ports s) \<Longrightarrow> r = KERN_RESOURCE_SHORTAGE \<and> p = None \<and> s' = s"
  using assms by (auto simp: mach_port_allocate_kernel_def Let_def kern_port_names_def kern_inv_def)

definition kern_port_get :: "string option \<times> nat \<Rightarrow> mach_kernel \<Rightarrow> (u32 \<times> mach_kernel) option" where
  "kern_port_get c s = (case mach_port_allocate_kernel (fst c) (snd c) s of
     (_, None, _) \<Rightarrow> None | (_, Some p, s') \<Rightarrow> Some (p, s'))"

definition kern_port_put :: "u32 \<Rightarrow> mach_kernel \<Rightarrow> mach_kernel option" where
  "kern_port_put p s = (case mach_port_deallocate_kernel p s of
     Inl e \<Rightarrow> None | Inr (r, s') \<Rightarrow> if r = KERN_SUCCESS then Some s' else None)"

interpretation kports: name_table kern_inv "\<lambda>s c. call_ok (Port_Allocate (fst c) (snd c)) s"
  kern_port_names 2048 "0x1000" kern_port_get kern_port_put
proof unfold_locales
  fix s c n s'
  assume a: "kern_inv s" "call_ok (Port_Allocate (fst c) (snd c)) s" "kern_port_get c s = Some (n, s')"
  then obtain r where r: "mach_port_allocate_kernel (fst c) (snd c) s = (r, Some n, s')"
    by (auto simp: kern_port_get_def split: prod.splits option.splits)
  from a(2) have "snd c = 0 \<or> snd c \<in> kern_heap s \<and> snd c \<notin> set (kern_owned s)" by simp
  from port_allocate_ok [OF a(1) this r] port_allocate_names [OF a(1) r]
  show "kern_inv s' \<and> n = of_nat (length (kern_port_names s) + 0x1000) \<and>
      kern_port_names s' = kern_port_names s @ [n]"
    by (cases "live_count (kern_ports s) < 2048") (auto simp: step_ok_def)
next
  fix s c assume "kern_inv s"
  then show "kern_port_get c s = None \<longleftrightarrow> 2048 \<le> length (kern_port_names s)"
    by (auto simp: kern_port_get_def mach_port_allocate_kernel_def Let_def kern_port_names_def kern_inv_def)
next
  fix s n s' assume a: "kern_inv s" "kern_port_put n s = Some s'"
  then have r: "mach_port_deallocate_kernel n s = Inr (KERN_SUCCESS, s')"
    by (auto simp: kern_port_put_def split: sum.splits prod.splits if_splits)
  then have "n \<in> set (map kp_port (live (kern_ports s)))"
    using port_deallocate_unknown [of n s] by (cases "n \<in> set (map kp_port (live (kern_ports s)))") auto
  from port_deallocate_ok [OF a(1) this] r
  show "kern_inv s' \<and> kern_port_names s' = remove1 n (kern_port_names s)"
    by (simp add: step_ok_def kern_port_names_def)
next
  fix s n assume i: "kern_inv s"
  show "kern_port_put n s = None \<longleftrightarrow> n \<notin> set (kern_port_names s)"
    using port_deallocate_ok [OF i, of n] port_deallocate_unknown [of n s]
    by (cases "n \<in> set (kern_port_names s)") (auto simp: kern_port_put_def kern_port_names_def)
next
  fix s assume "kern_inv s"
  then show "length (kern_port_names s) \<le> 2048"
    by (simp add: kern_port_names_def kern_inv_def table_ok_def)
qed simp

text \<open>
  Port names are not unique. In every state of the subsystem with room for two ports, if two
  ports are allocated and the first is deallocated, the next allocation answers the name of the
  second, which is still live: two live entries then have one name.
\<close>

theorem kernel_port_names_collide:
  assumes "kern_inv s" "mach_port_allocate_kernel x 0 s = (KERN_SUCCESS, Some n\<^sub>1, s\<^sub>1)"
    and "mach_port_allocate_kernel y 0 s\<^sub>1 = (KERN_SUCCESS, Some n\<^sub>2, s\<^sub>2)" "n\<^sub>1 \<notin> set (kern_port_names s)"
  shows "\<exists>s\<^sub>3 s\<^sub>4. mach_port_deallocate_kernel n\<^sub>1 s\<^sub>2 = Inr (KERN_SUCCESS, s\<^sub>3) \<and>
    mach_port_allocate_kernel z 0 s\<^sub>3 = (KERN_SUCCESS, Some n\<^sub>2, s\<^sub>4) \<and>
    kern_port_names s\<^sub>4 = kern_port_names s @ [n\<^sub>2, n\<^sub>2]"
proof -
  have g: "kern_port_get (x, 0) s = Some (n\<^sub>1, s\<^sub>1)" "kern_port_get (y, 0) s\<^sub>1 = Some (n\<^sub>2, s\<^sub>2)"
    using assms(2,3) by (simp_all add: kern_port_get_def)
  from kports.alloc_reuses_live_name [where c\<^sub>3 = "(z, 0)", OF assms(1) _ _ _ g assms(4)]
  obtain s\<^sub>3 s\<^sub>4 where r: "kern_port_put n\<^sub>1 s\<^sub>2 = Some s\<^sub>3" "kern_port_get (z, 0) s\<^sub>3 = Some (n\<^sub>2, s\<^sub>4)"
    "kern_port_names s\<^sub>4 = kern_port_names s @ [n\<^sub>2, n\<^sub>2]" by auto
  have "mach_port_deallocate_kernel n\<^sub>1 s\<^sub>2 = Inr (KERN_SUCCESS, s\<^sub>3)"
    using r(1) by (auto simp: kern_port_put_def split: sum.splits prod.splits if_splits)
  moreover have "mach_port_allocate_kernel z 0 s\<^sub>3 = (KERN_SUCCESS, Some n\<^sub>2, s\<^sub>4)"
    using r(2) by (auto simp: kern_port_get_def mach_port_allocate_kernel_def Let_def split: if_splits)
  ultimately show ?thesis using r(3) by blast
qed

theorem kernel_port_names_collide_witness:
  "\<exists>s\<^sub>1 s\<^sub>2 s\<^sub>3 s\<^sub>4.
    mach_port_allocate_kernel None 0 (snd (mach_kernel_init 5 (mach_kernel0 {}))) = (KERN_SUCCESS, Some 0x1002, s\<^sub>1) \<and>
    mach_port_allocate_kernel None 0 s\<^sub>1 = (KERN_SUCCESS, Some 0x1003, s\<^sub>2) \<and>
    mach_port_deallocate_kernel 0x1002 s\<^sub>2 = Inr (KERN_SUCCESS, s\<^sub>3) \<and>
    mach_port_allocate_kernel None 0 s\<^sub>3 = (KERN_SUCCESS, Some 0x1003, s\<^sub>4) \<and>
    kern_port_names s\<^sub>4 = [0, - 1, 0x1003, 0x1003]"
proof -
  let ?s = "snd (mach_kernel_init 5 (mach_kernel0 {}))"
  have i: "kern_inv ?s" by (rule mach_kernel_init_inv) simp_all
  have c: "live_count (kern_ports ?s) = 2" by (simp add: mach_kernel_init_def)
  have ns: "kern_port_names ?s = [0, - 1]" by (simp add: kern_port_names_def live_init_ports)
  obtain s\<^sub>1 where 1: "mach_port_allocate_kernel None 0 ?s = (KERN_SUCCESS, Some 0x1002, s\<^sub>1)"
    "live_count (kern_ports s\<^sub>1) = 3"
    using c by (simp add: mach_port_allocate_kernel_def push_cell_def)
  obtain s\<^sub>2 where 2: "mach_port_allocate_kernel None 0 s\<^sub>1 = (KERN_SUCCESS, Some 0x1003, s\<^sub>2)"
    using 1(2) by (simp add: mach_port_allocate_kernel_def push_cell_def)
  have "0x1002 \<notin> set (kern_port_names ?s)" by (simp add: ns)
  from kernel_port_names_collide [OF i 1(1) 2 this, of None] 1 2 ns show ?thesis by auto
qed

section \<open>Queues of allocated ports\<close>

text \<open>
  C40: The queue of a port that the subsystem itself has allocated cannot be made: the names of
  allocated ports start at \<^verbatim>\<open>0x1000\<close>, and making the queue writes outside the array of 1024 queues,
  which the function does not check.
\<close>

theorem queue_of_allocated_port_out_of_bounds:
  assumes "kern_inv s" "mach_port_allocate_kernel name data s = (KERN_SUCCESS, Some p, s')"
    and "msg_queue_count s < 1024"
  shows "mach_msg_queue_create p s' = Inl Out_Of_Bounds"
proof -
  have c: "live_count (kern_ports s) < 2048" "p = of_nat (live_count (kern_ports s) + 0x1000)"
    "msg_queues s' = msg_queues s" "msg_queue_count s' = msg_queue_count s"
    using assms(2) by (auto simp: mach_port_allocate_kernel_def Let_def split: if_splits)
  then have "unat p = live_count (kern_ports s) + 0x1000"
    by (simp add: unat_of_nat del: of_nat_add)
  with c(3,4) assms(1,3) show ?thesis by (simp add: mach_msg_queue_create_def kern_inv_def)
qed

theorem queue_of_allocated_port_out_of_bounds_witness:
  "\<exists>s'. mach_port_allocate_kernel None 0 (snd (mach_kernel_init 5 (mach_kernel0 {}))) =
      (KERN_SUCCESS, Some 0x1002, s') \<and> mach_msg_queue_create 0x1002 s' = Inl Out_Of_Bounds"
proof -
  let ?s = "snd (mach_kernel_init 5 (mach_kernel0 {}))"
  have i: "kern_inv ?s" by (rule mach_kernel_init_inv) simp_all
  have c: "live_count (kern_ports ?s) = 2" "msg_queue_count ?s < 1024"
    by (simp_all add: mach_kernel_init_def mach_kernel0_def)
  obtain s' where "mach_port_allocate_kernel None 0 ?s = (KERN_SUCCESS, Some 0x1002, s')"
    using c by (simp add: mach_port_allocate_kernel_def)
  with queue_of_allocated_port_out_of_bounds [OF i this c(2)] show ?thesis by blast
qed

end
