(* ===== verification/MachUser.thy ===== *)
theory MachUser
  imports MachTable
begin

text \<open>
  The user side of the Mach layer (\<^verbatim>\<open>src/mach/userspace_patches.c\<close>): ports, tasks and message
  buffers. Sending only checks its argument and receiving fills in a fixed header; neither goes
  to the kernel side. Ports and tasks both interpret the contract \<open>name_table\<close>.
\<close>

section \<open>State\<close>

record mach_port_entry =
  mp_port :: u32
  mp_name :: string
  mp_ref_count :: int
  mp_is_kernel :: bool

record mach_task_entry =
  mt_task :: u32
  mt_pid :: int
  mt_name :: string
  mt_active :: bool

record mach_msg_buffer =
  mb_buffer :: nat
  mb_size :: u64
  mb_in_use :: bool

record mach_msg_header =
  msgh_bits :: u32
  msgh_size :: u32
  msgh_remote_port :: u32
  msgh_local_port :: u32
  msgh_voucher_port :: u32
  msgh_id :: u32

record mach_user =
  port_table :: "mach_port_entry ctable"
  task_table :: "mach_task_entry ctable"
  msg_buffers :: "mach_msg_buffer ctable"
  user_heap :: "nat set"

definition zero_port_entry :: mach_port_entry where
  "zero_port_entry = \<lparr>mp_port = 0, mp_name = '''', mp_ref_count = 0, mp_is_kernel = False\<rparr>"

definition zero_task_entry :: mach_task_entry where
  "zero_task_entry = \<lparr>mt_task = 0, mt_pid = 0, mt_name = '''', mt_active = False\<rparr>"

definition zero_buffer :: mach_msg_buffer where
  "zero_buffer = \<lparr>mb_buffer = 0, mb_size = 0, mb_in_use = False\<rparr>"

section \<open>Operations\<close>

text \<open>The count of message buffers is not reset by the initialisation.\<close>

definition mach_userspace_init :: "u32 \<Rightarrow> int \<Rightarrow> mach_user \<Rightarrow> kern_return \<times> mach_user" where
  "mach_userspace_init task_self pid s =
     (KERN_SUCCESS,
      s\<lparr>port_table :=
          \<lparr>cells = (replicate 1024 zero_port_entry)
             [0 := zero_port_entry\<lparr>mp_port := MACH_PORT_NULL, mp_name := ''MACH_PORT_NULL'', mp_ref_count := 1\<rparr>,
              1 := zero_port_entry\<lparr>mp_port := MACH_PORT_DEAD, mp_name := ''MACH_PORT_DEAD'', mp_ref_count := 1\<rparr>],
           live_count = 2\<rparr>,
        task_table :=
          \<lparr>cells = (replicate 64 zero_task_entry)
             [0 := \<lparr>mt_task = task_self, mt_pid = pid, mt_name = ''kernel_task'', mt_active = True\<rparr>],
           live_count = 1\<rparr>,
        msg_buffers := (msg_buffers s)\<lparr>cells := replicate 256 zero_buffer\<rparr>\<rparr>)"

definition mach_port_allocate_userspace ::
  "string option \<Rightarrow> mach_user \<Rightarrow> kern_return \<times> u32 option \<times> mach_user" where
  "mach_port_allocate_userspace name s =
     (if 1024 \<le> live_count (port_table s) then (KERN_RESOURCE_SHORTAGE, None, s)
      else let new_port = of_nat (live_count (port_table s) + 1000) in
        (KERN_SUCCESS, Some new_port,
         s\<lparr>port_table := push_cell
             \<lparr>mp_port = new_port, mp_name = strncpy_255 name ''unnamed'', mp_ref_count = 1,
              mp_is_kernel = False\<rparr> (port_table s)\<rparr>))"

definition mach_port_deallocate_userspace :: "u32 \<Rightarrow> mach_user \<Rightarrow> kern_return \<times> mach_user" where
  "mach_port_deallocate_userspace port s =
     (let t = port_table s in
      case first_idx (\<lambda>e. mp_port e = port) (live t) of
        None \<Rightarrow> (KERN_INVALID_NAME, s)
      | Some i \<Rightarrow>
          let e = cells t ! i;
              e' = e\<lparr>mp_ref_count := mp_ref_count e - 1\<rparr>;
              t' = t\<lparr>cells := (cells t)[i := e']\<rparr> in
          if mp_ref_count e' \<le> 0 then (KERN_SUCCESS, s\<lparr>port_table := drop_cell i t'\<rparr>)
          else (KERN_SUCCESS, s\<lparr>port_table := t'\<rparr>))"

definition mach_msg_buffer_allocate ::
  "(nat set \<Rightarrow> u64 \<Rightarrow> nat) \<Rightarrow> u64 \<Rightarrow> mach_user \<Rightarrow> nat \<times> mach_user" where
  "mach_msg_buffer_allocate malloc sz s =
     (if 256 \<le> live_count (msg_buffers s) then (0, s)
      else let buffer = malloc (user_heap s) sz in
        if buffer = 0 then (0, s)
        else (buffer,
          s\<lparr>msg_buffers := push_cell \<lparr>mb_buffer = buffer, mb_size = sz, mb_in_use = True\<rparr> (msg_buffers s),
            user_heap := insert buffer (user_heap s)\<rparr>))"

definition mach_msg_buffer_deallocate :: "nat \<Rightarrow> mach_user \<Rightarrow> mach_user outcome" where
  "mach_msg_buffer_deallocate buffer s =
     (case first_idx (\<lambda>e. mb_buffer e = buffer) (live (msg_buffers s)) of
        None \<Rightarrow> Inr s
      | Some i \<Rightarrow>
          (case free_addr buffer (user_heap s) of
             Inl e \<Rightarrow> Inl e
           | Inr h \<Rightarrow> Inr (s\<lparr>msg_buffers := drop_cell i (msg_buffers s), user_heap := h\<rparr>)))"

definition mach_msg_send_userspace :: "mach_msg_header option \<Rightarrow> u32 \<Rightarrow> kern_return" where
  "mach_msg_send_userspace msg timeout =
     (case msg of None \<Rightarrow> KERN_INVALID_ARGUMENT | Some m \<Rightarrow> KERN_SUCCESS)"

definition mach_msg_receive_userspace ::
  "mach_msg_header option \<Rightarrow> u32 \<Rightarrow> kern_return \<times> mach_msg_header option" where
  "mach_msg_receive_userspace msg timeout =
     (case msg of
        None \<Rightarrow> (KERN_INVALID_ARGUMENT, None)
      | Some m \<Rightarrow> (KERN_SUCCESS,
          Some \<lparr>msgh_bits = 2, msgh_size = 24, msgh_remote_port = MACH_PORT_NULL,
                msgh_local_port = MACH_PORT_NULL, msgh_voucher_port = MACH_PORT_NULL, msgh_id = 0\<rparr>))"

definition task_create_userspace ::
  "int \<Rightarrow> string option \<Rightarrow> mach_user \<Rightarrow> kern_return \<times> u32 option \<times> mach_user" where
  "task_create_userspace pid name s =
     (if 64 \<le> live_count (task_table s) then (KERN_RESOURCE_SHORTAGE, None, s)
      else let new_task = of_nat (live_count (task_table s) + 2000) in
        (KERN_SUCCESS, Some new_task,
         s\<lparr>task_table := push_cell
             \<lparr>mt_task = new_task, mt_pid = pid, mt_name = strncpy_255 name ''unnamed_task'',
              mt_active = True\<rparr> (task_table s)\<rparr>))"

definition task_terminate_userspace :: "u32 \<Rightarrow> mach_user \<Rightarrow> kern_return \<times> mach_user" where
  "task_terminate_userspace task s =
     (case first_idx (\<lambda>e. mt_task e = task) (live (task_table s)) of
        None \<Rightarrow> (KERN_INVALID_TASK, s)
      | Some i \<Rightarrow> (KERN_SUCCESS, s\<lparr>task_table := drop_cell i (task_table s)\<rparr>))"

definition mach_userspace_cleanup :: "mach_user \<Rightarrow> mach_user outcome" where
  "mach_userspace_cleanup s =
     (case free_addrs (map mb_buffer (live (msg_buffers s))) (user_heap s) of
        Inl e \<Rightarrow> Inl e
      | Inr h \<Rightarrow> Inr
          \<lparr>port_table = \<lparr>cells = replicate 1024 zero_port_entry, live_count = 0\<rparr>,
           task_table = \<lparr>cells = replicate 64 zero_task_entry, live_count = 0\<rparr>,
           msg_buffers = \<lparr>cells = replicate 256 zero_buffer, live_count = 0\<rparr>,
           user_heap = h\<rparr>)"

definition mach_user0 :: "nat set \<Rightarrow> mach_user" where
  "mach_user0 h =
     \<lparr>port_table = \<lparr>cells = replicate 1024 zero_port_entry, live_count = 0\<rparr>,
      task_table = \<lparr>cells = replicate 64 zero_task_entry, live_count = 0\<rparr>,
      msg_buffers = \<lparr>cells = replicate 256 zero_buffer, live_count = 0\<rparr>, user_heap = h\<rparr>"

section \<open>Invariant\<close>

definition user_buffers :: "mach_user \<Rightarrow> nat list" where
  "user_buffers s = map mb_buffer (live (msg_buffers s))"

definition user_inv :: "mach_user \<Rightarrow> bool" where
  "user_inv s \<longleftrightarrow>
     length (cells (port_table s)) = 1024 \<and> table_ok (port_table s) \<and>
     (\<forall>e \<in> set (live (port_table s)). mp_ref_count e = 1) \<and>
     length (cells (task_table s)) = 64 \<and> table_ok (task_table s) \<and>
     length (cells (msg_buffers s)) = 256 \<and> table_ok (msg_buffers s) \<and>
     finite (user_heap s) \<and> distinct (user_buffers s) \<and>
     0 \<notin> set (user_buffers s) \<and> set (user_buffers s) \<subseteq> user_heap s"

lemma mach_userspace_init_inv:
  assumes "finite h"
  shows "user_inv (snd (mach_userspace_init t p (mach_user0 h)))"
  using assms
  by (simp add: take_2_replicate user_inv_def mach_userspace_init_def mach_user0_def table_ok_def live_def user_buffers_def)

section \<open>Names of ports and tasks\<close>

definition user_port_names :: "mach_user \<Rightarrow> u32 list" where
  "user_port_names s = map mp_port (live (port_table s))"

definition user_task_names :: "mach_user \<Rightarrow> u32 list" where
  "user_task_names s = map mt_task (live (task_table s))"

definition port_get :: "string option \<Rightarrow> mach_user \<Rightarrow> (u32 \<times> mach_user) option" where
  "port_get n s = (case mach_port_allocate_userspace n s of (_, None, _) \<Rightarrow> None | (_, Some p, s') \<Rightarrow> Some (p, s'))"

definition port_put :: "u32 \<Rightarrow> mach_user \<Rightarrow> mach_user option" where
  "port_put p s = (case mach_port_deallocate_userspace p s of (r, s') \<Rightarrow> if r = KERN_SUCCESS then Some s' else None)"

definition task_get :: "int \<times> string option \<Rightarrow> mach_user \<Rightarrow> (u32 \<times> mach_user) option" where
  "task_get c s = (case task_create_userspace (fst c) (snd c) s of (_, None, _) \<Rightarrow> None | (_, Some p, s') \<Rightarrow> Some (p, s'))"

definition task_put :: "u32 \<Rightarrow> mach_user \<Rightarrow> mach_user option" where
  "task_put p s = (case task_terminate_userspace p s of (r, s') \<Rightarrow> if r = KERN_SUCCESS then Some s' else None)"

lemma user_buffers_frame [simp]:
  "user_buffers (s\<lparr>port_table := x\<rparr>) = user_buffers s" "user_buffers (s\<lparr>task_table := y\<rparr>) = user_buffers s"
  by (simp_all add: user_buffers_def)

lemma first_idx_map_eq:
  "k \<in> set (map f xs) \<Longrightarrow> \<exists>i < length xs. first_idx (\<lambda>x. f x = k) xs = Some i"
  "k \<notin> set (map f xs) \<Longrightarrow> first_idx (\<lambda>x. f x = k) xs = None"
proof -
  show "first_idx (\<lambda>x. f x = k) xs = None" if "k \<notin> set (map f xs)" using that by auto
  assume "k \<in> set (map f xs)"
  then have "first_idx (\<lambda>x. f x = k) xs \<noteq> None" by auto
  then show "\<exists>i < length xs. first_idx (\<lambda>x. f x = k) xs = Some i" using first_idx_less by blast
qed

lemma port_put_known:
  assumes "user_inv s" "n \<in> set (user_port_names s)"
  shows "\<exists>s'. port_put n s = Some s' \<and> user_inv s' \<and> user_port_names s' = remove1 n (user_port_names s)"
proof -
  let ?t = "port_table s"
  from first_idx_map_eq(1) [OF assms(2) [unfolded user_port_names_def]] obtain i where
    i: "i < length (live ?t)" "first_idx (\<lambda>e. mp_port e = n) (live ?t) = Some i" by blast
  have c: "cells ?t ! i = live ?t ! i" "i < live_count ?t"
    using i(1) assms(1) by (simp_all add: user_inv_def live_def)
  have rc: "mp_ref_count (live ?t ! i) = 1" using i(1) assms(1) by (simp add: user_inv_def)
  define u where "u = ?t\<lparr>cells := (cells ?t)[i := (live ?t ! i)\<lparr>mp_ref_count := 0\<rparr>]\<rparr>"
  have u: "table_ok u" "i < live_count u" "length (cells u) = length (cells ?t)"
    using assms(1) c(2) by (simp_all add: u_def user_inv_def table_ok_def)
  have "live u = (live ?t)[i := (live ?t ! i)\<lparr>mp_ref_count := 0\<rparr>]"
    by (simp add: u_def live_def take_update_swap)
  then have l: "live (drop_cell i u) = remove_nth i (live ?t)"
    using drop_cell_live(1) [OF u(1,2)] by (simp add: remove_nth_def)
  have p: "port_put n s = Some (s\<lparr>port_table := drop_cell i u\<rparr>)"
    by (simp add: port_put_def mach_port_deallocate_userspace_def Let_def i(2) c rc u_def)
  have "user_port_names (s\<lparr>port_table := drop_cell i u\<rparr>) = remove1 n (user_port_names s)"
    using remove1_first_idx [OF i(2)] by (simp add: user_port_names_def l map_remove_nth)
  moreover have "user_inv (s\<lparr>port_table := drop_cell i u\<rparr>)"
    using assms(1) u drop_cell_live [OF u(1,2)] set_remove_nth_subset [of i "live ?t"] l
    unfolding user_inv_def by auto
  ultimately show ?thesis using p by blast
qed

lemma port_put_unknown: "n \<notin> set (user_port_names s) \<Longrightarrow> port_put n s = None"
  unfolding port_put_def mach_port_deallocate_userspace_def Let_def user_port_names_def
  using first_idx_map_eq(2) [of n mp_port "live (port_table s)"] by (simp del: first_idx_None)

lemma task_put_known:
  assumes "user_inv s" "n \<in> set (user_task_names s)"
  shows "\<exists>s'. task_put n s = Some s' \<and> user_inv s' \<and> user_task_names s' = remove1 n (user_task_names s)"
proof -
  let ?t = "task_table s"
  from first_idx_map_eq(1) [OF assms(2) [unfolded user_task_names_def]] obtain i where
    i: "i < length (live ?t)" "first_idx (\<lambda>e. mt_task e = n) (live ?t) = Some i" by blast
  have t: "table_ok ?t" "i < live_count ?t" using i(1) assms(1) by (simp_all add: user_inv_def)
  note l = drop_cell_live [OF t]
  have "task_put n s = Some (s\<lparr>task_table := drop_cell i ?t\<rparr>)"
    by (simp add: task_put_def task_terminate_userspace_def i(2))
  moreover have "user_task_names (s\<lparr>task_table := drop_cell i ?t\<rparr>) = remove1 n (user_task_names s)"
    using remove1_first_idx [OF i(2)] by (simp add: user_task_names_def l map_remove_nth)
  moreover have "user_inv (s\<lparr>task_table := drop_cell i ?t\<rparr>)"
    using assms(1) l unfolding user_inv_def by auto
  ultimately show ?thesis by blast
qed

lemma task_put_unknown: "n \<notin> set (user_task_names s) \<Longrightarrow> task_put n s = None"
  unfolding task_put_def task_terminate_userspace_def user_task_names_def
  using first_idx_map_eq(2) [of n mt_task "live (task_table s)"] by (simp del: first_idx_None)

interpretation uports: name_table user_inv "\<lambda>s c. True" user_port_names 1024 1000 port_get port_put
proof unfold_locales
  fix s c n s' assume "user_inv s" "port_get c s = Some (n, s')"
  then show "user_inv s' \<and> n = of_nat (length (user_port_names s) + 1000) \<and>
      user_port_names s' = user_port_names s @ [n]"
    by (auto simp: port_get_def mach_port_allocate_userspace_def Let_def user_inv_def user_port_names_def
        split: if_splits)
next
  fix s c assume "user_inv s"
  then show "port_get c s = None \<longleftrightarrow> 1024 \<le> length (user_port_names s)"
    by (auto simp: port_get_def mach_port_allocate_userspace_def Let_def user_inv_def user_port_names_def)
next
  fix s n s' assume "user_inv s" "port_put n s = Some s'"
  then show "user_inv s' \<and> user_port_names s' = remove1 n (user_port_names s)"
    using port_put_known [of s n] port_put_unknown [of n s] by (cases "n \<in> set (user_port_names s)") auto
next
  fix s n assume "user_inv s"
  then show "port_put n s = None \<longleftrightarrow> n \<notin> set (user_port_names s)"
    using port_put_known [of s n] port_put_unknown [of n s] by auto
next
  fix s assume "user_inv s"
  then show "length (user_port_names s) \<le> 1024" by (simp add: user_port_names_def user_inv_def table_ok_def)
qed simp

interpretation utasks: name_table user_inv "\<lambda>s c. True" user_task_names 64 2000 task_get task_put
proof unfold_locales
  fix s c n s' assume "user_inv s" "task_get c s = Some (n, s')"
  then show "user_inv s' \<and> n = of_nat (length (user_task_names s) + 2000) \<and>
      user_task_names s' = user_task_names s @ [n]"
    by (auto simp: task_get_def task_create_userspace_def Let_def user_inv_def user_task_names_def
        split: if_splits)
next
  fix s c assume "user_inv s"
  then show "task_get c s = None \<longleftrightarrow> 64 \<le> length (user_task_names s)"
    by (auto simp: task_get_def task_create_userspace_def Let_def user_inv_def user_task_names_def)
next
  fix s n s' assume "user_inv s" "task_put n s = Some s'"
  then show "user_inv s' \<and> user_task_names s' = remove1 n (user_task_names s)"
    using task_put_known [of s n] task_put_unknown [of n s] by (cases "n \<in> set (user_task_names s)") auto
next
  fix s n assume "user_inv s"
  then show "task_put n s = None \<longleftrightarrow> n \<notin> set (user_task_names s)"
    using task_put_known [of s n] task_put_unknown [of n s] by auto
next
  fix s assume "user_inv s"
  then show "length (user_task_names s) \<le> 64" by (simp add: user_task_names_def user_inv_def table_ok_def)
qed simp

section \<open>Terminating a task by a name that is not unique\<close>

lemma task_create_live:
  assumes "user_inv s" "task_create_userspace pid name s = (KERN_SUCCESS, Some n, s')"
  shows "\<exists>e. live (task_table s') = live (task_table s) @ [e] \<and> mt_task e = n \<and> mt_pid e = pid"
    "task_get (pid, name) s = Some (n, s')"
  using assms by (auto simp: task_create_userspace_def task_get_def Let_def user_inv_def split: if_splits)

lemma first_idx_append:
  "\<forall>x \<in> set xs. \<not> P x \<Longrightarrow> P y \<Longrightarrow> first_idx P (xs @ y # ys) = Some (length xs)"
  by (induction xs) auto

lemma task_terminate_live:
  assumes "user_inv s" "live (task_table s) = xs @ e # ys" "mt_task e = n" "n \<notin> set (map mt_task xs)"
  shows "\<exists>s'. task_terminate_userspace n s = (KERN_SUCCESS, s') \<and> live (task_table s') = xs @ ys"
proof -
  have i: "first_idx (\<lambda>e. mt_task e = n) (live (task_table s)) = Some (length xs)"
    unfolding assms(2) using assms(3,4) by (intro first_idx_append) (auto simp: image_iff)
  have t: "table_ok (task_table s)" using assms(1) by (simp add: user_inv_def)
  have "length xs < live_count (task_table s)" using assms(2) t by (metis length_live i first_idx_less)
  from drop_cell_live(1) [OF t this] have "live (drop_cell (length xs) (task_table s)) = xs @ ys"
    by (simp add: assms(2) remove_nth_def)
  then show ?thesis unfolding task_terminate_userspace_def i by simp
qed

text \<open>
  Terminating the task that was created last can terminate another one. If two tasks are
  created, the first is terminated and a third is created, the third gets the name of the second;
  terminating by the name of the third then removes the second and leaves the third running.
\<close>

theorem task_terminate_hits_other_task:
  assumes "user_inv s" "task_create_userspace pa a s = (KERN_SUCCESS, Some n\<^sub>1, s\<^sub>1)"
    and "task_create_userspace pb b s\<^sub>1 = (KERN_SUCCESS, Some n\<^sub>2, s\<^sub>2)"
    and "n\<^sub>1 \<notin> set (user_task_names s)" "n\<^sub>2 \<notin> set (user_task_names s)"
  shows "\<exists>s\<^sub>3 s\<^sub>4 s\<^sub>5. task_terminate_userspace n\<^sub>1 s\<^sub>2 = (KERN_SUCCESS, s\<^sub>3) \<and>
    task_create_userspace pc c s\<^sub>3 = (KERN_SUCCESS, Some n\<^sub>2, s\<^sub>4) \<and>
    task_terminate_userspace n\<^sub>2 s\<^sub>4 = (KERN_SUCCESS, s\<^sub>5) \<and>
    map mt_pid (live (task_table s\<^sub>4)) = map mt_pid (live (task_table s)) @ [pb, pc] \<and>
    map mt_pid (live (task_table s\<^sub>5)) = map mt_pid (live (task_table s)) @ [pc]"
proof -
  let ?xs = "live (task_table s)"
  from task_create_live [OF assms(1,2)] obtain ea where
    1: "live (task_table s\<^sub>1) = ?xs @ [ea]" "mt_task ea = n\<^sub>1" "task_get (pa, a) s = Some (n\<^sub>1, s\<^sub>1)" by auto
  have i1: "user_inv s\<^sub>1" using utasks.alloc_law [OF assms(1) _ 1(3)] by simp
  from task_create_live [OF i1 assms(3)] 1 obtain eb where
    2: "live (task_table s\<^sub>2) = ?xs @ ea # [eb]" "mt_task eb = n\<^sub>2" "mt_pid eb = pb"
      "task_get (pb, b) s\<^sub>1 = Some (n\<^sub>2, s\<^sub>2)" by auto
  have i2: "user_inv s\<^sub>2" using utasks.alloc_law [OF i1 _ 2(4)] by simp
  from utasks.alloc_reuses_live_name [where c\<^sub>3 = "(pc, c)", OF assms(1) _ _ _ 1(3) 2(4) assms(4)]
  obtain s\<^sub>3 s\<^sub>4 where 3: "task_put n\<^sub>1 s\<^sub>2 = Some s\<^sub>3" "task_get (pc, c) s\<^sub>3 = Some (n\<^sub>2, s\<^sub>4)" by auto
  have i3: "user_inv s\<^sub>3" using utasks.release_law [OF i2 3(1)] by simp
  have i4: "user_inv s\<^sub>4" using utasks.alloc_law [OF i3 _ 3(2)] by simp
  have t3: "task_terminate_userspace n\<^sub>1 s\<^sub>2 = (KERN_SUCCESS, s\<^sub>3)"
    using 3(1) by (auto simp: task_put_def split: prod.splits if_splits)
  have t4: "task_create_userspace pc c s\<^sub>3 = (KERN_SUCCESS, Some n\<^sub>2, s\<^sub>4)"
    using 3(2) by (auto simp: task_get_def task_create_userspace_def Let_def split: if_splits)
  have l3: "live (task_table s\<^sub>3) = ?xs @ [eb]"
    using task_terminate_live [OF i2 2(1) 1(2)] assms(4) t3 by (auto simp: user_task_names_def)
  from task_create_live(1) [OF i3 t4] l3 obtain ec where
    l4: "live (task_table s\<^sub>4) = ?xs @ eb # [ec]" "mt_pid ec = pc" by auto
  from task_terminate_live [OF i4 l4(1) 2(2)] assms(5) obtain s\<^sub>5 where
    "task_terminate_userspace n\<^sub>2 s\<^sub>4 = (KERN_SUCCESS, s\<^sub>5)" "live (task_table s\<^sub>5) = ?xs @ [ec]"
    by (auto simp: user_task_names_def)
  with t3 t4 l4 2(3) show ?thesis by auto
qed

theorem task_terminate_hits_other_task_witness:
  "\<exists>s\<^sub>1 s\<^sub>2 s\<^sub>3 s\<^sub>4 s\<^sub>5.
    task_create_userspace 11 None (snd (mach_userspace_init 1 1 (mach_user0 {}))) = (KERN_SUCCESS, Some 2001, s\<^sub>1) \<and>
    task_create_userspace 12 None s\<^sub>1 = (KERN_SUCCESS, Some 2002, s\<^sub>2) \<and>
    task_terminate_userspace 2001 s\<^sub>2 = (KERN_SUCCESS, s\<^sub>3) \<and>
    task_create_userspace 13 None s\<^sub>3 = (KERN_SUCCESS, Some 2002, s\<^sub>4) \<and>
    task_terminate_userspace 2002 s\<^sub>4 = (KERN_SUCCESS, s\<^sub>5) \<and>
    map mt_pid (live (task_table s\<^sub>5)) = [1, 13]"
proof -
  let ?s = "snd (mach_userspace_init 1 1 (mach_user0 {}))"
  have i: "user_inv ?s" by (rule mach_userspace_init_inv) simp
  have l: "live (task_table ?s) = [\<lparr>mt_task = 1, mt_pid = 1, mt_name = ''kernel_task'', mt_active = True\<rparr>]"
    "live_count (task_table ?s) = 1"
    by (simp_all add: mach_userspace_init_def live_def take_Suc_conv_app_nth)
  obtain s\<^sub>1 where 1: "task_create_userspace 11 None ?s = (KERN_SUCCESS, Some 2001, s\<^sub>1)"
    "live_count (task_table s\<^sub>1) = 2"
    using l(2) by (simp add: task_create_userspace_def push_cell_def)
  obtain s\<^sub>2 where 2: "task_create_userspace 12 None s\<^sub>1 = (KERN_SUCCESS, Some 2002, s\<^sub>2)"
    using 1(2) by (simp add: task_create_userspace_def)
  have "2001 \<notin> set (user_task_names ?s)" "2002 \<notin> set (user_task_names ?s)"
    by (simp_all add: user_task_names_def l(1))
  from task_terminate_hits_other_task [OF i 1(1) 2 this, of 13 None] 1(1) 2 l(1) show ?thesis by auto
qed

end
