(* ===== verification/CString.thy ===== *)
theory CString
  imports Prelude
begin

text \<open>
  The character classes and the number conversions of the C library that the sources call, for the
  C locale and a 64 bit \<^verbatim>\<open>long\<close>.
\<close>

section \<open>Character classes\<close>

definition isspace :: "char \<Rightarrow> bool" where
  "isspace c \<longleftrightarrow> c = CHR '' '' \<or> c = CHR 0x09 \<or> c = CHR 0x0A \<or> c = CHR 0x0B \<or> c = CHR 0x0C \<or> c = CHR 0x0D"

definition isdigit :: "char \<Rightarrow> bool" where
  "isdigit c \<longleftrightarrow> 48 \<le> (of_char c :: nat) \<and> (of_char c :: nat) \<le> 57"

definition isalpha :: "char \<Rightarrow> bool" where
  "isalpha c \<longleftrightarrow> 65 \<le> (of_char c :: nat) \<and> (of_char c :: nat) \<le> 90 \<or> 97 \<le> (of_char c :: nat) \<and> (of_char c :: nat) \<le> 122"

definition isalnum :: "char \<Rightarrow> bool" where
  "isalnum c \<longleftrightarrow> isalpha c \<or> isdigit c"

section \<open>Numbers\<close>

text \<open>The digits of a number end at the first character that is none in the base.\<close>

definition digit_value :: "char \<Rightarrow> nat" where
  "digit_value c =
     (let n = of_char c in
      if isdigit c then n - 48 else if 97 \<le> n \<and> n \<le> 122 then n - 87 else if 65 \<le> n \<and> n \<le> 90 then n - 55 else 255)"

definition digits_value :: "nat \<Rightarrow> string \<Rightarrow> nat" where
  "digits_value base cs = foldl (\<lambda>n c. n * base + digit_value c) 0 (takeWhile (\<lambda>c. digit_value c < base) cs)"

text \<open>\<open>strtoul\<close> with base 0: hexadecimal after \<open>0x\<close>, octal after \<open>0\<close>, decimal otherwise; the digits end
  at the first character that is none, and a value that is too large becomes the largest one.\<close>

definition strtoul_0 :: "string \<Rightarrow> nat" where
  "strtoul_0 cs =
     min (2 ^ 64 - 1)
       (case cs of
          CHR ''0'' # x # c # ds \<Rightarrow>
            if (x = CHR ''x'' \<or> x = CHR ''X'') \<and> digit_value c < 16 then digits_value 16 (c # ds)
            else digits_value 8 cs
        | CHR ''0'' # ds \<Rightarrow> digits_value 8 cs
        | _ \<Rightarrow> digits_value 10 cs)"

text \<open>White space and a sign in front of a number in base 10, and what follows its digits. A string without
  digits is left whole.\<close>

definition number_sign :: "string \<Rightarrow> bool \<times> string" where
  "number_sign cs =
     (case dropWhile isspace cs of
        [] \<Rightarrow> (False, [])
      | c # ds \<Rightarrow> if c = CHR ''-'' then (True, ds) else if c = CHR ''+'' then (False, ds) else (False, c # ds))"

definition strtoull_10 :: "string \<Rightarrow> u64" where
  "strtoull_10 cs =
     (case number_sign cs of
        (neg, ds) \<Rightarrow>
          (let n = digits_value 10 ds in
           if 2 ^ 64 \<le> n then - 1 else if neg then - of_nat n else of_nat n))"

definition strtol_10 :: "string \<Rightarrow> int \<times> string" where
  "strtol_10 cs =
     (case number_sign cs of
        (neg, ds) \<Rightarrow>
          (let n = int (digits_value 10 ds); rest = dropWhile (\<lambda>c. digit_value c < 10) ds in
           (if neg then max (- (2 ^ 63)) (- n) else min (2 ^ 63 - 1) n, if rest = ds then cs else rest)))"

lemmas number_simps = number_sign_def isspace_def digits_value_def digit_value_def isdigit_def Let_def

end
