(* ===== verification/Mnc.thy ===== *)
theory Mnc
  imports CString
begin

text \<open>
  The lexer and parser of the M\&C language (\<^verbatim>\<open>src/mirix/mnc/mnc_parser.c\<close>). The position in the input
  is modelled by the characters that remain; line and column are kept as the code keeps them. The
  main loop is a recursive function whose termination proof shows that every token but the last
  takes a character. Allocations are taken to succeed: the code checks only some of them.
\<close>

section \<open>Tokens and syntax trees\<close>

datatype token_type =
    TOKEN_SYS | TOKEN_TYPOSIS | TOKEN_START | TOKEN_DEF | TOKEN_RETURN | TOKEN_ASCII | TOKEN_PRINTER
  | TOKEN_IDENTIFIER | TOKEN_STRING | TOKEN_NUMBER | TOKEN_ADDRESS | TOKEN_MULTIPLY | TOKEN_AMPERSAND
  | TOKEN_COLON | TOKEN_SEMICOLON | TOKEN_DOLLAR | TOKEN_PERCENT | TOKEN_EOF | TOKEN_ERROR

record token =
  tk_type :: token_type
  tk_value :: "string option"
  tk_line :: nat
  tk_column :: nat

record parser_state =
  ps_rest :: string
  ps_line :: nat
  ps_column :: nat

datatype node_type =
    NODE_PROGRAM | NODE_SYS_DECL | NODE_IMPORT | NODE_FUNCTION | NODE_VARIABLE | NODE_STRING
  | NODE_NUMBER | NODE_IDENTIFIER | NODE_BINARY_OP | NODE_CALL | NODE_RETURN

datatype ast_node = Ast_Node (ast_type: node_type) (ast_value: "string option") (ast_children: "ast_node list")

section \<open>The lexer\<close>

definition advance :: "char \<Rightarrow> parser_state \<Rightarrow> parser_state" where
  "advance c s = (if c = CHR 0x0A then s\<lparr>ps_line := ps_line s + 1, ps_column := 1\<rparr>
                  else s\<lparr>ps_column := ps_column s + 1\<rparr>)"

text \<open>The first loop of \<open>skip_whitespace\<close>.\<close>

fun skip_spaces :: "string \<Rightarrow> parser_state \<Rightarrow> parser_state" where
  "skip_spaces [] s = s\<lparr>ps_rest := []\<rparr>"
| "skip_spaces (c # cs) s = (if isspace c then skip_spaces cs (advance c s) else s\<lparr>ps_rest := c # cs\<rparr>)"

definition starts_comment :: "string \<Rightarrow> bool" where
  "starts_comment cs \<longleftrightarrow> take 2 cs = ''//''"

lemma skip_spaces_rest [simp]: "ps_rest (skip_spaces cs s) = dropWhile isspace cs"
  by (induction cs arbitrary: s) simp_all

text \<open>A comment ends before the next newline; the column does not count its characters.\<close>

function skip_whitespace :: "parser_state \<Rightarrow> parser_state" where
  "skip_whitespace s =
     (let s' = skip_spaces (ps_rest s) s in
      if starts_comment (ps_rest s')
      then skip_whitespace (s'\<lparr>ps_rest := dropWhile (\<lambda>c. c \<noteq> CHR 0x0A) (ps_rest s')\<rparr>)
      else s')"
  by pat_completeness auto
termination
proof (relation "measure (\<lambda>s. length (ps_rest s))", goal_cases)
  case 1
  then show ?case by simp
next
  case (2 s s')
  then have "ps_rest s' = dropWhile isspace (ps_rest s)" by simp
  moreover have "length (dropWhile (\<lambda>c. c \<noteq> CHR 0x0A) (ps_rest s')) < length (ps_rest s')"
    using 2(2) length_dropWhile_le [of "\<lambda>c. c \<noteq> CHR 0x0A" "tl (ps_rest s')"]
    by (cases "ps_rest s'") (auto simp: starts_comment_def)
  ultimately show ?case using length_dropWhile_le [of isspace "ps_rest s"] by simp
qed

declare skip_whitespace.simps [simp del]

text \<open>A run of characters of one class, as the number and identifier scanners take it.\<close>

definition scan :: "(char \<Rightarrow> bool) \<Rightarrow> parser_state \<Rightarrow> string \<times> parser_state" where
  "scan P s = (let v = takeWhile P (ps_rest s) in
     (v, s\<lparr>ps_rest := dropWhile P (ps_rest s), ps_column := ps_column s + length v\<rparr>))"

definition number_char :: "char \<Rightarrow> bool" where
  "number_char c \<longleftrightarrow> isdigit c \<or> c = CHR ''x'' \<or> c = CHR ''X''"

definition parse_number :: "parser_state \<Rightarrow> string \<times> parser_state" where
  "parse_number = scan number_char"

definition identifier_char :: "char \<Rightarrow> bool" where
  "identifier_char c \<longleftrightarrow> isalnum c \<or> c \<in> set ''_*$@&''"

definition parse_identifier :: "parser_state \<Rightarrow> string \<times> parser_state" where
  "parse_identifier = scan identifier_char"

text \<open>A string ends at the next quote or at the end of the input.\<close>

definition parse_string :: "parser_state \<Rightarrow> string \<times> parser_state" where
  "parse_string s =
     (let cs = tl (ps_rest s); s = s\<lparr>ps_column := ps_column s + 1\<rparr>;
          v = takeWhile (\<lambda>c. c \<noteq> CHR 0x22) cs; s = fold advance v s in
      case dropWhile (\<lambda>c. c \<noteq> CHR 0x22) cs of
        [] \<Rightarrow> (v, s\<lparr>ps_rest := []\<rparr>)
      | q # ds \<Rightarrow> (v, s\<lparr>ps_rest := ds, ps_column := ps_column s + 1\<rparr>))"

definition single_token :: "char \<Rightarrow> token_type option" where
  "single_token c =
     (if c = CHR ''%'' then Some TOKEN_PERCENT
      else if c = CHR ''$'' then Some TOKEN_DOLLAR
      else if c = CHR ''&'' then Some TOKEN_AMPERSAND
      else if c = CHR ''*'' then Some TOKEN_MULTIPLY
      else if c = CHR '':'' then Some TOKEN_COLON
      else if c = CHR '';'' then Some TOKEN_SEMICOLON
      else None)"

definition keyword :: "string \<Rightarrow> token_type option" where
  "keyword w =
     (if w = ''sys'' then Some TOKEN_SYS
      else if w = ''typosis'' then Some TOKEN_TYPOSIS
      else if w = ''start'' then Some TOKEN_START
      else if w = ''def'' then Some TOKEN_DEF
      else if w = ''return'' then Some TOKEN_RETURN
      else if w = ''ascii'' then Some TOKEN_ASCII
      else if w = ''prtlist'' then Some TOKEN_PRINTER
      else None)"

text \<open>The line and column of a token are those before the white space in front of it.\<close>

definition next_token :: "parser_state \<Rightarrow> token \<times> parser_state" where
  "next_token s0 =
     (let tok = (\<lambda>ty v. \<lparr>tk_type = ty, tk_value = v, tk_line = ps_line s0, tk_column = ps_column s0\<rparr>);
          s = skip_whitespace s0 in
      case ps_rest s of
        [] \<Rightarrow> (tok TOKEN_EOF None, s)
      | c # cs \<Rightarrow>
          (case single_token c of
             Some ty \<Rightarrow> (tok ty None, s\<lparr>ps_rest := cs, ps_column := ps_column s + 1\<rparr>)
           | None \<Rightarrow>
               if c = CHR 0x22 then (case parse_string s of (v, s') \<Rightarrow> (tok TOKEN_STRING (Some v), s'))
               else if isdigit c then (case parse_number s of (v, s') \<Rightarrow> (tok TOKEN_NUMBER (Some v), s'))
               else if isalpha c \<or> c = CHR ''_'' then
                 (case parse_identifier s of
                    (w, s') \<Rightarrow>
                      (case keyword w of
                         Some ty \<Rightarrow> (tok ty None, s')
                       | None \<Rightarrow> (tok TOKEN_IDENTIFIER (Some w), s')))
               else (tok TOKEN_ERROR None, s)))"

section \<open>The parser\<close>

definition ast_node_create :: "node_type \<Rightarrow> ast_node" where
  "ast_node_create ty = Ast_Node ty None []"

definition ast_node_add_child :: "ast_node \<Rightarrow> ast_node \<Rightarrow> ast_node" where
  "ast_node_add_child parent child =
     Ast_Node (ast_type parent) (ast_value parent) (ast_children parent @ [child])"

text \<open>The node of a token; tokens without one are skipped.\<close>

definition token_node :: "token \<Rightarrow> ast_node option" where
  "token_node t =
     (case tk_type t of
        TOKEN_SYS \<Rightarrow> Some (ast_node_create NODE_SYS_DECL)
      | TOKEN_TYPOSIS \<Rightarrow> Some (ast_node_create NODE_IMPORT)
      | TOKEN_START \<Rightarrow> Some (ast_node_create NODE_FUNCTION)
      | TOKEN_DEF \<Rightarrow> Some (ast_node_create NODE_VARIABLE)
      | TOKEN_STRING \<Rightarrow> Some (Ast_Node NODE_STRING (tk_value t) [])
      | TOKEN_NUMBER \<Rightarrow> Some (Ast_Node NODE_NUMBER (tk_value t) [])
      | TOKEN_IDENTIFIER \<Rightarrow> Some (Ast_Node NODE_IDENTIFIER (tk_value t) [])
      | _ \<Rightarrow> None)"

lemma skip_whitespace_shorter: "length (ps_rest (skip_whitespace s)) \<le> length (ps_rest s)"
proof (induction s rule: skip_whitespace.induct)
  case (1 s)
  let ?s' = "skip_spaces (ps_rest s) s"
  show ?case
  proof (cases "starts_comment (ps_rest ?s')")
    case True
    have "length (ps_rest (skip_whitespace s)) \<le> length (dropWhile (\<lambda>c. c \<noteq> CHR 0x0A) (ps_rest ?s'))"
      using 1 [OF refl True] True by (subst skip_whitespace.simps) (simp add: Let_def)
    also have "\<dots> \<le> length (ps_rest s)" by (simp add: le_trans [OF length_dropWhile_le])
    finally show ?thesis .
  next
    case False
    then show ?thesis by (subst skip_whitespace.simps) (simp add: Let_def length_dropWhile_le)
  qed
qed

lemma scan_shorter:
  "ps_rest s = c # cs \<Longrightarrow> P c \<Longrightarrow> length (ps_rest (snd (scan P s))) < length (ps_rest s)"
  by (simp add: scan_def Let_def le_imp_less_Suc length_dropWhile_le)

lemma parse_string_shorter:
  "ps_rest s = c # cs \<Longrightarrow> length (ps_rest (snd (parse_string s))) < length (ps_rest s)"
  using length_dropWhile_le [of "\<lambda>c. c \<noteq> CHR 0x22" cs]
  by (auto simp: parse_string_def Let_def split: list.split)

lemma next_token_shorter:
  assumes "next_token s = (t, s')" "tk_type t \<noteq> TOKEN_EOF" "tk_type t \<noteq> TOKEN_ERROR"
  shows "length (ps_rest s') < length (ps_rest s)"
proof -
  let ?u = "skip_whitespace s"
  have le: "length (ps_rest ?u) \<le> length (ps_rest s)" by (rule skip_whitespace_shorter)
  obtain c cs where c: "ps_rest ?u = c # cs"
    using assms by (cases "ps_rest ?u") (auto simp: next_token_def Let_def)
  have "length (ps_rest s') < length (ps_rest ?u)"
    using assms c scan_shorter [OF c, of number_char] scan_shorter [OF c, of identifier_char] parse_string_shorter [OF c]
    by (auto simp: next_token_def Let_def parse_number_def parse_identifier_def number_char_def identifier_char_def
        isalnum_def split: option.splits if_splits prod.splits)
  with le show ?thesis by simp
qed

text \<open>The main loop with the children collected so far.\<close>

function parse_loop :: "parser_state \<Rightarrow> ast_node \<Rightarrow> int \<times> ast_node" where
  "parse_loop s root =
     (case next_token s of
        (t, s') \<Rightarrow>
          if tk_type t = TOKEN_EOF then (0, root)
          else if tk_type t = TOKEN_ERROR then (- 1, root)
          else (case token_node t of
                  None \<Rightarrow> parse_loop s' root
                | Some n \<Rightarrow> parse_loop s' (ast_node_add_child root n)))"
  by pat_completeness auto
termination
  by (relation "measure (\<lambda>(s, root). length (ps_rest s))") (auto dest: next_token_shorter [OF sym])

declare parse_loop.simps [simp del]

text \<open>The parser handle; its own position, line and column are set once and not used again.\<close>

record mnc_parser =
  mp_input :: "string option"
  mp_position :: nat
  mp_line :: nat
  mp_column :: nat
  mp_ast_root :: "ast_node option"

text \<open>The input is copied up to its first null character.\<close>

definition mnc_parser_init :: "string \<Rightarrow> mnc_parser" where
  "mnc_parser_init input =
     \<lparr>mp_input = Some (takeWhile (\<lambda>c. c \<noteq> CHR 0x00) input), mp_position = 0, mp_line = 1, mp_column = 1,
      mp_ast_root = None\<rparr>"

definition mnc_parse :: "mnc_parser option \<Rightarrow> int \<times> mnc_parser option" where
  "mnc_parse parser =
     (case parser of
        None \<Rightarrow> (- 1, None)
      | Some p \<Rightarrow>
          (case mp_input p of
             None \<Rightarrow> (- 1, Some p)
           | Some cs \<Rightarrow>
               (case parse_loop \<lparr>ps_rest = cs, ps_line = 1, ps_column = 1\<rparr> (ast_node_create NODE_PROGRAM) of
                  (r, root) \<Rightarrow> (r, Some (p\<lparr>mp_ast_root := Some root\<rparr>)))))"

definition mnc_get_ast :: "mnc_parser option \<Rightarrow> ast_node option" where
  "mnc_get_ast parser = (case parser of None \<Rightarrow> None | Some p \<Rightarrow> mp_ast_root p)"

end
