(* ===== verification/MncCompiler.thy ===== *)
theory MncCompiler
  imports Mnc
begin

text \<open>
  The bytecode compiler of the M\&C language (\<^verbatim>\<open>src/mirix/mnc/mnc_compiler.c\<close>). The heap blocks the
  compiler owns are kept with their addresses and contents, because the buffer moves when it grows
  and the handle keeps a pointer to it. \<open>malloc\<close> and \<open>realloc\<close> are parameters: each returns an
  address or, for failure, nothing.
\<close>

type_synonym mem = "nat \<rightharpoonup> u8 list"
type_synonym mem_malloc = "nat \<Rightarrow> mem \<Rightarrow> nat option"
type_synonym mem_realloc = "nat \<Rightarrow> nat \<Rightarrow> mem \<Rightarrow> nat option"

datatype symbol_type = SYMBOL_FUNCTION | SYMBOL_VARIABLE | SYMBOL_CONSTANT

record symbol_entry =
  sym_name :: string
  sym_address :: u32
  sym_type :: symbol_type

record compiler_state =
  cs_bytecode :: nat
  cs_size :: nat
  cs_capacity :: nat
  cs_address :: nat
  cs_symbols :: "symbol_entry list"
  cs_mem :: mem

record mnc_compiler =
  mc_self :: nat
  mc_bytecode :: nat
  mc_size :: nat
  mc_capacity :: nat
  mc_symbols :: "symbol_entry list"

section \<open>The handle\<close>

text \<open>The handle takes 32 bytes. The contents of fresh memory are written before they are read.\<close>

definition mnc_compiler_init :: "mem_malloc \<Rightarrow> mem \<Rightarrow> mnc_compiler option \<times> mem" where
  "mnc_compiler_init malloc h =
     (case malloc 32 h of
        None \<Rightarrow> (None, h)
      | Some c \<Rightarrow>
          (let h1 = h(c \<mapsto> replicate 32 0) in
           case malloc 1024 h1 of
             None \<Rightarrow> (None, h1(c := None))
           | Some b \<Rightarrow>
               (Some \<lparr>mc_self = c, mc_bytecode = b, mc_size = 0, mc_capacity = 1024, mc_symbols = []\<rparr>,
                h1(b \<mapsto> replicate 1024 0))))"

definition mem_free :: "nat \<Rightarrow> mem \<Rightarrow> mem outcome" where
  "mem_free a h = (if h a = None then Inl Double_Free else Inr (h(a := None)))"

definition mnc_compiler_cleanup :: "mnc_compiler option \<Rightarrow> mem \<Rightarrow> mem outcome" where
  "mnc_compiler_cleanup compiler h =
     (case compiler of
        None \<Rightarrow> Inr h
      | Some c \<Rightarrow>
          (case mem_free (mc_bytecode c) h of
             Inl e \<Rightarrow> Inl e
           | Inr h' \<Rightarrow> mem_free (mc_self c) h'))"

section \<open>Symbols\<close>

definition add_symbol :: "string \<Rightarrow> u32 \<Rightarrow> symbol_type \<Rightarrow> compiler_state \<Rightarrow> compiler_state" where
  "add_symbol name addr ty s =
     s\<lparr>cs_symbols := \<lparr>sym_name = name, sym_address = addr, sym_type = ty\<rparr> # cs_symbols s\<rparr>"

definition find_symbol :: "symbol_entry list \<Rightarrow> string \<Rightarrow> symbol_entry option" where
  "find_symbol syms name = List.find (\<lambda>e. sym_name e = name) syms"

section \<open>Emitting bytes\<close>

text \<open>The capacity is doubled before \<open>realloc\<close> is called and stays doubled when it fails.\<close>

definition grow :: "mem_realloc \<Rightarrow> compiler_state \<Rightarrow> (int \<times> compiler_state) outcome" where
  "grow realloc s =
     (if cs_size s < cs_capacity s then Inr (0, s)
      else (let n = 2 * cs_capacity s; s1 = s\<lparr>cs_capacity := n\<rparr> in
            case cs_mem s (cs_bytecode s) of
              None \<Rightarrow> Inl Use_After_Free
            | Some blk \<Rightarrow>
                (case realloc (cs_bytecode s) n (cs_mem s) of
                   None \<Rightarrow> Inr (- 1, s1)
                 | Some a \<Rightarrow>
                     Inr (0, s1\<lparr>cs_bytecode := a,
                                cs_mem := (cs_mem s)(cs_bytecode s := None,
                                                     a \<mapsto> take n blk @ replicate (n - length blk) 0)\<rparr>))))"

definition put_byte :: "u8 \<Rightarrow> compiler_state \<Rightarrow> (int \<times> compiler_state) outcome" where
  "put_byte b s =
     (case cs_mem s (cs_bytecode s) of
        None \<Rightarrow> Inl Use_After_Free
      | Some blk \<Rightarrow>
          if cs_size s < length blk
          then Inr (0, s\<lparr>cs_mem := (cs_mem s)(cs_bytecode s \<mapsto> blk[cs_size s := b]),
                         cs_size := cs_size s + 1, cs_address := cs_address s + 1\<rparr>)
          else Inl Out_Of_Bounds)"

definition emit_byte :: "mem_realloc \<Rightarrow> u8 \<Rightarrow> compiler_state \<Rightarrow> (int \<times> compiler_state) outcome" where
  "emit_byte realloc b s =
     (case grow realloc s of
        Inl e \<Rightarrow> Inl e
      | Inr (r, s') \<Rightarrow> if r \<noteq> 0 then Inr (- 1, s') else put_byte b s')"

fun emit_bytes :: "mem_realloc \<Rightarrow> u8 list \<Rightarrow> compiler_state \<Rightarrow> (int \<times> compiler_state) outcome" where
  "emit_bytes realloc [] s = Inr (0, s)"
| "emit_bytes realloc (b # bs) s =
     (case emit_byte realloc b s of
        Inl e \<Rightarrow> Inl e
      | Inr (r, s') \<Rightarrow> if r \<noteq> 0 then Inr (- 1, s') else emit_bytes realloc bs s')"

text \<open>The bytes of a word, least significant first.\<close>

definition dword_bytes :: "u32 \<Rightarrow> u8 list" where
  "dword_bytes v = [ucast (v AND 0xFF), ucast (drop_bit 8 v AND 0xFF), ucast (drop_bit 16 v AND 0xFF),
                    ucast (drop_bit 24 v AND 0xFF)]"

definition emit_dword :: "mem_realloc \<Rightarrow> u32 \<Rightarrow> compiler_state \<Rightarrow> (int \<times> compiler_state) outcome" where
  "emit_dword realloc v = emit_bytes realloc (dword_bytes v)"

definition emit_string :: "mem_realloc \<Rightarrow> string \<Rightarrow> compiler_state \<Rightarrow> (int \<times> compiler_state) outcome" where
  "emit_string realloc cs = emit_bytes realloc (map of_char cs)"

section \<open>Compiling nodes\<close>

definition opcode :: "node_type \<Rightarrow> u8 option" where
  "opcode ty =
     (case ty of
        NODE_SYS_DECL \<Rightarrow> Some 0x48 | NODE_IMPORT \<Rightarrow> Some 0x49 | NODE_FUNCTION \<Rightarrow> Some 0x4A
      | NODE_VARIABLE \<Rightarrow> Some 0x4B | NODE_STRING \<Rightarrow> Some 0x4C | NODE_NUMBER \<Rightarrow> Some 0x4D
      | NODE_IDENTIFIER \<Rightarrow> Some 0x4E | NODE_CALL \<Rightarrow> Some 0x4F | NODE_RETURN \<Rightarrow> Some 0x50
      | _ \<Rightarrow> None)"

text \<open>What the code emits after the prefix. The results of these emissions are not looked at.\<close>

definition ignore_result :: "(int \<times> compiler_state) outcome \<Rightarrow> compiler_state outcome" where
  "ignore_result x = (case x of Inl e \<Rightarrow> Inl e | Inr (r, s) \<Rightarrow> Inr s)"

definition compile_operand :: "mem_realloc \<Rightarrow> node_type \<Rightarrow> string option \<Rightarrow> compiler_state \<Rightarrow> compiler_state outcome" where
  "compile_operand realloc ty val s =
     (case val of
        None \<Rightarrow> Inr s
      | Some v \<Rightarrow>
          (case ty of
             NODE_FUNCTION \<Rightarrow> Inr (add_symbol v (of_nat (cs_address s)) SYMBOL_FUNCTION s)
           | NODE_VARIABLE \<Rightarrow> Inr (add_symbol v (of_nat (cs_address s)) SYMBOL_VARIABLE s)
           | NODE_STRING \<Rightarrow> ignore_result (emit_string realloc v s)
           | NODE_NUMBER \<Rightarrow> ignore_result (emit_dword realloc (of_nat (strtoul_0 v)) s)
           | NODE_IDENTIFIER \<Rightarrow>
               (case find_symbol (cs_symbols s) v of
                  Some e \<Rightarrow> ignore_result (emit_dword realloc (sym_address e) s)
                | None \<Rightarrow> ignore_result (emit_dword realloc 0 s))
           | _ \<Rightarrow> Inr s))"

definition compile_head :: "mem_realloc \<Rightarrow> node_type \<Rightarrow> string option \<Rightarrow> compiler_state \<Rightarrow> (int \<times> compiler_state) outcome" where
  "compile_head realloc ty val s =
     (case opcode ty of
        None \<Rightarrow> Inr (0, s)
      | Some b \<Rightarrow>
          (case emit_byte realloc b s of
             Inl e \<Rightarrow> Inl e
           | Inr (r, s1) \<Rightarrow>
               if r \<noteq> 0 then Inr (- 1, s1)
               else (case compile_operand realloc ty val s1 of
                       Inl e \<Rightarrow> Inl e
                     | Inr s2 \<Rightarrow> Inr (0, s2))))"

fun compile_node :: "mem_realloc \<Rightarrow> ast_node \<Rightarrow> compiler_state \<Rightarrow> (int \<times> compiler_state) outcome"
  and compile_nodes :: "mem_realloc \<Rightarrow> ast_node list \<Rightarrow> compiler_state \<Rightarrow> (int \<times> compiler_state) outcome" where
  "compile_node realloc (Ast_Node ty val cs) s =
     (case compile_head realloc ty val s of
        Inl e \<Rightarrow> Inl e
      | Inr (r, s') \<Rightarrow> if r \<noteq> 0 then Inr (- 1, s') else compile_nodes realloc cs s')"
| "compile_nodes realloc [] s = Inr (0, s)"
| "compile_nodes realloc (n # ns) s =
     (case compile_node realloc n s of
        Inl e \<Rightarrow> Inl e
      | Inr (r, s') \<Rightarrow> if r \<noteq> 0 then Inr (- 1, s') else compile_nodes realloc ns s')"

text \<open>Only the size and the symbols go back into the handle.\<close>

definition mnc_compile ::
  "mem_realloc \<Rightarrow> mnc_compiler option \<Rightarrow> ast_node option \<Rightarrow> mem \<Rightarrow> (int \<times> mnc_compiler option \<times> mem) outcome" where
  "mnc_compile realloc compiler ast_root h =
     (case (compiler, ast_root) of
        (Some c, Some root) \<Rightarrow>
          (case compile_node realloc root
                  \<lparr>cs_bytecode = mc_bytecode c, cs_size = mc_size c, cs_capacity = mc_capacity c, cs_address = 0,
                   cs_symbols = mc_symbols c, cs_mem = h\<rparr> of
             Inl e \<Rightarrow> Inl e
           | Inr (r, s) \<Rightarrow> Inr (r, Some (c\<lparr>mc_size := cs_size s, mc_symbols := cs_symbols s\<rparr>), cs_mem s))
      | _ \<Rightarrow> Inr (- 1, compiler, h))"

definition mnc_get_bytecode :: "mnc_compiler option \<Rightarrow> (nat \<times> nat) option" where
  "mnc_get_bytecode compiler =
     (case compiler of None \<Rightarrow> None | Some c \<Rightarrow> Some (mc_bytecode c, mc_size c))"

section \<open>The driver\<close>

text \<open>The bytes \<open>print_bytecode\<close> reads from a buffer.\<close>

definition print_bytecode :: "nat \<Rightarrow> nat \<Rightarrow> mem \<Rightarrow> u8 list outcome" where
  "print_bytecode a n h =
     (if n = 0 then Inr []
      else case h a of
             None \<Rightarrow> Inl Use_After_Free
           | Some blk \<Rightarrow> if n \<le> length blk then Inr (take n blk) else Inl Out_Of_Bounds)"

text \<open>\<open>main\<close> of the driver with its program as an argument: the exit status, the bytecode printed and the
  memory at exit. The memory of the parser is not part of the model.\<close>

definition mnc_main :: "mem_malloc \<Rightarrow> mem_realloc \<Rightarrow> string \<Rightarrow> mem \<Rightarrow> (int \<times> u8 list \<times> mem) outcome" where
  "mnc_main malloc realloc input h =
     (case mnc_parse (Some (mnc_parser_init input)) of
        (r, p) \<Rightarrow>
          if r \<noteq> 0 then Inr (1, [], h)
          else (case mnc_compiler_init malloc h of
                  (None, h1) \<Rightarrow> Inr (1, [], h1)
                | (Some c, h1) \<Rightarrow>
                    (case mnc_compile realloc (Some c) (mnc_get_ast p) h1 of
                       Inl e \<Rightarrow> Inl e
                     | Inr (r, c', h2) \<Rightarrow>
                         if r \<noteq> 0
                         then (case mnc_compiler_cleanup c' h2 of Inl e \<Rightarrow> Inl e | Inr h3 \<Rightarrow> Inr (1, [], h3))
                         else (case (case mnc_get_bytecode c' of
                                       None \<Rightarrow> Inr []
                                     | Some (a, n) \<Rightarrow> print_bytecode a n h2) of
                                 Inl e \<Rightarrow> Inl e
                               | Inr bs \<Rightarrow>
                                   (case mnc_compiler_cleanup c' h2 of Inl e \<Rightarrow> Inl e | Inr h3 \<Rightarrow> Inr (0, bs, h3))))))"

end
