(* ===== verification/MncParserOk.thy ===== *)
theory MncParserOk
  imports Mnc
begin

text \<open>
  Correctness of the M\&C parser: lexemes as values, how they are written, and the proofs that
  parsing what was written gives the tree of the lexemes back and that every tree the parser builds
  is well-typed.
\<close>

section \<open>Lexemes\<close>

type_synonym lexeme = "token_type \<times> string option"

definition single_char :: "token_type \<Rightarrow> char option" where
  "single_char ty =
     (case ty of
        TOKEN_PERCENT \<Rightarrow> Some (CHR ''%'') | TOKEN_DOLLAR \<Rightarrow> Some (CHR ''$'') | TOKEN_AMPERSAND \<Rightarrow> Some (CHR ''&'')
      | TOKEN_MULTIPLY \<Rightarrow> Some (CHR ''*'') | TOKEN_COLON \<Rightarrow> Some (CHR '':'') | TOKEN_SEMICOLON \<Rightarrow> Some (CHR '';'')
      | _ \<Rightarrow> None)"

definition keyword_text :: "token_type \<Rightarrow> string option" where
  "keyword_text ty =
     (case ty of
        TOKEN_SYS \<Rightarrow> Some ''sys'' | TOKEN_TYPOSIS \<Rightarrow> Some ''typosis'' | TOKEN_START \<Rightarrow> Some ''start''
      | TOKEN_DEF \<Rightarrow> Some ''def'' | TOKEN_RETURN \<Rightarrow> Some ''return'' | TOKEN_ASCII \<Rightarrow> Some ''ascii''
      | TOKEN_PRINTER \<Rightarrow> Some ''prtlist'' | _ \<Rightarrow> None)"

definition string_ok :: "string \<Rightarrow> bool" where
  "string_ok v \<longleftrightarrow> CHR 0x22 \<notin> set v \<and> CHR 0x00 \<notin> set v"

definition number_ok :: "string \<Rightarrow> bool" where
  "number_ok v \<longleftrightarrow> v \<noteq> [] \<and> isdigit (hd v) \<and> list_all number_char v"

definition identifier_ok :: "string \<Rightarrow> bool" where
  "identifier_ok v \<longleftrightarrow>
     v \<noteq> [] \<and> (isalpha (hd v) \<or> hd v = CHR ''_'') \<and> list_all identifier_char v \<and> keyword v = None"

text \<open>The lexemes the lexer can produce.\<close>

fun lexeme_ok :: "lexeme \<Rightarrow> bool" where
  "lexeme_ok (ty, None) \<longleftrightarrow> single_char ty \<noteq> None \<or> keyword_text ty \<noteq> None"
| "lexeme_ok (ty, Some v) \<longleftrightarrow>
     (case ty of
        TOKEN_STRING \<Rightarrow> string_ok v
      | TOKEN_NUMBER \<Rightarrow> number_ok v
      | TOKEN_IDENTIFIER \<Rightarrow> identifier_ok v
      | _ \<Rightarrow> False)"

fun show_lexeme :: "lexeme \<Rightarrow> string" where
  "show_lexeme (ty, None) = (case single_char ty of Some c \<Rightarrow> [c] | None \<Rightarrow> the (keyword_text ty))"
| "show_lexeme (ty, Some v) = (if ty = TOKEN_STRING then CHR 0x22 # v @ [CHR 0x22] else v)"

text \<open>A program is written with a space after every lexeme.\<close>

definition show_lexemes :: "lexeme list \<Rightarrow> string" where
  "show_lexemes ls = concat (map (\<lambda>l. show_lexeme l @ '' '') ls)"

definition lexeme_node :: "lexeme \<Rightarrow> ast_node option" where
  "lexeme_node l = token_node \<lparr>tk_type = fst l, tk_value = snd l, tk_line = 0, tk_column = 0\<rparr>"

definition lexemes_tree :: "lexeme list \<Rightarrow> ast_node" where
  "lexemes_tree ls = Ast_Node NODE_PROGRAM None (List.map_filter lexeme_node ls)"

section \<open>Characters\<close>

lemmas char_defs = isspace_def isdigit_def isalpha_def isalnum_def number_char_def identifier_char_def

lemma isdigit_code: "isdigit c \<Longrightarrow> 48 \<le> (of_char c :: nat) \<and> (of_char c :: nat) \<le> 57"
  by (simp add: isdigit_def)

lemma alpha_not_digit: "isalpha c \<or> c = CHR ''_'' \<Longrightarrow> \<not> isdigit c"
  by (auto simp: isdigit_def isalpha_def)

lemma no_space: "isdigit c \<or> isalpha c \<or> c = CHR ''_'' \<Longrightarrow> \<not> isspace c"
  by (auto simp: char_defs)

lemma no_single: "isdigit c \<or> isalpha c \<or> c = CHR ''_'' \<Longrightarrow> single_token c = None"
  by (auto simp: single_token_def char_defs)

lemma no_mark: "isdigit c \<or> isalpha c \<or> c = CHR ''_'' \<Longrightarrow> c \<noteq> CHR 0x22 \<and> c \<noteq> CHR ''/'' \<and> c \<noteq> CHR 0x00"
  by (auto simp: char_defs)

lemma null_no_word [simp]: "\<not> number_char (CHR 0x00)" "\<not> identifier_char (CHR 0x00)"
  by (simp_all add: char_defs)

lemma word_no_null:
  "list_all number_char w \<Longrightarrow> CHR 0x00 \<notin> set w"
  "list_all identifier_char w \<Longrightarrow> CHR 0x00 \<notin> set w"
  using null_no_word by (auto simp: list_all_iff)

lemma space_ends_word [simp]: "\<not> number_char (CHR '' '')" "\<not> identifier_char (CHR '' '')"
  by (simp_all add: char_defs)

lemma single_char_inverse: "single_char ty = Some c \<Longrightarrow> single_token c = Some ty"
  by (cases ty) (auto simp: single_char_def single_token_def)

lemma single_char_mem:
  "single_char ty = Some c \<Longrightarrow> c \<in> {CHR ''%'', CHR ''$'', CHR ''&'', CHR ''*'', CHR '':'', CHR '';''}"
  by (cases ty) (simp_all add: single_char_def)

lemma single_char_not_space: "single_char ty = Some c \<Longrightarrow> \<not> isspace c \<and> c \<noteq> CHR ''/'' \<and> c \<noteq> CHR 0x00"
  by (drule single_char_mem) (elim insertE; simp add: isspace_def)

lemma keyword_text_inverse:
  "keyword_text ty = Some w \<Longrightarrow> keyword w = Some ty \<and> w \<noteq> [] \<and> isalpha (hd w) \<and> list_all identifier_char w"
  by (cases ty; simp add: keyword_text_def; drule sym; simp add: keyword_def char_defs)

section \<open>One token\<close>

lemma skip_whitespace_to:
  assumes "dropWhile isspace (ps_rest s) = cs" "\<not> starts_comment cs"
  shows "ps_rest (skip_whitespace s) = cs"
  using assms by (subst skip_whitespace.simps) (simp add: Let_def)

lemma next_token_empty:
  assumes "dropWhile isspace (ps_rest s) = []"
  shows "tk_type (fst (next_token s)) = TOKEN_EOF"
  using skip_whitespace_to [OF assms] by (simp add: next_token_def Let_def starts_comment_def)

lemma scan_word:
  assumes "ps_rest s = w @ c # cs" "list_all P w" "\<not> P c"
  shows "fst (scan P s) = w" "ps_rest (snd (scan P s)) = c # cs"
  using assms by (simp_all add: scan_def Let_def takeWhile_append2 dropWhile_append2 list_all_iff)

lemma parse_string_quoted:
  assumes "ps_rest s = CHR 0x22 # v @ CHR 0x22 # cs" "CHR 0x22 \<notin> set v"
  shows "fst (parse_string s) = v" "ps_rest (snd (parse_string s)) = cs"
proof -
  have "takeWhile (\<lambda>c. c \<noteq> CHR 0x22) (v @ CHR 0x22 # cs) = v"
    "dropWhile (\<lambda>c. c \<noteq> CHR 0x22) (v @ CHR 0x22 # cs) = CHR 0x22 # cs"
    using assms(2) by (subst takeWhile_append2 dropWhile_append2; auto)+
  then show "fst (parse_string s) = v" "ps_rest (snd (parse_string s)) = cs"
    using assms(1) by (simp_all add: parse_string_def Let_def)
qed

text \<open>What \<open>next_token\<close> reads when a written lexeme is next.\<close>

definition reads :: "parser_state \<Rightarrow> lexeme \<Rightarrow> string \<Rightarrow> bool" where
  "reads s l cs \<longleftrightarrow>
     tk_type (fst (next_token s)) = fst l \<and> tk_value (fst (next_token s)) = snd l \<and>
     ps_rest (snd (next_token s)) = CHR '' '' # cs"

lemma reads_single:
  assumes "dropWhile isspace (ps_rest s) = [c] @ '' '' @ cs" "single_char ty = Some c"
  shows "reads s (ty, None) cs"
  using skip_whitespace_to [OF assms(1)] single_char_not_space [OF assms(2)] single_char_inverse [OF assms(2)]
  by (simp add: reads_def next_token_def Let_def starts_comment_def)

lemma reads_string:
  assumes "dropWhile isspace (ps_rest s) = (CHR 0x22 # v @ [CHR 0x22]) @ '' '' @ cs" "string_ok v"
  shows "reads s (TOKEN_STRING, Some v) cs"
proof -
  have r: "ps_rest (skip_whitespace s) = CHR 0x22 # v @ CHR 0x22 # CHR '' '' # cs"
    using skip_whitespace_to [OF assms(1)] by (simp add: starts_comment_def)
  show ?thesis
    using parse_string_quoted [OF r] assms(2)
    by (simp add: reads_def next_token_def Let_def r single_token_def string_ok_def split_beta)
qed

lemma reads_number:
  assumes "dropWhile isspace (ps_rest s) = v @ '' '' @ cs" "number_ok v"
  shows "reads s (TOKEN_NUMBER, Some v) cs"
proof -
  from assms(2) obtain c v' where v: "v = c # v'" and c: "isdigit c" and w: "list_all number_char v"
    by (cases v) (auto simp: number_ok_def)
  have r: "ps_rest (skip_whitespace s) = v @ CHR '' '' # cs"
    using skip_whitespace_to [OF assms(1)] no_mark [of c] c v by (auto simp: starts_comment_def)
  show ?thesis
    using scan_word [OF r w] no_single [of c] no_mark [of c] c v
    by (simp add: reads_def next_token_def Let_def r split_beta parse_number_def)
qed

lemma reads_word:
  assumes "dropWhile isspace (ps_rest s) = v @ '' '' @ cs" "v \<noteq> []" "isalpha (hd v) \<or> hd v = CHR ''_''"
    "list_all identifier_char v"
  shows "reads s (case keyword v of Some ty \<Rightarrow> (ty, None) | None \<Rightarrow> (TOKEN_IDENTIFIER, Some v)) cs"
proof -
  from assms(2,3) obtain c v' where v: "v = c # v'" and c: "isalpha c \<or> c = CHR ''_''" by (cases v) auto
  have r: "ps_rest (skip_whitespace s) = v @ CHR '' '' # cs"
    using skip_whitespace_to [OF assms(1)] no_mark [of c] c v by (auto simp: starts_comment_def)
  show ?thesis
    using scan_word [OF r assms(4)] no_single [of c] no_mark [of c] alpha_not_digit [OF c] c v
    by (auto simp: reads_def next_token_def Let_def r split_beta parse_identifier_def split: option.split)
qed

lemma reads_lexeme:
  assumes "dropWhile isspace (ps_rest s) = show_lexeme l @ '' '' @ cs" "lexeme_ok l"
  shows "reads s l cs"
proof (cases l)
  case (Pair ty val)
  show ?thesis
  proof (cases val)
    case None
    then show ?thesis
      using assms Pair reads_single [of s _ cs ty] reads_word [of s "the (keyword_text ty)" cs]
        keyword_text_inverse [of ty "the (keyword_text ty)"]
      by (cases "single_char ty") auto
  next
    case (Some v)
    then show ?thesis
      using assms Pair reads_string [of s v cs] reads_number [of s v cs] reads_word [of s v cs]
      by (cases ty) (auto simp: identifier_ok_def)
  qed
qed

section \<open>Whole programs\<close>

lemma show_lexeme_start:
  assumes "lexeme_ok l"
  obtains c cs where "show_lexeme l = c # cs" "\<not> isspace c"
proof (cases l)
  case (Pair ty val)
  then show thesis
  proof (cases val)
    case None
    then show thesis
      using assms Pair that single_char_not_space [of ty] keyword_text_inverse [of ty] no_space
      by (cases "single_char ty"; cases "show_lexeme l") fastforce+
  next
    case (Some v)
    then show thesis
      using assms Pair that no_space
      by (cases ty; cases v) (auto simp: number_ok_def identifier_ok_def isspace_def)
  qed
qed

lemma dropWhile_show_lexemes:
  assumes "list_all lexeme_ok ls"
  shows "dropWhile isspace (show_lexemes ls) = show_lexemes ls"
proof (cases ls)
  case (Cons l ls')
  then obtain c cs where "show_lexeme l = c # cs" "\<not> isspace c"
    using assms show_lexeme_start [of l] by auto
  with Cons show ?thesis by (simp add: show_lexemes_def)
qed (simp add: show_lexemes_def)

lemma token_node_lexeme:
  "tk_type t = fst l \<Longrightarrow> tk_value t = snd l \<Longrightarrow> token_node t = lexeme_node l"
  by (cases "fst l") (simp_all add: token_node_def lexeme_node_def)

lemma lexeme_ok_type: "lexeme_ok (ty, val) \<Longrightarrow> ty \<noteq> TOKEN_EOF \<and> ty \<noteq> TOKEN_ERROR"
  by (cases val; cases ty) (simp_all add: single_char_def keyword_text_def)

lemma parse_loop_lexemes:
  assumes "list_all lexeme_ok ls" "dropWhile isspace (ps_rest s) = show_lexemes ls"
  shows "parse_loop s root =
     (0, Ast_Node (ast_type root) (ast_value root) (ast_children root @ List.map_filter lexeme_node ls))"
  using assms
proof (induction ls arbitrary: s root)
  case Nil
  then show ?case
    using next_token_empty [of s]
    by (subst parse_loop.simps) (simp add: split_beta show_lexemes_def map_filter_simps)
next
  case (Cons l ls)
  have ok: "lexeme_ok l" and ls: "list_all lexeme_ok ls" using Cons.prems(1) by simp_all
  have "reads s l (show_lexemes ls)"
    by (rule reads_lexeme [OF _ ok]) (simp add: Cons.prems(2) show_lexemes_def)
  then have r: "tk_type (fst (next_token s)) = fst l" "tk_value (fst (next_token s)) = snd l"
    "ps_rest (snd (next_token s)) = CHR '' '' # show_lexemes ls"
    by (simp_all add: reads_def)
  have d: "dropWhile isspace (ps_rest (snd (next_token s))) = show_lexemes ls"
    by (simp add: r(3) isspace_def dropWhile_show_lexemes [OF ls])
  show ?case
    using Cons.IH [OF ls d] lexeme_ok_type [of "fst l" "snd l"] ok token_node_lexeme [OF r(1,2)] r(1)
    by (subst parse_loop.simps)
      (simp add: split_beta map_filter_simps ast_node_add_child_def split: option.split)
qed

lemma show_lexeme_no_null: "lexeme_ok l \<Longrightarrow> CHR 0x00 \<notin> set (show_lexeme l)"
proof (cases l)
  case (Pair ty val)
  assume ok: "lexeme_ok l"
  show ?thesis
  proof (cases val)
    case None
    then show ?thesis
      using ok Pair single_char_not_space [of ty] keyword_text_inverse [of ty]
      by (cases "single_char ty") (auto dest: word_no_null)
  next
    case (Some v)
    then show ?thesis
      using ok Pair
      by (cases ty) (auto simp: string_ok_def number_ok_def identifier_ok_def dest: word_no_null)
  qed
qed

lemma show_lexemes_no_null:
  "list_all lexeme_ok ls \<Longrightarrow> takeWhile (\<lambda>c. c \<noteq> CHR 0x00) (show_lexemes ls) = show_lexemes ls"
  using show_lexeme_no_null by (auto simp: takeWhile_eq_all_conv show_lexemes_def list_all_iff)

lemma mnc_parse_lexemes:
  assumes "list_all lexeme_ok ls"
  shows "mnc_parse (Some (mnc_parser_init (show_lexemes ls))) =
     (0, Some (mnc_parser_init (show_lexemes ls)\<lparr>mp_ast_root := Some (lexemes_tree ls)\<rparr>))"
  using parse_loop_lexemes [OF assms, of "\<lparr>ps_rest = show_lexemes ls, ps_line = 1, ps_column = 1\<rparr>"]
    dropWhile_show_lexemes [OF assms]
  by (simp add: mnc_parse_def mnc_parser_init_def ast_node_create_def lexemes_tree_def show_lexemes_no_null [OF assms])

section \<open>Properties\<close>



text \<open>Typing of the trees: the root is a program node and every child is a leaf whose text is present
  exactly for the kinds that have one.\<close>

definition leaf_ok :: "ast_node \<Rightarrow> bool" where
  "leaf_ok n \<longleftrightarrow> ast_children n = [] \<and>
     (case ast_value n of
        None \<Rightarrow> ast_type n \<in> {NODE_SYS_DECL, NODE_IMPORT, NODE_FUNCTION, NODE_VARIABLE}
      | Some v \<Rightarrow> (case ast_type n of
                     NODE_STRING \<Rightarrow> CHR 0x22 \<notin> set v
                   | NODE_NUMBER \<Rightarrow> number_ok v
                   | NODE_IDENTIFIER \<Rightarrow> identifier_ok v
                   | _ \<Rightarrow> False))"

definition program_ok :: "ast_node \<Rightarrow> bool" where
  "program_ok n \<longleftrightarrow> ast_type n = NODE_PROGRAM \<and> ast_value n = None \<and> list_all leaf_ok (ast_children n)"

lemma list_all_takeWhile [simp]: "list_all P (takeWhile P xs)"
  by (auto simp: list_all_iff dest: set_takeWhileD)

lemma parse_string_no_quote: "CHR 0x22 \<notin> set (fst (parse_string s))"
  by (auto simp: parse_string_def Let_def split: list.split dest: set_takeWhileD)

lemma scan_ok:
  assumes "ps_rest s = c # cs" "P c"
  shows "fst (scan P s) \<noteq> []" "hd (fst (scan P s)) = c" "list_all P (fst (scan P s))"
  using assms by (simp_all add: scan_def Let_def list_all_iff) (auto dest: set_takeWhileD)

lemma keyword_node_leaf:
  assumes "keyword w = Some (tk_type t)" "token_node t = Some n"
  shows "leaf_ok n"
proof -
  have "tk_type t \<notin> {TOKEN_STRING, TOKEN_NUMBER, TOKEN_IDENTIFIER}"
    using assms(1) by (auto simp: keyword_def split: if_splits)
  then show ?thesis
    using assms(2) by (cases "tk_type t") (auto simp: token_node_def leaf_ok_def ast_node_create_def)
qed

lemma identifier_node_leaf:
  assumes "next_token s = (t, s')" "token_node t = Some n" "ps_rest (skip_whitespace s) = c # cs"
    "isalpha c \<or> c = CHR ''_''"
  shows "leaf_ok n"
proof -
  let ?w = "fst (parse_identifier (skip_whitespace s))"
  have c: "identifier_char c" using assms(4) by (auto simp: identifier_char_def isalnum_def)
  have w: "?w \<noteq> []" "hd ?w = c" "list_all identifier_char ?w"
    unfolding parse_identifier_def using scan_ok [where P = identifier_char, OF assms(3) c] by simp_all
  have word: "single_token c = None" "c \<noteq> CHR 0x22" "(isalpha c \<or> c = CHR ''_'') = True"
    using assms(4) no_single [of c] no_mark [of c] by (simp_all only: simp_thms)
  have t: "case keyword ?w of Some ty \<Rightarrow> tk_type t = ty
                            | None \<Rightarrow> tk_type t = TOKEN_IDENTIFIER \<and> tk_value t = Some ?w"
    using word arg_cong [OF assms(1), of fst, symmetric]
    by (cases "keyword ?w") (simp_all add: next_token_def Let_def split_beta assms(3) alpha_not_digit [OF assms(4)])
  show ?thesis
  proof (cases "keyword ?w")
    case None
    then have "n = Ast_Node NODE_IDENTIFIER (Some ?w) []" using t assms(2) by (simp add: token_node_def)
    then show ?thesis using None w assms(4) by (simp add: leaf_ok_def identifier_ok_def)
  next
    case (Some ty)
    then show ?thesis using t keyword_node_leaf [OF _ assms(2)] by simp
  qed
qed

lemma token_node_leaf:
  assumes "next_token s = (t, s')" "token_node t = Some n"
  shows "leaf_ok n"
proof -
  obtain c cs where c: "ps_rest (skip_whitespace s) = c # cs"
    using assms by (cases "ps_rest (skip_whitespace s)") (auto simp: next_token_def Let_def token_node_def)
  show ?thesis
  proof (cases "single_token c")
    case (Some ty)
    then show ?thesis
      using assms c by (auto simp: next_token_def Let_def token_node_def single_token_def split: if_splits)
  next
    case single: None
    consider "c = CHR 0x22" | "isdigit c" | "isalpha c \<or> c = CHR ''_''" | "t = t\<lparr>tk_type := TOKEN_ERROR\<rparr>"
      using assms c single by (auto simp: next_token_def Let_def split: if_splits)
    then show ?thesis
    proof cases
      case 1
      then show ?thesis
        using assms c single parse_string_no_quote [of "skip_whitespace s"]
        by (auto simp: next_token_def Let_def token_node_def leaf_ok_def split_beta)
    next
      case 2
      then show ?thesis
        using assms c single no_mark [of c] scan_ok [OF c, of number_char]
        by (auto simp: next_token_def Let_def token_node_def leaf_ok_def split_beta parse_number_def number_ok_def
            number_char_def)
    next
      case 3
      then show ?thesis by (rule identifier_node_leaf [OF assms c])
    next
      case 4
      then have "tk_type t = TOKEN_ERROR" by (metis token.select_convs(1) token.surjective token.update_convs(1))
      then show ?thesis using assms(2) by (simp add: token_node_def)
    qed
  qed
qed

lemma parse_loop_ok: "program_ok root \<Longrightarrow> program_ok (snd (parse_loop s root))"
proof (induction s root rule: parse_loop.induct)
  case (1 s root)
  obtain t s' where t: "next_token s = (t, s')" by fastforce
  have add: "program_ok (ast_node_add_child root n)" if "token_node t = Some n" for n
    using "1.prems" token_node_leaf [OF t that] by (simp add: program_ok_def ast_node_add_child_def)
  show ?case
    using "1.IH" [OF t [symmetric]] "1.prems" add
    by (subst parse_loop.simps) (auto simp: t split: option.split)
qed

text \<open>C22. Typing of the parser: whatever the input, the tree that \<open>mnc_parse\<close> leaves in the handle has a
  program node without text as its root, and all its children are leaves: system, import, function and
  variable nodes without text, strings without a quote, numbers that start with a digit, identifiers
  that are no keywords. So the parser never names the functions and variables it declares.\<close>

theorem mnc_parse_typed:
  "case mnc_get_ast (snd (mnc_parse (Some (mnc_parser_init input)))) of None \<Rightarrow> False | Some root \<Rightarrow> program_ok root"
proof -
  have "program_ok (ast_node_create NODE_PROGRAM)" by (simp add: program_ok_def ast_node_create_def)
  from parse_loop_ok [OF this] show ?thesis
    by (simp add: mnc_parse_def mnc_parser_init_def mnc_get_ast_def split_beta)
qed

end
