(* ===== verification/MncCompilerOk.thy ===== *)
theory MncCompilerOk
  imports MncCompiler MncParserOk
begin

text \<open>
  Correctness of the M\&C compiler: a reference encoder without buffers, the proof that compiling
  appends exactly its bytes while memory can be had, the whole pipeline from text to bytecode, and
  what becomes of the handle when the buffer had to grow.
\<close>

section \<open>The reference encoding\<close>

text \<open>The symbols and the address of the next byte are threaded through.\<close>

type_synonym coder = "symbol_entry list \<times> nat"

definition encode_head :: "node_type \<Rightarrow> string option \<Rightarrow> coder \<Rightarrow> u8 list \<times> symbol_entry list" where
  "encode_head ty val = (\<lambda>(syms, addr).
     case opcode ty of
       None \<Rightarrow> ([], syms)
     | Some b \<Rightarrow>
         (case val of
            None \<Rightarrow> ([b], syms)
          | Some v \<Rightarrow>
              (case ty of
                 NODE_FUNCTION \<Rightarrow> ([b], \<lparr>sym_name = v, sym_address = of_nat (Suc addr), sym_type = SYMBOL_FUNCTION\<rparr> # syms)
               | NODE_VARIABLE \<Rightarrow> ([b], \<lparr>sym_name = v, sym_address = of_nat (Suc addr), sym_type = SYMBOL_VARIABLE\<rparr> # syms)
               | NODE_STRING \<Rightarrow> (b # map of_char v, syms)
               | NODE_NUMBER \<Rightarrow> (b # dword_bytes (of_nat (strtoul_0 v)), syms)
               | NODE_IDENTIFIER \<Rightarrow>
                   (b # dword_bytes (case find_symbol syms v of None \<Rightarrow> 0 | Some e \<Rightarrow> sym_address e), syms)
               | _ \<Rightarrow> ([b], syms))))"

fun encode :: "ast_node \<Rightarrow> coder \<Rightarrow> u8 list \<times> symbol_entry list"
  and encodes :: "ast_node list \<Rightarrow> coder \<Rightarrow> u8 list \<times> symbol_entry list" where
  "encode (Ast_Node ty val cs) (syms, addr) =
     (case encode_head ty val (syms, addr) of
        (bs, syms1) \<Rightarrow> (case encodes cs (syms1, addr + length bs) of (ds, syms2) \<Rightarrow> (bs @ ds, syms2)))"
| "encodes [] (syms, addr) = ([], syms)"
| "encodes (n # ns) (syms, addr) =
     (case encode n (syms, addr) of
        (bs, syms1) \<Rightarrow> (case encodes ns (syms1, addr + length bs) of (ds, syms2) \<Rightarrow> (bs @ ds, syms2)))"

section \<open>Emitting\<close>

text \<open>The buffer is live, has the capacity the state says and holds the size it says.\<close>

definition buffer_ok :: "compiler_state \<Rightarrow> bool" where
  "buffer_ok s \<longleftrightarrow>
     0 < cs_capacity s \<and> cs_size s \<le> cs_capacity s \<and>
     map_option length (cs_mem s (cs_bytecode s)) = Some (cs_capacity s)"

definition block_bytes :: "u8 list option \<Rightarrow> u8 list" where
  "block_bytes b = (case b of None \<Rightarrow> [] | Some blk \<Rightarrow> blk)"

lemma block_bytes_Some [simp]: "block_bytes (Some blk) = blk"
  by (simp add: block_bytes_def)

definition written :: "compiler_state \<Rightarrow> u8 list" where
  "written s = take (cs_size s) (block_bytes (cs_mem s (cs_bytecode s)))"

text \<open>What the C library promises of \<open>realloc\<close>, when memory does not run out: the block stays or moves to
  an address where no block is.\<close>

definition realloc_ok :: "mem_realloc \<Rightarrow> bool" where
  "realloc_ok realloc \<longleftrightarrow>
     (\<forall>a n h. case realloc a n h of None \<Rightarrow> False | Some a' \<Rightarrow> a' = a \<or> h a' = None)"

text \<open>The relation between the states before and after bytes are emitted.\<close>

definition emitted :: "compiler_state \<Rightarrow> u8 list \<Rightarrow> compiler_state \<Rightarrow> bool" where
  "emitted s bs s' \<longleftrightarrow>
     buffer_ok s' \<and> written s' = written s @ bs \<and> cs_size s' = cs_size s + length bs \<and>
     cs_address s' = cs_address s + length bs \<and>
     (cs_size s + length bs \<le> cs_capacity s \<longrightarrow>
        cs_bytecode s' = cs_bytecode s \<and> cs_capacity s' = cs_capacity s \<and>
        (\<forall>a. a \<noteq> cs_bytecode s \<longrightarrow> cs_mem s' a = cs_mem s a))"

lemma emitted_refl: "buffer_ok s \<Longrightarrow> emitted s [] s"
  by (simp add: emitted_def)

lemma emitted_trans: "emitted s bs s1 \<Longrightarrow> emitted s1 ds s2 \<Longrightarrow> emitted s (bs @ ds) s2"
  by (simp add: emitted_def)

lemma emitted_ok: "emitted s bs s' \<Longrightarrow> buffer_ok s'"
  by (simp add: emitted_def)

lemma realloc_okD:
  assumes "realloc_ok realloc"
  obtains a' where "realloc a n h = Some a'" "a' = a \<or> h a' = None"
proof -
  have "case realloc a n h of None \<Rightarrow> False | Some a' \<Rightarrow> a' = a \<or> h a' = None"
    using assms unfolding realloc_ok_def by (elim allE)
  then show thesis by (cases "realloc a n h") (simp_all add: that)
qed

lemma grow_ok:
  assumes "realloc_ok realloc" "buffer_ok s"
  obtains s' where "grow realloc s = Inr (0, s')" "buffer_ok s'" "cs_size s' < cs_capacity s'"
    "written s' = written s" "cs_size s' = cs_size s" "cs_address s' = cs_address s" "cs_symbols s' = cs_symbols s"
    "cs_size s < cs_capacity s \<longrightarrow> s' = s"
proof (cases "cs_size s < cs_capacity s")
  case True
  then show thesis using assms that [of s] by (simp add: grow_def)
next
  case False
  from assms(2) obtain blk where blk: "cs_mem s (cs_bytecode s) = Some blk" "length blk = cs_capacity s"
    and c: "0 < cs_capacity s" "cs_size s \<le> cs_capacity s"
    by (auto simp: buffer_ok_def split: option.splits)
  obtain a where a: "realloc (cs_bytecode s) (2 * cs_capacity s) (cs_mem s) = Some a"
    by (rule realloc_okD [OF assms(1)])
  show thesis
    using False blk c a
    by (intro that [of "s\<lparr>cs_capacity := 2 * cs_capacity s, cs_bytecode := a,
          cs_mem := (cs_mem s)(cs_bytecode s := None, a \<mapsto> blk @ replicate (cs_capacity s) 0)\<rparr>"])
      (simp_all add: grow_def Let_def buffer_ok_def written_def)
qed

lemma put_byte_ok:
  assumes "buffer_ok s" "cs_size s < cs_capacity s"
  obtains s' where "put_byte b s = Inr (0, s')" "emitted s [b] s'" "cs_symbols s' = cs_symbols s"
proof -
  from assms(1) obtain blk where blk: "cs_mem s (cs_bytecode s) = Some blk" "length blk = cs_capacity s"
    by (auto simp: buffer_ok_def split: option.splits)
  show thesis
    using blk assms
    by (intro that [of "s\<lparr>cs_mem := (cs_mem s)(cs_bytecode s \<mapsto> blk[cs_size s := b]),
          cs_size := cs_size s + 1, cs_address := cs_address s + 1\<rparr>"])
      (auto simp: put_byte_def emitted_def buffer_ok_def written_def take_Suc_conv_app_nth)
qed

lemma emit_byte_ok:
  assumes "realloc_ok realloc" "buffer_ok s"
  obtains s' where "emit_byte realloc b s = Inr (0, s')" "emitted s [b] s'" "cs_symbols s' = cs_symbols s"
proof -
  obtain s1 where g: "grow realloc s = Inr (0, s1)" "buffer_ok s1" "cs_size s1 < cs_capacity s1"
    "written s1 = written s" "cs_size s1 = cs_size s" "cs_address s1 = cs_address s" "cs_symbols s1 = cs_symbols s"
    "cs_size s < cs_capacity s \<longrightarrow> s1 = s"
    by (rule grow_ok [OF assms])
  obtain s2 where p: "put_byte b s1 = Inr (0, s2)" "emitted s1 [b] s2" "cs_symbols s2 = cs_symbols s1"
    by (rule put_byte_ok [OF g(2,3)])
  have "emitted s [b] s2" using p(2) g by (auto simp: emitted_def)
  then show thesis using g p by (intro that [of s2]) (simp_all add: emit_byte_def)
qed

lemma emit_bytes_ok:
  assumes "realloc_ok realloc" "buffer_ok s"
  shows "\<exists>s'. emit_bytes realloc bs s = Inr (0, s') \<and> emitted s bs s' \<and> cs_symbols s' = cs_symbols s"
  using assms(2)
proof (induction bs arbitrary: s)
  case Nil
  then show ?case by (simp add: emitted_refl)
next
  case (Cons b bs)
  obtain s1 where e: "emit_byte realloc b s = Inr (0, s1)" "emitted s [b] s1" "cs_symbols s1 = cs_symbols s"
    by (rule emit_byte_ok [OF assms(1) Cons.prems])
  obtain s2 where f: "emit_bytes realloc bs s1 = Inr (0, s2)" "emitted s1 bs s2" "cs_symbols s2 = cs_symbols s1"
    using Cons.IH [OF emitted_ok [OF e(2)]] by blast
  show ?case using e f emitted_trans [OF e(2) f(2)] by simp
qed

lemma buffer_symbols [simp]:
  "buffer_ok (s\<lparr>cs_symbols := syms\<rparr>) = buffer_ok s" "written (s\<lparr>cs_symbols := syms\<rparr>) = written s"
  by (simp_all add: buffer_ok_def written_def)

lemma emitted_symbols:
  "emitted s bs s' \<Longrightarrow> emitted s bs (s'\<lparr>cs_symbols := syms\<rparr>)"
  by (simp add: emitted_def)

section \<open>Compiling is encoding\<close>

definition encodes_to :: "compiler_state \<Rightarrow> u8 list \<times> symbol_entry list \<Rightarrow> (int \<times> compiler_state) outcome \<Rightarrow> bool" where
  "encodes_to s e x \<longleftrightarrow> (\<exists>s'. x = Inr (0, s') \<and> emitted s (fst e) s' \<and> cs_symbols s' = snd e)"

lemma ignore_emit_bytes:
  assumes "realloc_ok realloc" "buffer_ok s"
  shows "\<exists>s'. ignore_result (emit_bytes realloc bs s) = Inr s' \<and> emitted s bs s' \<and> cs_symbols s' = cs_symbols s"
  using emit_bytes_ok [OF assms, of bs] by (auto simp: ignore_result_def)

lemma compile_operand_ok:
  assumes "realloc_ok realloc" "buffer_ok s" "opcode ty = Some b" "cs_address s = Suc addr"
    "encode_head ty val (cs_symbols s, addr) = (c # bs, syms)"
  shows "\<exists>s'. compile_operand realloc ty val s = Inr s' \<and> emitted s bs s' \<and> cs_symbols s' = syms"
proof (cases val)
  case None
  then show ?thesis using assms emitted_refl by (auto simp: compile_operand_def encode_head_def)
next
  case (Some v)
  then show ?thesis
    using assms ignore_emit_bytes [OF assms(1,2)] emitted_refl [OF assms(2)] emitted_symbols [OF emitted_refl [OF assms(2)]]
    by (cases ty)
      (auto simp: compile_operand_def encode_head_def emit_string_def emit_dword_def add_symbol_def split: option.split)
qed

lemma compile_head_ok:
  assumes "realloc_ok realloc" "buffer_ok s"
  shows "encodes_to s (encode_head ty val (cs_symbols s, cs_address s)) (compile_head realloc ty val s)"
proof (cases "opcode ty")
  case None
  then show ?thesis using emitted_refl [OF assms(2)] by (simp add: compile_head_def encode_head_def encodes_to_def)
next
  case (Some b)
  obtain bs syms where e: "encode_head ty val (cs_symbols s, cs_address s) = (b # bs, syms)"
    using Some by (cases ty; cases val) (auto simp: encode_head_def)
  obtain s1 where b: "emit_byte realloc b s = Inr (0, s1)" "emitted s [b] s1" "cs_symbols s1 = cs_symbols s"
    by (rule emit_byte_ok [OF assms])
  have "cs_address s1 = Suc (cs_address s)" using b(2) by (simp add: emitted_def)
  then obtain s2 where o: "compile_operand realloc ty val s1 = Inr s2" "emitted s1 bs s2" "cs_symbols s2 = syms"
    using compile_operand_ok [OF assms(1) emitted_ok [OF b(2)] Some, of "cs_address s" val b bs syms] e b(3) by auto
  show ?thesis
    using Some b o e emitted_trans [OF b(2) o(2)] by (simp add: compile_head_def encodes_to_def)
qed

lemma emitted_address: "emitted s bs s' \<Longrightarrow> cs_address s' = cs_address s + length bs"
  by (simp add: emitted_def)

lemma compile_node_encodes:
  "realloc_ok realloc \<Longrightarrow> buffer_ok s \<Longrightarrow>
     encodes_to s (encode n (cs_symbols s, cs_address s)) (compile_node realloc n s)"
  "realloc_ok realloc \<Longrightarrow> buffer_ok s \<Longrightarrow>
     encodes_to s (encodes ns (cs_symbols s, cs_address s)) (compile_nodes realloc ns s)"
proof (induction realloc n s and realloc ns s rule: compile_node_compile_nodes.induct)
  case (1 realloc ty val cs s)
  obtain s1 where h: "compile_head realloc ty val s = Inr (0, s1)"
    "emitted s (fst (encode_head ty val (cs_symbols s, cs_address s))) s1"
    "cs_symbols s1 = snd (encode_head ty val (cs_symbols s, cs_address s))"
    using compile_head_ok [OF 1(2,3), of ty val] by (auto simp: encodes_to_def)
  then show ?case
    using "1.IH" [OF h(1) refl _ 1(2) emitted_ok [OF h(2)]] emitted_trans [OF h(2)] emitted_address [OF h(2)]
    by (fastforce simp: encodes_to_def split_beta)
next
  case (2 realloc s)
  then show ?case by (simp add: encodes_to_def emitted_refl)
next
  case (3 realloc n ns s)
  obtain s1 where h: "compile_node realloc n s = Inr (0, s1)"
    "emitted s (fst (encode n (cs_symbols s, cs_address s))) s1"
    "cs_symbols s1 = snd (encode n (cs_symbols s, cs_address s))"
    using "3.IH"(1) [OF 3(3,4)] by (auto simp: encodes_to_def)
  then show ?case
    using "3.IH"(2) [OF h(1) refl _ 3(3) emitted_ok [OF h(2)]] emitted_trans [OF h(2)] emitted_address [OF h(2)]
    by (fastforce simp: encodes_to_def split_beta)
qed

section \<open>Invariants of compiling\<close>

text \<open>A predicate that single bytes and new symbols keep is kept by all that compiling does.\<close>

definition byte_stable :: "mem_realloc \<Rightarrow> (compiler_state \<Rightarrow> bool) \<Rightarrow> bool" where
  "byte_stable realloc P \<longleftrightarrow>
     (\<forall>b s r s'. P s \<longrightarrow> emit_byte realloc b s = Inr (r, s') \<longrightarrow> P s') \<and> (\<forall>s syms. P s \<longrightarrow> P (s\<lparr>cs_symbols := syms\<rparr>))"

lemma stable_emit_byte: "byte_stable realloc P \<Longrightarrow> P s \<Longrightarrow> emit_byte realloc b s = Inr (r, s') \<Longrightarrow> P s'"
  unfolding byte_stable_def by metis

lemma stable_symbols: "byte_stable realloc P \<Longrightarrow> P s \<Longrightarrow> P (s\<lparr>cs_symbols := syms\<rparr>)"
  unfolding byte_stable_def by metis

lemma stable_emit_bytes:
  "byte_stable realloc P \<Longrightarrow> P s \<Longrightarrow> emit_bytes realloc bs s = Inr (r, s') \<Longrightarrow> P s'"
proof (induction bs arbitrary: s)
  case (Cons b bs)
  show ?case
  proof (cases "emit_byte realloc b s")
    case (Inr rs)
    then obtain r1 s1 where e: "emit_byte realloc b s = Inr (r1, s1)" by (cases rs) simp
    have "P s1" by (rule stable_emit_byte [OF Cons.prems(1,2) e])
    then show ?thesis
      using Cons.prems(3) Cons.IH [OF Cons.prems(1), of s1] e by (cases "r1 = 0") simp_all
  qed (use Cons.prems in simp)
qed simp

lemma stable_operand:
  assumes "byte_stable realloc P" "P s" "compile_operand realloc ty val s = Inr s'"
  shows "P s'"
proof -
  have ign: "P s'" if "ignore_result (emit_bytes realloc bs s) = Inr s'" for bs
  proof (cases "emit_bytes realloc bs s")
    case (Inr rs)
    then obtain r s1 where "emit_bytes realloc bs s = Inr (r, s1)" by (cases rs) simp
    then show ?thesis using that stable_emit_bytes [OF assms(1,2)] by (simp add: ignore_result_def)
  qed (use that in \<open>simp add: ignore_result_def\<close>)
  show ?thesis
  proof (cases val)
    case (Some v)
    then show ?thesis
      using assms(2,3) ign stable_symbols [OF assms(1,2)]
      by (cases ty; cases "find_symbol (cs_symbols s) v")
        (auto simp: compile_operand_def emit_string_def emit_dword_def add_symbol_def)
  qed (use assms in \<open>simp add: compile_operand_def\<close>)
qed

lemma stable_head:
  assumes "byte_stable realloc P" "P s" "compile_head realloc ty val s = Inr (r, s')"
  shows "P s'"
proof (cases "opcode ty")
  case (Some b)
  show ?thesis
  proof (cases "emit_byte realloc b s")
    case (Inr rs)
    then obtain r1 s1 where e: "emit_byte realloc b s = Inr (r1, s1)" by (cases rs) simp
    then show ?thesis
      using assms(3) Some stable_emit_byte [OF assms(1,2) e] stable_operand [OF assms(1), of s1 ty val]
      by (auto simp: compile_head_def split: if_splits sum.splits)
  qed (use assms Some in \<open>simp add: compile_head_def\<close>)
qed (use assms in \<open>simp add: compile_head_def\<close>)

lemma stable_compile:
  "byte_stable realloc P \<Longrightarrow> P s \<Longrightarrow> compile_node realloc n s = Inr (r, s') \<Longrightarrow> P s'"
  "byte_stable realloc P \<Longrightarrow> P s \<Longrightarrow> compile_nodes realloc ns s = Inr (r, s') \<Longrightarrow> P s'"
proof (induction realloc n s and realloc ns s arbitrary: r s' and r s' rule: compile_node_compile_nodes.induct)
  case (1 realloc ty val cs s)
  show ?case
  proof (cases "compile_head realloc ty val s")
    case (Inr rs)
    then obtain r1 s1 where e: "compile_head realloc ty val s = Inr (r1, s1)" by (cases rs) simp
    then show ?thesis
      using "1.prems"(3) "1.IH" [OF e refl _ "1.prems"(1)] stable_head [OF "1.prems"(1,2) e]
      by (cases "r1 = 0") auto
  qed (use "1.prems" in simp)
next
  case (3 realloc n ns s)
  show ?case
  proof (cases "compile_node realloc n s")
    case (Inr rs)
    then obtain r1 s1 where e: "compile_node realloc n s = Inr (r1, s1)" by (cases rs) simp
    then show ?thesis
      using "3.prems"(3) "3.IH"(2) [OF e refl _ "3.prems"(1)] "3.IH"(1) [OF "3.prems"(1,2) e]
      by (cases "r1 = 0") auto
  qed (use "3.prems" in simp)
qed simp

section \<open>Properties\<close>

text \<open>The handle owns a live buffer of its capacity.\<close>

definition handle_ok :: "mnc_compiler \<Rightarrow> mem \<Rightarrow> bool" where
  "handle_ok c h \<longleftrightarrow>
     0 < mc_capacity c \<and> mc_size c \<le> mc_capacity c \<and>
     map_option length (h (mc_bytecode c)) = Some (mc_capacity c)"

definition handle_code :: "mnc_compiler \<Rightarrow> mem \<Rightarrow> u8 list" where
  "handle_code c h = take (mc_size c) (block_bytes (h (mc_bytecode c)))"

definition start_state :: "mnc_compiler \<Rightarrow> mem \<Rightarrow> compiler_state" where
  "start_state c h = \<lparr>cs_bytecode = mc_bytecode c, cs_size = mc_size c, cs_capacity = mc_capacity c, cs_address = 0,
                      cs_symbols = mc_symbols c, cs_mem = h\<rparr>"

lemma start_state_ok: "buffer_ok (start_state c h) = handle_ok c h" "written (start_state c h) = handle_code c h"
  by (simp_all add: start_state_def buffer_ok_def handle_ok_def written_def handle_code_def)

lemma mnc_compile_run:
  assumes "realloc_ok realloc" "handle_ok c h" "encode root (mc_symbols c, 0) = (bs, syms)"
  obtains s where "compile_node realloc root (start_state c h) = Inr (0, s)" "emitted (start_state c h) bs s"
    "cs_symbols s = syms"
    "mnc_compile realloc (Some c) (Some root) h =
       Inr (0, Some (c\<lparr>mc_size := mc_size c + length bs, mc_symbols := syms\<rparr>), cs_mem s)"
proof -
  let ?s = "start_state c h"
  have "cs_symbols ?s = mc_symbols c" "cs_address ?s = 0" "cs_size ?s = mc_size c" by (simp_all add: start_state_def)
  with compile_node_encodes(1) [OF assms(1), of ?s root] assms(2,3)
  obtain s where s: "compile_node realloc root ?s = Inr (0, s)" "emitted ?s bs s" "cs_symbols s = syms"
    by (auto simp: start_state_ok encodes_to_def)
  have "cs_size s = mc_size c + length bs" using s(2) by (simp add: emitted_def start_state_def)
  with s show thesis
    by (intro that [of s]) (simp_all add: mnc_compile_def start_state_def [symmetric])
qed


text \<open>A concrete memory: \<open>realloc\<close> moves every block to the address after its own.\<close>

definition demo_realloc :: mem_realloc where
  "demo_realloc a n h = Some (if h (Suc a) = None then Suc a else a)"

lemma demo_realloc_ok: "realloc_ok demo_realloc"
  by (simp add: realloc_ok_def demo_realloc_def)

definition demo_handle :: mnc_compiler where
  "demo_handle = \<lparr>mc_self = 0, mc_bytecode = 1, mc_size = 0, mc_capacity = 1024, mc_symbols = []\<rparr>"

definition demo_mem :: mem where
  "demo_mem = [0 \<mapsto> replicate 32 0, 1 \<mapsto> replicate 1024 0]"

lemma demo_handle_ok: "handle_ok demo_handle demo_mem" "handle_code demo_handle demo_mem = []"
  by (simp_all add: handle_ok_def handle_code_def demo_handle_def demo_mem_def)

lemma six: "6 = Suc (Suc (Suc (Suc (Suc (Suc 0)))))"
  by simp


text \<open>The bytecode of a lexeme: no name is ever bound, so that every identifier refers to address 0.\<close>

fun lexeme_code :: "lexeme \<Rightarrow> u8 list" where
  "lexeme_code (TOKEN_SYS, val) = [0x48]"
| "lexeme_code (TOKEN_TYPOSIS, val) = [0x49]"
| "lexeme_code (TOKEN_START, val) = [0x4A]"
| "lexeme_code (TOKEN_DEF, val) = [0x4B]"
| "lexeme_code (TOKEN_STRING, Some v) = 0x4C # map of_char v"
| "lexeme_code (TOKEN_NUMBER, Some v) = 0x4D # dword_bytes (of_nat (strtoul_0 v))"
| "lexeme_code (TOKEN_IDENTIFIER, Some v) = [0x4E, 0, 0, 0, 0]"
| "lexeme_code l = []"

lemma lexeme_node_code:
  assumes "lexeme_ok l" "lexeme_node l = Some n"
  shows "encode n ([], addr) = (lexeme_code l, [])"
proof (cases l)
  case (Pair ty val)
  then show ?thesis
    using assms
    by (cases val; cases ty)
      (auto simp: lexeme_node_def token_node_def ast_node_create_def encode_head_def opcode_def find_symbol_def
        dword_bytes_def single_char_def keyword_text_def)
qed

lemma lexeme_no_node_code:
  assumes "lexeme_ok l" "lexeme_node l = None"
  shows "lexeme_code l = []"
proof (cases l)
  case (Pair ty val)
  then show ?thesis
    using assms by (cases val; cases ty) (auto simp: lexeme_node_def token_node_def)
qed

lemma lexemes_code:
  "list_all lexeme_ok ls \<Longrightarrow> encodes (List.map_filter lexeme_node ls) ([], addr) = (concat (map lexeme_code ls), [])"
proof (induction ls arbitrary: addr)
  case (Cons l ls)
  then show ?case
    using lexeme_node_code [of l] lexeme_no_node_code [of l]
    by (cases "lexeme_node l") (simp_all add: map_filter_simps)
qed (simp add: map_filter_simps)

lemma lexemes_tree_code:
  "list_all lexeme_ok ls \<Longrightarrow> encode (lexemes_tree ls) ([], 0) = (concat (map lexeme_code ls), [])"
  using lexemes_code [of ls 0] by (simp add: lexemes_tree_def encode_head_def opcode_def)

section \<open>From text to bytecode\<close>

text \<open>The addresses of two free places \<open>malloc\<close> gives for the handle and the buffer.\<close>

definition mallocs :: "mem_malloc \<Rightarrow> mem \<Rightarrow> nat \<Rightarrow> nat \<Rightarrow> bool" where
  "mallocs malloc h a b \<longleftrightarrow>
     a \<noteq> b \<and> h a = None \<and> h b = None \<and> malloc 32 h = Some a \<and> malloc 1024 (h(a \<mapsto> replicate 32 0)) = Some b"

definition fresh_handle :: "nat \<Rightarrow> nat \<Rightarrow> mnc_compiler" where
  "fresh_handle a b = \<lparr>mc_self = a, mc_bytecode = b, mc_size = 0, mc_capacity = 1024, mc_symbols = []\<rparr>"

definition fresh_mem :: "nat \<Rightarrow> nat \<Rightarrow> mem \<Rightarrow> mem" where
  "fresh_mem a b h = h(a \<mapsto> replicate 32 0, b \<mapsto> replicate 1024 0)"

lemma mnc_compiler_init_ok:
  "mallocs malloc h a b \<Longrightarrow> mnc_compiler_init malloc h = (Some (fresh_handle a b), fresh_mem a b h)"
  by (simp add: mnc_compiler_init_def Let_def mallocs_def fresh_handle_def fresh_mem_def)

lemma fresh_handle_ok: "handle_ok (fresh_handle a b) (fresh_mem a b h)"
  by (simp add: handle_ok_def fresh_handle_def fresh_mem_def)

lemma fresh_compile:
  assumes "realloc_ok realloc" "list_all lexeme_ok ls"
  obtains s where "compile_node realloc (lexemes_tree ls) (start_state (fresh_handle a b) (fresh_mem a b h)) = Inr (0, s)"
    "emitted (start_state (fresh_handle a b) (fresh_mem a b h)) (concat (map lexeme_code ls)) s"
    "mnc_compile realloc (Some (fresh_handle a b)) (Some (lexemes_tree ls)) (fresh_mem a b h) =
       Inr (0, Some ((fresh_handle a b)\<lparr>mc_size := length (concat (map lexeme_code ls))\<rparr>), cs_mem s)"
proof -
  have sym: "mc_symbols (fresh_handle a b) = []" "mc_size (fresh_handle a b) = 0" by (simp_all add: fresh_handle_def)
  have upd: "(fresh_handle a b)\<lparr>mc_size := n, mc_symbols := []\<rparr> = (fresh_handle a b)\<lparr>mc_size := n\<rparr>" for n
    by (simp add: fresh_handle_def)
  show thesis
    using mnc_compile_run [OF assms(1) fresh_handle_ok, of "lexemes_tree ls" a b "concat (map lexeme_code ls)" "[]" h]
      that lexemes_tree_code [OF assms(2)]
    unfolding sym upd by (simp only: add_0) blast
qed

lemma mnc_main_after_parse:
  assumes "list_all lexeme_ok ls" "mallocs malloc h a b"
    "mnc_compile realloc (Some (fresh_handle a b)) (Some (lexemes_tree ls)) (fresh_mem a b h) = Inr (0, Some c, m)"
  shows "mnc_main malloc realloc (show_lexemes ls) h =
     (case print_bytecode (mc_bytecode c) (mc_size c) m of
        Inl e \<Rightarrow> Inl e
      | Inr bs \<Rightarrow> (case mnc_compiler_cleanup (Some c) m of Inl e \<Rightarrow> Inl e | Inr h3 \<Rightarrow> Inr (0, bs, h3)))"
  by (simp add: mnc_main_def mnc_parse_lexemes [OF assms(1)] mnc_get_ast_def mnc_compiler_init_ok [OF assms(2)] assms(3)
      mnc_get_bytecode_def)


definition demo_mem_malloc :: mem_malloc where
  "demo_mem_malloc n h = (if h 0 = None then Some 0 else if h 1 = None then Some 1 else None)"

lemma demo_mallocs: "mallocs demo_mem_malloc Map.empty 0 1"
  by (simp add: mallocs_def demo_mem_malloc_def)


section \<open>When the buffer grows\<close>

text \<open>The pointer of a buffer of 1024 bytes at \<open>b\<close> that moves to \<open>b'\<close> when it grows.\<close>

definition moved_when_large :: "nat \<Rightarrow> nat \<Rightarrow> compiler_state \<Rightarrow> bool" where
  "moved_when_large b b' s \<longleftrightarrow>
     (cs_size s \<le> 1024 \<longrightarrow> cs_bytecode s = b \<and> cs_capacity s = 1024 \<and> cs_mem s b' = None) \<and>
     (1024 < cs_size s \<and> cs_size s \<le> 2048 \<longrightarrow> cs_bytecode s \<noteq> b \<and> cs_capacity s = 2048 \<and> cs_mem s b = None)"

lemma moved_stable:
  assumes "\<And>m. m b' = None \<Longrightarrow> realloc b 2048 m = Some b'" "b' \<noteq> b" "realloc_ok realloc"
  shows "byte_stable realloc (moved_when_large b b')"
proof -
  have "moved_when_large b b' s'" if P: "moved_when_large b b' s" and e: "emit_byte realloc c s = Inr (r, s')" for c s r s'
  proof -
    obtain a where "realloc (cs_bytecode s) (2 * cs_capacity s) (cs_mem s) = Some a" by (rule realloc_okD [OF assms(3)])
    then show ?thesis
      using P e assms(1,2)
      by (auto simp: moved_when_large_def emit_byte_def grow_def put_byte_def Let_def split: if_splits option.splits)
  qed
  moreover have "moved_when_large b b' (s\<lparr>cs_symbols := syms\<rparr>)" if "moved_when_large b b' s" for s syms
    using that by (simp add: moved_when_large_def)
  ultimately show ?thesis unfolding byte_stable_def by (intro conjI allI impI)
qed

text \<open>A program that outgrows the buffer: when the code takes between 1025 and 2048 bytes and \<open>realloc\<close>
  moves the buffer, compilation reports success but the handle keeps the address of the freed block. Its
  size exceeds its capacity, the driver reads freed memory when it prints the code, and cleaning the
  handle up frees the block a second time.\<close>

theorem mnc_main_outgrows:
  assumes "mallocs malloc h a b" "realloc_ok realloc" "b' \<notin> {a, b}" "h b' = None"
    "\<And>m. m b' = None \<Longrightarrow> realloc b 2048 m = Some b'"
    "list_all lexeme_ok ls" "1024 < length (concat (map lexeme_code ls))" "length (concat (map lexeme_code ls)) \<le> 2048"
  shows "mnc_main malloc realloc (show_lexemes ls) h = Inl Use_After_Free \<and>
         (\<exists>c m. mnc_compile realloc (Some (fresh_handle a b)) (Some (lexemes_tree ls)) (fresh_mem a b h) = Inr (0, Some c, m) \<and>
                mc_capacity c < mc_size c \<and> mnc_compiler_cleanup (Some c) m = Inl Double_Free)"
proof -
  let ?bs = "concat (map lexeme_code ls)" and ?c = "fresh_handle a b" and ?h = "fresh_mem a b h"
  obtain s where s: "compile_node realloc (lexemes_tree ls) (start_state ?c ?h) = Inr (0, s)"
    "emitted (start_state ?c ?h) ?bs s"
    "mnc_compile realloc (Some ?c) (Some (lexemes_tree ls)) ?h = Inr (0, Some (?c\<lparr>mc_size := length ?bs\<rparr>), cs_mem s)"
    by (rule fresh_compile [OF assms(2,6)])
  have start: "moved_when_large b b' (start_state ?c ?h)"
    using assms(3,4) by (simp add: moved_when_large_def start_state_def fresh_handle_def fresh_mem_def)
  have stable: "byte_stable realloc (moved_when_large b b')"
    by (rule moved_stable) (use assms(2,3,5) in simp_all)
  have "moved_when_large b b' s" by (rule stable_compile(1) [OF stable start s(1)])
  moreover have "cs_size s = length ?bs" using s(2) by (simp add: emitted_def) (simp add: start_state_def fresh_handle_def)
  ultimately have freed: "cs_mem s b = None" using assms(7,8) by (simp add: moved_when_large_def)
  have "print_bytecode b (length ?bs) (cs_mem s) = Inl Use_After_Free"
    using freed assms(7) by (cases ?bs) (simp_all add: print_bytecode_def)
  moreover have "mnc_compiler_cleanup (Some (?c\<lparr>mc_size := length ?bs\<rparr>)) (cs_mem s) = Inl Double_Free"
    using freed by (simp add: mnc_compiler_cleanup_def mem_free_def fresh_handle_def)
  moreover have "mc_capacity ?c < length ?bs" using assms(7) by (simp add: fresh_handle_def)
  ultimately show ?thesis
    using mnc_main_after_parse [OF assms(6,1) s(3)] s(3) by (simp add: fresh_handle_def)
qed

definition moving_realloc :: mem_realloc where
  "moving_realloc a n h = Some (if h 7 = None then 7 else a)"

lemma moving_realloc_ok: "realloc_ok moving_realloc"
  by (simp add: realloc_ok_def moving_realloc_def)

theorem mnc_main_outgrows_witness:
  "mnc_main demo_mem_malloc moving_realloc (show_lexemes (replicate 1025 (TOKEN_SYS, None))) Map.empty = Inl Use_After_Free"
proof -
  let ?ls = "replicate 1025 (TOKEN_SYS, None) :: lexeme list"
  have ok: "list_all lexeme_ok ?ls" by (simp add: list_all_iff single_char_def keyword_text_def)
  have len: "length (concat (map lexeme_code ?ls)) = 1025"
    by (simp add: length_concat sum_list_replicate)
  have to7: "moving_realloc 1 2048 m = Some 7" if "m 7 = None" for m :: mem
    using that by (simp add: moving_realloc_def)
  show ?thesis
    using mnc_main_outgrows [OF demo_mallocs moving_realloc_ok _ _ to7 ok] unfolding len by simp
qed

section \<open>Further behaviour\<close>

text \<open>Two different programs with the same bytecode: a string has neither a length nor an end mark.\<close>

lemma bytecode_ambiguous:
  "concat (map lexeme_code [(TOKEN_STRING, Some ''H'')]) = concat (map lexeme_code [(TOKEN_STRING, Some []), (TOKEN_SYS, None)])"
  by simp

text \<open>After a \<open>realloc\<close> that failed the capacity is wrong, and the next byte is written past the buffer.\<close>

lemma emit_after_failed_realloc:
  assumes "buffer_ok s" "cs_size s = cs_capacity s" "\<And>a n h. realloc a n h = None"
  shows "\<exists>s'. emit_byte realloc b s = Inr (- 1, s') \<and> emit_byte realloc c s' = Inl Out_Of_Bounds"
  using assms by (auto simp: emit_byte_def grow_def put_byte_def buffer_ok_def)

text \<open>The program of the driver is one line, so that its first comment takes all of the rest.\<close>

definition test_code :: string where
  "test_code =
     ''%sys $mirix*032$ // define system %typosis $mmm.lib*0xf08$ // import stdlib $$start* @mkdef char* { '' @
     ''// define chars str: '' @ [CHR 0x22, CHR ''h'', CHR 0x22] @ '' & 0x01; '' @
     ''str: '' @ [CHR 0x22, CHR ''e'', CHR 0x22] @ '' & 0x10; '' @
     ''str: '' @ [CHR 0x22, CHR ''l'', CHR 0x22] @ '' & 0x11 * 2: '' @
     ''str: '' @ [CHR 0x22, CHR ''e'', CHR 0x22] @ '' & 0x100; '' @
     ''str: '' @ [CHR 0x22, CHR ''w'', CHR 0x22] @ '' & 0x101; '' @
     ''str: '' @ [CHR 0x22, CHR ''d'', CHR 0x22] @ '' & 0x110; '' @
     ''str: '' @ [CHR 0x22, CHR ''o'', CHR 0x22] @ '' & 0x111; '' @
     ''str: '' @ [CHR 0x22, CHR ''r'', CHR 0x22] @ '' & 0x1000; }; '' @
     ''%%ascii %$mk & addrlst: 0x01, 0x10, 0x11*2, 0x100, $$blk, 0x101, 0x110, 0x1000, 0x11, 0x110; '' @
     ''&&prtlist addrlst %return cnil''"

lemma test_code_mostly_comment:
  "mnc_get_ast (snd (mnc_parse (Some (mnc_parser_init test_code)))) =
     Some (Ast_Node NODE_PROGRAM None [Ast_Node NODE_SYS_DECL None [], Ast_Node NODE_IDENTIFIER (Some ''mirix*032$'') []])"
  by code_simp

text \<open>Hexadecimal digits above 9 do not belong to a number for the lexer.\<close>

lemma hexadecimal_number_split:
  "mnc_get_ast (snd (mnc_parse (Some (mnc_parser_init ''0xf08'')))) =
     Some (Ast_Node NODE_PROGRAM None [Ast_Node NODE_NUMBER (Some ''0x'') [], Ast_Node NODE_IDENTIFIER (Some ''f08'') []])"
  by code_simp

end
