(* ===== verification/Host.thy ===== *)
theory Host
  imports Prelude
begin

text \<open>
  The host the kernel runs on, and the host interface (\<^verbatim>\<open>src/mirix/host/host_interface.c\<close>). The
  functions of the host's operating system are the fields of one record \<open>host_os\<close> over an
  abstract state of the host; the definitions that call them take that record as an argument.
  The interface keeps a kernel event queue for descriptors and timers. The handlers of single
  events only print, so a poll is the count of the events it got. The build for DOS, in which
  the interface is empty, is not modelled.
\<close>

section \<open>The functions of the host\<close>

datatype kfilter = EVFILT_READ | EVFILT_WRITE | EVFILT_TIMER | EVFILT_OTHER int

datatype kaction = EV_ADD_ENABLE | EV_DELETE

record kevent =
  kev_ident :: int
  kev_filter :: kfilter
  kev_action :: kaction
  kev_data :: u64
  kev_udata :: bool

text \<open>
  \<open>os_kevent q changes room w\<close> answers \<open>None\<close> for \<^verbatim>\<open>-1\<close> and at most \<open>room\<close> events otherwise.
  \<open>os_read\<close> answers its result and the bytes it put into the buffer. \<open>os_exec\<close> answers \<open>None\<close>
  when the program replaces the process. \<open>os_wait\<close> answers a process and its status. \<open>os_stat\<close>
  answers whether a path exists and is a directory. \<open>os_clock\<close> gives seconds and nanoseconds.
  \<open>os_rewind\<close> is \<^verbatim>\<open>lseek\<close> to the start of a file.
\<close>

record 'w host_os =
  os_kqueue :: "'w \<Rightarrow> int \<times> 'w"
  os_kevent :: "int \<Rightarrow> kevent list \<Rightarrow> nat \<Rightarrow> 'w \<Rightarrow> kevent list option \<times> 'w"
  os_open :: "string \<Rightarrow> u32 \<Rightarrow> u32 \<Rightarrow> 'w \<Rightarrow> int \<times> 'w"
  os_close :: "int \<Rightarrow> 'w \<Rightarrow> int \<times> 'w"
  os_read :: "int \<Rightarrow> nat \<Rightarrow> 'w \<Rightarrow> int \<times> u8 list \<times> 'w"
  os_write :: "int \<Rightarrow> u8 list \<Rightarrow> 'w \<Rightarrow> int \<times> 'w"
  os_fork :: "'w \<Rightarrow> int \<times> 'w"
  os_exec :: "string \<Rightarrow> string list \<Rightarrow> 'w \<Rightarrow> (int \<times> 'w) option"
  os_wait :: "'w \<Rightarrow> int \<times> int \<times> 'w"
  os_waitpid :: "int \<Rightarrow> 'w \<Rightarrow> int \<times> 'w"
  os_getpid :: "'w \<Rightarrow> u32"
  os_clock :: "'w \<Rightarrow> u64 \<times> u64"
  os_stat :: "string \<Rightarrow> 'w \<Rightarrow> bool option"
  os_rewind :: "int \<Rightarrow> 'w \<Rightarrow> 'w"

section \<open>The host interface\<close>

record host_state =
  kqueue_fd :: int
  host_initialized :: bool

definition host_state0 :: host_state where
  "host_state0 = \<lparr>kqueue_fd = 0, host_initialized = False\<rparr>"

definition host_interface_init :: "'w host_os \<Rightarrow> host_state \<Rightarrow> 'w \<Rightarrow> int \<times> host_state \<times> 'w" where
  "host_interface_init os s w =
     (if host_initialized s then (0, s, w)
      else (case os_kqueue os w of
              (fd, w') \<Rightarrow>
                if fd = - 1 then (- 1, s\<lparr>kqueue_fd := fd\<rparr>, w')
                else (0, s\<lparr>kqueue_fd := fd, host_initialized := True\<rparr>, w')))"

definition host_interface_cleanup :: "'w host_os \<Rightarrow> host_state \<Rightarrow> 'w \<Rightarrow> host_state \<times> 'w" where
  "host_interface_cleanup os s w =
     (if kqueue_fd s \<noteq> - 1 then
        (s\<lparr>kqueue_fd := - 1, host_initialized := False\<rparr>, snd (os_close os (kqueue_fd s) w))
      else (s\<lparr>host_initialized := False\<rparr>, w))"

definition host_interface_poll_events :: "'w host_os \<Rightarrow> host_state \<Rightarrow> 'w \<Rightarrow> int \<times> 'w" where
  "host_interface_poll_events os s w =
     (if \<not> host_initialized s then (- 1, w)
      else (case os_kevent os (kqueue_fd s) [] 10 w of
              (None, w') \<Rightarrow> (- 1, w')
            | (Some evs, w') \<Rightarrow> (int (length evs), w')))"

text \<open>One change to the event queue, as the three registration functions make it.\<close>

definition kevent_change :: "'w host_os \<Rightarrow> kevent \<Rightarrow> int \<Rightarrow> host_state \<Rightarrow> 'w \<Rightarrow> int \<times> 'w" where
  "kevent_change os kev ok s w =
     (if \<not> host_initialized s then (- 1, w)
      else (case os_kevent os (kqueue_fd s) [kev] 0 w of
              (None, w') \<Rightarrow> (- 1, w')
            | (Some evs, w') \<Rightarrow> (ok, w')))"

definition host_interface_monitor_fd :: "'w host_os \<Rightarrow> int \<Rightarrow> bool \<Rightarrow> host_state \<Rightarrow> 'w \<Rightarrow> int \<times> 'w" where
  "host_interface_monitor_fd os fd data =
     kevent_change os \<lparr>kev_ident = fd, kev_filter = EVFILT_READ, kev_action = EV_ADD_ENABLE,
       kev_data = 0, kev_udata = data\<rparr> 0"

definition host_interface_unmonitor_fd :: "'w host_os \<Rightarrow> int \<Rightarrow> host_state \<Rightarrow> 'w \<Rightarrow> int \<times> 'w" where
  "host_interface_unmonitor_fd os fd =
     kevent_change os \<lparr>kev_ident = fd, kev_filter = EVFILT_READ, kev_action = EV_DELETE,
       kev_data = 0, kev_udata = False\<rparr> 0"

text \<open>Every timer is registered under the identifier 1, whether periodic or not.\<close>

definition host_interface_create_timer ::
  "'w host_os \<Rightarrow> u64 \<Rightarrow> bool \<Rightarrow> bool \<Rightarrow> host_state \<Rightarrow> 'w \<Rightarrow> int \<times> 'w" where
  "host_interface_create_timer os interval_ms periodic data =
     kevent_change os \<lparr>kev_ident = 1, kev_filter = EVFILT_TIMER, kev_action = EV_ADD_ENABLE,
       kev_data = interval_ms, kev_udata = data\<rparr> 1"

section \<open>A small host\<close>

text \<open>
  A host to run examples on: the log of the descriptors opened and closed, a file of bytes to
  read from, and the identifier of the running process.
\<close>

record demo_host =
  dh_open :: "int list"
  dh_closed :: "int list"
  dh_bytes :: "u8 list"
  dh_pid :: u32

definition demo_os :: "demo_host host_os" where
  "demo_os = \<lparr>os_kqueue = (\<lambda>w. (9, w)), os_kevent = (\<lambda>q c n w. (Some [], w)),
     os_open = (\<lambda>p f m w. let fd = Max (set (2 # dh_open w @ dh_closed w)) + 1 in
       (fd, w\<lparr>dh_open := fd # dh_open w\<rparr>)),
     os_close = (\<lambda>fd w. (0, w\<lparr>dh_closed := fd # dh_closed w\<rparr>)),
     os_read = (\<lambda>fd n w. (int (min n (length (dh_bytes w))), take n (dh_bytes w),
       w\<lparr>dh_bytes := drop n (dh_bytes w)\<rparr>)),
     os_write = (\<lambda>fd bs w. (int (length bs), w\<lparr>dh_bytes := dh_bytes w @ bs\<rparr>)),
     os_fork = (\<lambda>w. (77, w)), os_exec = (\<lambda>p a w. None), os_wait = (\<lambda>w. (77, 0, w)),
     os_waitpid = (\<lambda>p w. (0, w)), os_getpid = dh_pid, os_clock = (\<lambda>w. (1, 2)),
     os_stat = (\<lambda>p w. Some True), os_rewind = (\<lambda>fd w. w)\<rparr>"

definition demo_host0 :: demo_host where
  "demo_host0 = \<lparr>dh_open = [], dh_closed = [], dh_bytes = [1, 2, 3], dh_pid = 100\<rparr>"

end
