(* ===== verification/Ipc.thy ===== *)
theory Ipc
  imports Prelude
begin

text \<open>
  The kernel's message passing (\<^verbatim>\<open>src/mirix/ipc/ipc.c\<close>, \<^verbatim>\<open>ipc.h\<close>): a bounded ring of
  fixed-size message slots guarded by one semaphore, with selective receive by process id.
  The locale \<open>mailbox\<close> states what clients rely on (an ordered bag of parcels with a capacity);
  its interpretation shows that the ring implements it. Console output is not modelled.
\<close>

section \<open>Data\<close>

definition MIRIX_IPC_MAX_DATA_SIZE :: nat where
  "MIRIX_IPC_MAX_DATA_SIZE = 4096"

record mirix_message =
  sender_pid :: u32
  receiver_pid :: u32
  timestamp :: u64
  msg_flags :: u32
  data_size :: nat
  data :: "u8 list"

text \<open>\<^verbatim>\<open>sizeof(mirix_message_t)\<close> on an LP64 host: 4 + 4 + 8 + 4 (+ 4 padding) + 8 + 4096.\<close>

definition sizeof_mirix_message :: nat where
  "sizeof_mirix_message = 4128"

record message_queue =
  messages :: "mirix_message list"
  capacity :: nat
  head :: nat
  tail :: nat
  q_count :: nat

text \<open>A \<^verbatim>\<open>sem_t *\<close>: \<^verbatim>\<open>SEM_FAILED\<close> (the null pointer in glibc), an open semaphore with its
  value, or a semaphore that was closed through this pointer.\<close>

datatype sem = Sem_Failed | Sem_Open nat | Sem_Closed

record ipc_state =
  ipc_initialized :: bool
  shared_memory :: block
  shared_memory_size :: nat
  shm_fd :: int
  message_sem :: sem
  message_queue :: message_queue

text \<open>The state before the first call: C zero-initialises static storage.\<close>

definition ipc_state0 :: ipc_state where
  "ipc_state0 = \<lparr>ipc_initialized = False, shared_memory = Null_Ptr, shared_memory_size = 0,
     shm_fd = 0, message_sem = Sem_Failed,
     message_queue = \<lparr>messages = [], capacity = 0, head = 0, tail = 0, q_count = 0\<rparr>\<rparr>"

section \<open>Operations\<close>

definition sem_wait :: "sem \<Rightarrow> sem outcome" where
  "sem_wait x = (case x of Sem_Open (Suc n) \<Rightarrow> Inr (Sem_Open n) | Sem_Open 0 \<Rightarrow> Inl Blocked
     | Sem_Closed \<Rightarrow> Inl Use_After_Free | Sem_Failed \<Rightarrow> Inl Null_Deref)"

definition sem_post :: "sem \<Rightarrow> sem" where
  "sem_post x = (case x of Sem_Open n \<Rightarrow> Sem_Open (Suc n) | _ \<Rightarrow> x)"

definition sem_close :: "sem \<Rightarrow> sem outcome" where
  "sem_close x = (case x of Sem_Open n \<Rightarrow> Inr Sem_Closed | Sem_Closed \<Rightarrow> Inl Use_After_Free
     | Sem_Failed \<Rightarrow> Inl Null_Deref)"

text \<open>
  \<open>mem\<close> is what \<^verbatim>\<open>malloc\<close> answers, read as an array of messages (\<open>None\<close>: \<^verbatim>\<open>NULL\<close>);
  \<open>sm\<close> is the value of the named semaphore that \<^verbatim>\<open>sem_open\<close> yields (\<open>None\<close>: \<^verbatim>\<open>SEM_FAILED\<close>).
\<close>

definition ipc_system_init ::
  "mirix_message list option \<Rightarrow> nat option \<Rightarrow> ipc_state \<Rightarrow> int \<times> ipc_state" where
  "ipc_system_init mem sm s =
     (if ipc_initialized s then (0, s)
      else let size = 1024 * 1024; s = s\<lparr>shared_memory_size := size\<rparr> in
        case mem of
          None \<Rightarrow> (- 1, s\<lparr>shared_memory := Null_Ptr\<rparr>)
        | Some ms \<Rightarrow>
            let s = s\<lparr>shared_memory := Live, shm_fd := - 1,
                      message_queue := \<lparr>messages = ms, capacity = size div sizeof_mirix_message,
                                        head = 0, tail = 0, q_count = 0\<rparr>\<rparr> in
            (case sm of
               None \<Rightarrow> (- 1, s\<lparr>message_sem := Sem_Failed, shared_memory := Freed\<rparr>)
             | Some v \<Rightarrow> (0, s\<lparr>message_sem := Sem_Open v, ipc_initialized := True\<rparr>)))"

text \<open>\<open>ipc_system_cleanup\<close> answers the descriptors it closes with the new state.\<close>

definition ipc_system_cleanup :: "ipc_state \<Rightarrow> (int list \<times> ipc_state) outcome" where
  "ipc_system_cleanup s =
     (case (if message_sem s \<noteq> Sem_Failed then sem_close (message_sem s) else Inr Sem_Failed) of
        Inl e \<Rightarrow> Inl e
      | Inr sm \<Rightarrow>
          (case c_free (shared_memory s) of
             Inl e \<Rightarrow> Inl e
           | Inr b \<Rightarrow>
               Inr (if shm_fd s \<noteq> - 1 then [shm_fd s] else [],
                    s\<lparr>message_sem := sm, shared_memory := b, ipc_initialized := False\<rparr>)))"

definition get_current_timestamp :: "u64 \<Rightarrow> u64 \<Rightarrow> u64" where
  "get_current_timestamp tv_sec tv_nsec = tv_sec * 1000000 + tv_nsec div 1000"

definition ipc_send_message ::
  "u64 \<Rightarrow> ipc_state \<Rightarrow> u32 \<Rightarrow> u32 \<Rightarrow> u8 list \<Rightarrow> nat \<Rightarrow> u32 \<Rightarrow> (int \<times> ipc_state) outcome" where
  "ipc_send_message now s sender receiver buf sz flags =
     (if \<not> ipc_initialized s then Inr (- 1, s)
      else case sem_wait (message_sem s) of
        Inl e \<Rightarrow> Inl e
      | Inr sm \<Rightarrow>
          let q = message_queue s; s = s\<lparr>message_sem := sem_post sm\<rparr> in
          if q_count q \<ge> capacity q then Inr (- 1, s)
          else if \<not> tail q < length (messages q) then Inl Out_Of_Bounds
          else
            let msg = (messages q ! tail q)\<lparr>sender_pid := sender, receiver_pid := receiver,
                        timestamp := now, msg_flags := flags, data_size := sz\<rparr> in
            if sz \<le> MIRIX_IPC_MAX_DATA_SIZE then
              (if length buf < sz then Inl Out_Of_Bounds
               else let msg = msg\<lparr>data := take sz buf @ drop sz (data msg)\<rparr> in
                 Inr (0, s\<lparr>message_queue := q\<lparr>messages := (messages q)[tail q := msg],
                            tail := (tail q + 1) mod capacity q, q_count := q_count q + 1\<rparr>\<rparr>))
            else Inr (- 1, s\<lparr>message_queue := q\<lparr>messages := (messages q)[tail q := msg]\<rparr>\<rparr>))"

text \<open>The scan for the first queued message of a receiver; the answer is a slot index.\<close>

definition found_index :: "message_queue \<Rightarrow> u32 \<Rightarrow> nat option" where
  "found_index q pid =
     map_option (\<lambda>i. (head q + i) mod capacity q)
       (first_idx (\<lambda>i. receiver_pid (messages q ! ((head q + i) mod capacity q)) = pid)
         [0..<q_count q])"

text \<open>The loop that closes the gap by moving the messages in front of it back by one slot.
  The decrement runs in \<^verbatim>\<open>size_t\<close>, so \<open>i - 1 + capacity\<close> is \<open>i + capacity - 1\<close>.\<close>

partial_function (option) close_gap ::
  "nat \<Rightarrow> nat \<Rightarrow> nat \<Rightarrow> mirix_message list \<Rightarrow> mirix_message list option" where
  "close_gap cap h i ms =
     (if i = h then Some ms
      else let prev = (i + cap - 1) mod cap in close_gap cap h prev (ms[i := ms ! prev]))"

text \<open>One pass of the receive loop: the message taken, if any, and the new state.
  A gap loop that never reaches the head is a call that never returns.\<close>

definition receive_poll :: "ipc_state \<Rightarrow> u32 \<Rightarrow> (mirix_message option \<times> ipc_state) outcome" where
  "receive_poll s pid =
     (case sem_wait (message_sem s) of
        Inl e \<Rightarrow> Inl e
      | Inr sm \<Rightarrow>
          let q = message_queue s; s = s\<lparr>message_sem := sem_post sm\<rparr> in
          (case found_index q pid of
             None \<Rightarrow> Inr (None, s)
           | Some k \<Rightarrow>
               if \<not> k < length (messages q) then Inl Out_Of_Bounds
               else (case close_gap (capacity q) (head q) k (messages q) of
                 None \<Rightarrow> Inl Blocked
               | Some ms \<Rightarrow>
                   Inr (Some (messages q ! k),
                        s\<lparr>message_queue := q\<lparr>messages := ms, head := (head q + 1) mod capacity q,
                                             q_count := q_count q - 1\<rparr>\<rparr>))))"

text \<open>
  The receive loop. Between two polls the caller sleeps and other processes run: \<open>env\<close> lists
  what they do to the state, one entry per sleep. A caller that is still polling when the list
  is exhausted is blocked.
\<close>

fun receive_loop ::
  "(ipc_state \<Rightarrow> ipc_state) list \<Rightarrow> ipc_state \<Rightarrow> u32 \<Rightarrow> bool \<Rightarrow>
     (int \<times> mirix_message option \<times> ipc_state) outcome" where
  "receive_loop env s pid block =
     (case receive_poll s pid of
        Inl e \<Rightarrow> Inl e
      | Inr (Some m, s') \<Rightarrow> Inr (0, Some m, s')
      | Inr (None, s') \<Rightarrow>
          if \<not> block then Inr (- 1, None, s')
          else (case env of [] \<Rightarrow> Inl Blocked | e # es \<Rightarrow> receive_loop es (e s') pid block))"

declare receive_loop.simps [simp del]

definition ipc_receive_message ::
  "(ipc_state \<Rightarrow> ipc_state) list \<Rightarrow> ipc_state \<Rightarrow> u32 \<Rightarrow> bool \<Rightarrow> bool \<Rightarrow>
     (int \<times> mirix_message option \<times> ipc_state) outcome" where
  "ipc_receive_message env s pid msg_nonnull block =
     (if \<not> ipc_initialized s \<or> \<not> msg_nonnull then Inr (- 1, None, s)
      else receive_loop env s pid block)"

text \<open>\<open>ipc_process_messages\<close> has no effect in either branch.\<close>

definition ipc_process_messages :: "ipc_state \<Rightarrow> ipc_state" where
  "ipc_process_messages s = (if \<not> ipc_initialized s then s else s)"

section \<open>The ring as a list of parcels\<close>

text \<open>What a receiver can see of a slot: the header and the first \<open>data_size\<close> bytes.\<close>

datatype parcel = Parcel (p_from: u32) (p_dest: u32) (p_time: u64) (p_flags: u32) (p_data: "u8 list")

definition parcel_of :: "mirix_message \<Rightarrow> parcel" where
  "parcel_of m = Parcel (sender_pid m) (receiver_pid m) (timestamp m) (msg_flags m)
                   (take (data_size m) (data m))"

definition ring_slice :: "message_queue \<Rightarrow> mirix_message list" where
  "ring_slice q = map (\<lambda>i. messages q ! ((head q + i) mod capacity q)) [0..<q_count q]"

definition ipc_contents :: "ipc_state \<Rightarrow> parcel list" where
  "ipc_contents s = map parcel_of (ring_slice (message_queue s))"

definition slot_ok :: "mirix_message \<Rightarrow> bool" where
  "slot_ok m \<longleftrightarrow> length (data m) = MIRIX_IPC_MAX_DATA_SIZE"

definition queue_ok :: "message_queue \<Rightarrow> bool" where
  "queue_ok q \<longleftrightarrow>
     length (messages q) = capacity q \<and> head q < capacity q \<and> q_count q \<le> capacity q \<and>
     tail q = (head q + q_count q) mod capacity q \<and> (\<forall>m \<in> set (messages q). slot_ok m) \<and>
     (\<forall>m \<in> set (ring_slice q). data_size m \<le> MIRIX_IPC_MAX_DATA_SIZE)"

definition ipc_inv :: "ipc_state \<Rightarrow> bool" where
  "ipc_inv s \<longleftrightarrow> ipc_initialized s \<and> message_sem s = Sem_Open 1 \<and> shared_memory s = Live \<and>
     shm_fd s = - 1 \<and> capacity (message_queue s) = 254 \<and> queue_ok (message_queue s)"

lemma sem_simps [outcome_simps, simp]:
  "sem_wait (Sem_Open (Suc n)) = Inr (Sem_Open n)" "sem_wait (Sem_Open 1) = Inr (Sem_Open 0)"
  "sem_wait (Sem_Open 0) = Inl Blocked" "sem_wait Sem_Failed = Inl Null_Deref"
  "sem_wait Sem_Closed = Inl Use_After_Free"
  "sem_post (Sem_Open n) = Sem_Open (Suc n)" "sem_close (Sem_Open n) = Inr Sem_Closed"
  "sem_close Sem_Closed = Inl Use_After_Free" "sem_close Sem_Failed = Inl Null_Deref"
  by (simp_all add: sem_wait_def sem_post_def sem_close_def)

lemma length_ring_slice [simp]: "length (ring_slice q) = q_count q"
  by (simp add: ring_slice_def)

lemma ring_slice_nth [simp]:
  "i < q_count q \<Longrightarrow> ring_slice q ! i = messages q ! ((head q + i) mod capacity q)"
  by (simp add: ring_slice_def)

lemma length_ipc_contents [simp]: "length (ipc_contents s) = q_count (message_queue s)"
  by (simp add: ipc_contents_def)

lemma ipc_contents_nth [simp]:
  "i < q_count (message_queue s) \<Longrightarrow> ipc_contents s ! i = parcel_of (ring_slice (message_queue s) ! i)"
  by (simp add: ipc_contents_def)

subsection \<open>Writing the tail slot\<close>

lemma ring_slice_write_tail:
  assumes "queue_ok q" "q_count q < capacity q"
  shows "ring_slice (q\<lparr>messages := (messages q)[tail q := m]\<rparr>) = ring_slice q"
proof (rule nth_equalityI)
  show "length (ring_slice (q\<lparr>messages := (messages q)[tail q := m]\<rparr>)) = length (ring_slice q)"
    by simp
next
  fix i assume "i < length (ring_slice (q\<lparr>messages := (messages q)[tail q := m]\<rparr>))"
  then have i: "i < q_count q" by simp
  with assms have "(head q + i) mod capacity q \<noteq> tail q"
    using mod_ring_inj [of i "capacity q" "q_count q" "head q"] by (auto simp: queue_ok_def)
  with i show "ring_slice (q\<lparr>messages := (messages q)[tail q := m]\<rparr>) ! i = ring_slice q ! i" by simp
qed

lemma ring_slice_push:
  assumes "queue_ok q" "q_count q < capacity q"
  shows "ring_slice (q\<lparr>messages := (messages q)[tail q := m], tail := t, q_count := q_count q + 1\<rparr>) =
           ring_slice q @ [m]"
proof -
  have "tail q < length (messages q)" using assms by (auto simp: queue_ok_def)
  then have "(messages q)[tail q := m] ! ((head q + q_count q) mod capacity q) = m"
    using assms by (simp add: queue_ok_def)
  with ring_slice_write_tail [OF assms, of m] show ?thesis
    by (simp add: ring_slice_def)
qed

lemma queue_ok_write_tail:
  "queue_ok q \<Longrightarrow> q_count q < capacity q \<Longrightarrow> slot_ok m \<Longrightarrow>
   queue_ok (q\<lparr>messages := (messages q)[tail q := m]\<rparr>)"
  using ring_slice_write_tail [of q m] set_update_subset_insert [of "messages q" "tail q" m]
  unfolding queue_ok_def by auto

lemma queue_ok_push:
  assumes "queue_ok q" "q_count q < capacity q" "slot_ok m" "data_size m \<le> MIRIX_IPC_MAX_DATA_SIZE"
  shows "queue_ok (q\<lparr>messages := (messages q)[tail q := m], tail := (tail q + 1) mod capacity q,
                     q_count := q_count q + 1\<rparr>)"
  using ring_slice_push [OF assms(1,2)] set_update_subset_insert [of "messages q" "tail q" m] assms
  unfolding queue_ok_def by (auto simp: mod_Suc_eq)

subsection \<open>Closing the gap\<close>

lemma close_gap_returns:
  assumes "h < cap" "length ms = cap" "k < cap"
  shows "\<exists>ms'. close_gap cap h ((h + k) mod cap) ms = Some ms' \<and> length ms' = cap \<and>
           set ms' \<subseteq> set ms \<and> (\<forall>i < cap. ms' ! ((h + i) mod cap) =
              (if 0 < i \<and> i \<le> k then ms ! ((h + (i - 1)) mod cap) else ms ! ((h + i) mod cap)))"
  using assms
proof (induction k arbitrary: ms)
  case 0
  then show ?case by (simp add: close_gap.simps)
next
  case (Suc k)
  let ?i = "(h + Suc k) mod cap" and ?p = "(h + k) mod cap"
  let ?ms = "ms[?i := ms ! ?p]"
  have ne: "?i \<noteq> h" using mod_ring_inj [of "Suc k" cap 0 h] Suc.prems by auto
  have prev: "(?i + cap - 1) mod cap = ?p" using ring_pred Suc.prems(1) .
  from Suc.IH [of ?ms] Suc.prems obtain ms' where
    ms': "close_gap cap h ?p ?ms = Some ms'" "length ms' = cap" "set ms' \<subseteq> set ?ms"
    "\<And>i. i < cap \<Longrightarrow> ms' ! ((h + i) mod cap) =
       (if 0 < i \<and> i \<le> k then ?ms ! ((h + (i - 1)) mod cap) else ?ms ! ((h + i) mod cap))"
    by auto
  have run: "close_gap cap h ?i ms = Some ms'"
    by (subst close_gap.simps) (simp only: ne prev ms'(1) if_False Let_def)
  have other: "?ms ! ((h + j) mod cap) = ms ! ((h + j) mod cap)" if "j < cap" "j \<noteq> Suc k" for j
    using mod_ring_inj [of j cap "Suc k" h] that Suc.prems by (metis nth_list_update_neq)
  have here: "?ms ! ?i = ms ! ?p" using Suc.prems by simp
  have "ms' ! ((h + i) mod cap) =
          (if 0 < i \<and> i \<le> Suc k then ms ! ((h + (i - 1)) mod cap) else ms ! ((h + i) mod cap))"
    if i: "i < cap" for i
  proof (cases "i = Suc k")
    case True
    then show ?thesis using ms'(4) [OF i] here by simp
  next
    case False
    then have "i \<le> Suc k \<longleftrightarrow> i \<le> k" by auto
    then show ?thesis using ms'(4) [OF i] other [of i] other [of "i - 1"] i False by auto
  qed
  moreover have "set ?ms \<subseteq> set ms"
  proof (rule set_update_subsetI)
    show "set ms \<subseteq> set ms" ..
    show "ms ! ?p \<in> set ms" using Suc.prems by (intro nth_mem) simp
  qed
  ultimately show ?case using run ms'(2,3) by (intro exI [of _ ms']) blast
qed


subsection \<open>Removing the first message of a receiver\<close>

text \<open>The position in arrival order of the message that \<open>found_index\<close> points at.\<close>

lemma found_index_None:
  "found_index q pid = None \<longleftrightarrow> (\<forall>m \<in> set (ring_slice q). receiver_pid m \<noteq> pid)"
  by (auto simp: found_index_def ring_slice_def)

lemma found_index_SomeD:
  assumes "found_index q pid = Some k"
  obtains i where "i < q_count q" "k = (head q + i) mod capacity q"
    "receiver_pid (ring_slice q ! i) = pid" "\<forall>j < i. receiver_pid (ring_slice q ! j) \<noteq> pid"
proof -
  from assms obtain i where "first_idx (\<lambda>i. receiver_pid (messages q ! ((head q + i) mod capacity q)) = pid)
         [0..<q_count q] = Some i" and k: "k = (head q + i) mod capacity q"
    by (auto simp: found_index_def)
  from first_idx_SomeD [OF this(1)] have "i < q_count q" and
    "receiver_pid (messages q ! ((head q + i) mod capacity q)) = pid"
    "\<forall>j < i. receiver_pid (messages q ! ((head q + j) mod capacity q)) \<noteq> pid" by auto
  with k show thesis by (intro that [of i]) simp_all
qed

lemma ring_slice_close_gap:
  assumes ok: "queue_ok q" and i: "i < q_count q"
  obtains ms where "close_gap (capacity q) (head q) ((head q + i) mod capacity q) (messages q) = Some ms"
    "length ms = capacity q" "set ms \<subseteq> set (messages q)"
    "ring_slice (q\<lparr>messages := ms, head := (head q + 1) mod capacity q, q_count := q_count q - 1\<rparr>) =
       remove_nth i (ring_slice q)"
proof -
  let ?c = "capacity q" and ?h = "head q"
  from close_gap_returns [of ?h ?c "messages q" i] ok i obtain ms where
    ms: "close_gap ?c ?h ((?h + i) mod ?c) (messages q) = Some ms" "length ms = ?c"
      "set ms \<subseteq> set (messages q)"
      "\<And>j. j < ?c \<Longrightarrow> ms ! ((?h + j) mod ?c) =
         (if 0 < j \<and> j \<le> i then messages q ! ((?h + (j - 1)) mod ?c) else messages q ! ((?h + j) mod ?c))"
    by (auto simp: queue_ok_def)
  let ?q = "q\<lparr>messages := ms, head := (?h + 1) mod ?c, q_count := q_count q - 1\<rparr>"
  have "ring_slice ?q = remove_nth i (ring_slice q)"
  proof (rule nth_equalityI)
    show "length (ring_slice ?q) = length (remove_nth i (ring_slice q))" using i by simp
  next
    fix j assume "j < length (ring_slice ?q)"
    then have j: "j < q_count q - 1" by simp
    moreover have "q_count q \<le> ?c" using ok by (simp add: queue_ok_def)
    ultimately have lt: "Suc j < ?c" by linarith
    have "ring_slice ?q ! j = ms ! ((?h + Suc j) mod ?c)" using j by (simp add: mod_Suc_eq mod_add_left_eq)
    also have "\<dots> = remove_nth i (ring_slice q) ! j"
      using j i ms(4) [OF lt] by (simp add: remove_nth_nth)
    finally show "ring_slice ?q ! j = remove_nth i (ring_slice q) ! j" .
  qed
  with ms(1-3) show thesis by (rule that)
qed

lemma queue_ok_pop:
  assumes ok: "queue_ok q" and i: "i < q_count q"
    and ms: "length ms = capacity q" "set ms \<subseteq> set (messages q)"
    and slice: "ring_slice (q\<lparr>messages := ms, head := (head q + 1) mod capacity q, q_count := q_count q - 1\<rparr>)
      = remove_nth i (ring_slice q)"
  shows "queue_ok (q\<lparr>messages := ms, head := (head q + 1) mod capacity q, q_count := q_count q - 1\<rparr>)"
proof -
  have "((head q + 1) mod capacity q + (q_count q - 1)) mod capacity q =
          (head q + 1 + (q_count q - 1)) mod capacity q"
    by (rule mod_add_left_eq)
  also have "head q + 1 + (q_count q - 1) = head q + q_count q" using i by simp
  finally have "tail q = ((head q + 1) mod capacity q + (q_count q - 1)) mod capacity q"
    using ok by (simp add: queue_ok_def)
  then show ?thesis
    using ok i ms slice set_remove_nth_subset [of i "ring_slice q"] unfolding queue_ok_def by auto
qed


section \<open>Behaviour of the operations\<close>

lemma ipc_invD:
  assumes "ipc_inv s"
  shows "ipc_initialized s" "message_sem s = Sem_Open 1" "queue_ok (message_queue s)"
    "capacity (message_queue s) = 254" "tail (message_queue s) < length (messages (message_queue s))"
  using assms by (auto simp: ipc_inv_def queue_ok_def)

lemma ipc_inv_sem [simp]: "ipc_inv s \<Longrightarrow> s\<lparr>message_sem := Sem_Open (Suc 0)\<rparr> = s"
  by (simp add: ipc_inv_def)

lemma ipc_inv_queue:
  "ipc_inv s \<Longrightarrow> queue_ok q \<Longrightarrow> capacity q = capacity (message_queue s) \<Longrightarrow>
   ipc_inv (s\<lparr>message_queue := q\<rparr>)"
  by (simp add: ipc_inv_def)

lemma ipc_contents_queue [simp]:
  "ipc_contents (s\<lparr>message_queue := q\<rparr>) = map parcel_of (ring_slice q)"
  by (simp add: ipc_contents_def)

lemma slot_ok_tail: "ipc_inv s \<Longrightarrow> slot_ok (messages (message_queue s) ! tail (message_queue s))"
  using ipc_invD(3,5) [of s] by (auto simp: queue_ok_def)

lemma send_stored:
  assumes inv: "ipc_inv s" and room: "q_count (message_queue s) < 254"
    and sz: "n \<le> MIRIX_IPC_MAX_DATA_SIZE" "n \<le> length buf"
  shows "\<exists>s'. ipc_send_message now s from dst buf n fl = Inr (0, s') \<and> ipc_inv s' \<and>
           ipc_contents s' = ipc_contents s @ [Parcel from dst now fl (take n buf)]"
proof -
  let ?q = "message_queue s"
  let ?m = "(messages ?q ! tail ?q)\<lparr>sender_pid := from, receiver_pid := dst, timestamp := now,
    msg_flags := fl, data_size := n, data := take n buf @ drop n (data (messages ?q ! tail ?q))\<rparr>"
  let ?q' = "?q\<lparr>messages := (messages ?q)[tail ?q := ?m], tail := (tail ?q + 1) mod capacity ?q,
                q_count := q_count ?q + 1\<rparr>"
  note d = ipc_invD [OF inv]
  have room': "q_count ?q < capacity ?q" using room d(4) by simp
  have slot: "slot_ok ?m" "data_size ?m \<le> MIRIX_IPC_MAX_DATA_SIZE"
    using slot_ok_tail [OF inv] sz by (simp_all add: slot_ok_def)
  have "ipc_send_message now s from dst buf n fl = Inr (0, s\<lparr>message_queue := ?q'\<rparr>)"
    using d room' sz inv by (simp add: ipc_send_message_def Let_def)
  moreover have "ipc_inv (s\<lparr>message_queue := ?q'\<rparr>)"
    using ipc_inv_queue [OF inv queue_ok_push [OF d(3) room' slot]] by simp
  moreover have "ipc_contents (s\<lparr>message_queue := ?q'\<rparr>) = ipc_contents s @ [parcel_of ?m]"
    using ring_slice_push [OF d(3) room', where m = ?m] by (simp add: ipc_contents_def)
  moreover have "parcel_of ?m = Parcel from dst now fl (take n buf)"
    using sz by (simp add: parcel_of_def)
  ultimately show ?thesis by metis
qed

lemma send_full:
  "ipc_inv s \<Longrightarrow> q_count (message_queue s) = 254 \<Longrightarrow>
   ipc_send_message now s from dst buf n fl = Inr (- 1, s)"
  using ipc_invD [of s] by (simp add: ipc_send_message_def Let_def)

lemma send_too_large:
  assumes inv: "ipc_inv s" and room: "q_count (message_queue s) < 254"
    and sz: "MIRIX_IPC_MAX_DATA_SIZE < n"
  shows "\<exists>s'. ipc_send_message now s from dst buf n fl = Inr (- 1, s') \<and> ipc_inv s' \<and>
           ipc_contents s' = ipc_contents s"
proof -
  let ?q = "message_queue s"
  let ?m = "(messages ?q ! tail ?q)\<lparr>sender_pid := from, receiver_pid := dst, timestamp := now,
    msg_flags := fl, data_size := n\<rparr>"
  let ?q' = "?q\<lparr>messages := (messages ?q)[tail ?q := ?m]\<rparr>"
  note d = ipc_invD [OF inv]
  have room': "q_count ?q < capacity ?q" using room d(4) by simp
  have slot: "slot_ok ?m" using slot_ok_tail [OF inv] by (simp add: slot_ok_def)
  have "ipc_send_message now s from dst buf n fl = Inr (- 1, s\<lparr>message_queue := ?q'\<rparr>)"
    using d room' sz inv by (simp add: ipc_send_message_def Let_def)
  moreover have "ipc_inv (s\<lparr>message_queue := ?q'\<rparr>)"
    using ipc_inv_queue [OF inv queue_ok_write_tail [OF d(3) room' slot]] by simp
  moreover have "ipc_contents (s\<lparr>message_queue := ?q'\<rparr>) = ipc_contents s"
    using ring_slice_write_tail [OF d(3) room', of ?m] by (simp add: ipc_contents_def)
  ultimately show ?thesis by metis
qed

lemma poll_empty:
  "ipc_inv s \<Longrightarrow> \<forall>p \<in> set (ipc_contents s). p_dest p \<noteq> pid \<Longrightarrow> receive_poll s pid = Inr (None, s)"
  using ipc_invD [of s] found_index_None [of "message_queue s" pid]
  by (simp add: receive_poll_def ipc_contents_def parcel_of_def Let_def)

lemma poll_found:
  assumes inv: "ipc_inv s" and ex: "\<exists>p \<in> set (ipc_contents s). p_dest p = pid"
  obtains i m s' where "receive_poll s pid = Inr (Some m, s')" "ipc_inv s'" "i < length (ipc_contents s)"
    "parcel_of m = ipc_contents s ! i" "data_size m \<le> MIRIX_IPC_MAX_DATA_SIZE" "p_dest (ipc_contents s ! i) = pid"
    "\<forall>j < i. p_dest (ipc_contents s ! j) \<noteq> pid" "ipc_contents s' = remove_nth i (ipc_contents s)"
proof -
  let ?q = "message_queue s"
  note d = ipc_invD [OF inv]
  from ex have "found_index ?q pid \<noteq> None"
    by (auto simp: found_index_None ipc_contents_def parcel_of_def)
  then obtain k where k: "found_index ?q pid = Some k" by blast
  from found_index_SomeD [OF k] obtain i where i: "i < q_count ?q" "k = (head ?q + i) mod capacity ?q"
    "receiver_pid (ring_slice ?q ! i) = pid" "\<forall>j < i. receiver_pid (ring_slice ?q ! j) \<noteq> pid" .
  from ring_slice_close_gap [OF d(3) i(1)] obtain ms where
    ms: "close_gap (capacity ?q) (head ?q) k (messages ?q) = Some ms"
      "length ms = capacity ?q" "set ms \<subseteq> set (messages ?q)"
      "ring_slice (?q\<lparr>messages := ms, head := (head ?q + 1) mod capacity ?q, q_count := q_count ?q - 1\<rparr>) =
         remove_nth i (ring_slice ?q)"
    unfolding i(2) .
  let ?s = "s\<lparr>message_queue := ?q\<lparr>messages := ms, head := (head ?q + 1) mod capacity ?q,
                q_count := q_count ?q - 1\<rparr>\<rparr>"
  have "k < length (messages ?q)" using d(3,4) i(2) by (simp add: queue_ok_def)
  then have run: "receive_poll s pid = Inr (Some (ring_slice ?q ! i), ?s)"
    using k ms(1) d(2) i(1,2) inv by (simp add: receive_poll_def Let_def)
  show thesis
  proof (rule that [OF run, of i])
    show "ipc_inv ?s" using ipc_inv_queue [OF inv queue_ok_pop [OF d(3) i(1) ms(2,3,4)]] by simp
    show "i < length (ipc_contents s)" "parcel_of (ring_slice ?q ! i) = ipc_contents s ! i"
      using i(1) by simp_all
    show "data_size (ring_slice ?q ! i) \<le> MIRIX_IPC_MAX_DATA_SIZE"
      using d(3) i(1) unfolding queue_ok_def by (metis length_ring_slice nth_mem)
    show "p_dest (ipc_contents s ! i) = pid" "\<forall>j < i. p_dest (ipc_contents s ! j) \<noteq> pid"
      using i by (simp_all add: parcel_of_def)
    show "ipc_contents ?s = remove_nth i (ipc_contents s)"
      using ms(4) by (simp add: ipc_contents_def remove_nth_def take_map drop_map)
  qed
qed


section \<open>The mailbox contract\<close>

text \<open>
  What the users of the queue rely on. \<open>send\<close> answers whether the item was accepted, \<open>recv\<close>
  the item taken, if any. Items of one destination leave in the order in which they came.
\<close>

datatype ('v, 'a) mail_op = Put 'v | Take 'a

locale mailbox =
  fixes inv :: "'q \<Rightarrow> bool"
    and contents :: "'q \<Rightarrow> 'v list"
    and dest :: "'v \<Rightarrow> 'a"
    and fits :: "'v \<Rightarrow> bool"
    and cap :: nat
    and send :: "'v \<Rightarrow> 'q \<Rightarrow> bool \<times> 'q"
    and recv :: "'a \<Rightarrow> 'q \<Rightarrow> 'v option \<times> 'q"
  assumes send_law: "inv q \<Longrightarrow> send v q = (b, q') \<Longrightarrow>
        inv q' \<and> contents q' = contents q @ (if b then [v] else []) \<and>
        (b \<longleftrightarrow> fits v \<and> length (contents q) < cap)"
    and recv_None: "inv q \<Longrightarrow> recv a q = (None, q') \<Longrightarrow>
        inv q' \<and> contents q' = contents q \<and> (\<forall>v \<in> set (contents q). dest v \<noteq> a)"
    and recv_Some: "inv q \<Longrightarrow> recv a q = (Some v, q') \<Longrightarrow>
        inv q' \<and> (\<exists>xs ys. contents q = xs @ v # ys \<and> dest v = a \<and>
          (\<forall>x \<in> set xs. dest x \<noteq> a) \<and> contents q' = xs @ ys)"
    and bounded: "inv q \<Longrightarrow> length (contents q) \<le> cap"
begin

abbreviation for_dest :: "'a \<Rightarrow> 'v list \<Rightarrow> 'v list" where
  "for_dest a vs \<equiv> filter (\<lambda>v. dest v = a) vs"

text \<open>A run of operations: the items accepted and the items taken, both in order.\<close>

fun run :: "('v, 'a) mail_op list \<Rightarrow> 'q \<Rightarrow> 'v list \<times> 'v list \<times> 'q" where
  "run [] q = ([], [], q)"
| "run (Put v # ops) q =
     (case send v q of (b, q') \<Rightarrow> case run ops q' of (acc, tak, q'') \<Rightarrow>
        (if b then v # acc else acc, tak, q''))"
| "run (Take a # ops) q =
     (case recv a q of (r, q') \<Rightarrow> case run ops q' of (acc, tak, q'') \<Rightarrow>
        (acc, (case r of None \<Rightarrow> tak | Some v \<Rightarrow> v # tak), q''))"

lemma recv_for_dest:
  assumes "inv q" "recv a q = (Some v, q')"
  shows "for_dest d (contents q) = for_dest d [v] @ for_dest d (contents q')"
proof -
  from recv_Some [OF assms] obtain xs ys where
    x: "contents q = xs @ v # ys" "dest v = a" "\<forall>x \<in> set xs. dest x \<noteq> a" "contents q' = xs @ ys"
    by blast
  from x(3) have "for_dest a xs = []" by simp
  with x show ?thesis by (cases "d = a") auto
qed

theorem run_fifo:
  "inv q \<Longrightarrow> run ops q = (acc, tak, q') \<Longrightarrow>
   inv q' \<and> (\<forall>a. for_dest a (contents q @ acc) = for_dest a tak @ for_dest a (contents q'))"
proof (induction ops arbitrary: q acc tak)
  case Nil
  then show ?case by simp
next
  case (Cons op ops)
  show ?case
  proof (cases op)
    case (Put v)
    obtain b q1 where s: "send v q = (b, q1)" by fastforce
    obtain acc1 where r: "run ops q1 = (acc1, tak, q')" "acc = (if b then v # acc1 else acc1)"
      using Cons.prems(2) Put s by (auto split: prod.splits)
    from send_law [OF Cons.prems(1) s] Cons.IH [OF _ r(1)] r(2) show ?thesis by (cases b) simp_all
  next
    case (Take a)
    obtain o1 q1 where s: "recv a q = (o1, q1)" by fastforce
    obtain tak1 where r: "run ops q1 = (acc, tak1, q')"
      "tak = (case o1 of None \<Rightarrow> tak1 | Some v \<Rightarrow> v # tak1)"
      using Cons.prems(2) Take s by (auto split: prod.splits)
    show ?thesis
    proof (cases o1)
      case None
      with recv_None [OF Cons.prems(1)] s r Cons.IH [OF _ r(1)] show ?thesis by simp
    next
      case (Some v)
      with recv_Some [OF Cons.prems(1)] s have "inv q1" by blast
      with Cons.IH [OF _ r(1)] have ih: "inv q'"
        "\<And>d. for_dest d (contents q1 @ acc) = for_dest d tak1 @ for_dest d (contents q')" by blast+
      have "for_dest d (contents q @ acc) = for_dest d [v] @ for_dest d (contents q1 @ acc)" for d
        using recv_for_dest [OF Cons.prems(1)] s Some by simp
      with ih Some r(2) show ?thesis by simp
    qed
  qed
qed

end

text \<open>The kernel's queue seen through the contract: a parcel is sent whole.\<close>

definition ipc_put :: "parcel \<Rightarrow> ipc_state \<Rightarrow> bool \<times> ipc_state" where
  "ipc_put p s =
     (case ipc_send_message (p_time p) s (p_from p) (p_dest p) (p_data p) (length (p_data p)) (p_flags p) of
        Inl e \<Rightarrow> (False, s) | Inr (r, s') \<Rightarrow> (r = 0, s'))"

definition ipc_take :: "u32 \<Rightarrow> ipc_state \<Rightarrow> parcel option \<times> ipc_state" where
  "ipc_take pid s =
     (case ipc_receive_message [] s pid True False of
        Inl e \<Rightarrow> (None, s) | Inr (r, m, s') \<Rightarrow> (map_option parcel_of m, s'))"

lemma send_total:
  assumes inv: "ipc_inv s"
  obtains r s' where
    "ipc_send_message (p_time p) s (p_from p) (p_dest p) (p_data p) (length (p_data p)) (p_flags p) = Inr (r, s')"
    "ipc_inv s'" "ipc_contents s' = ipc_contents s @ (if r = 0 then [p] else [])"
    "r = 0 \<longleftrightarrow> length (p_data p) \<le> MIRIX_IPC_MAX_DATA_SIZE \<and> length (ipc_contents s) < 254"
proof -
  have le: "q_count (message_queue s) \<le> 254" using ipc_invD(3,4) [OF inv] by (simp add: queue_ok_def)
  consider "q_count (message_queue s) = 254"
    | "q_count (message_queue s) < 254" "length (p_data p) \<le> MIRIX_IPC_MAX_DATA_SIZE"
    | "q_count (message_queue s) < 254" "MIRIX_IPC_MAX_DATA_SIZE < length (p_data p)"
    using le by linarith
  then show thesis
  proof cases
    case 1
    then show ?thesis using send_full [OF inv] inv by (intro that [of "- 1" s]) simp_all
  next
    case 2
    from send_stored [OF inv 2 order_refl] 2 show ?thesis
      by (smt (verit) length_ipc_contents parcel.collapse take_all_iff order_refl that)
  next
    case 3
    from send_too_large [OF inv 3] 3 show ?thesis
      by (smt (verit) append_Nil2 leD that)
  qed
qed

lemma take_total:
  assumes inv: "ipc_inv s"
  shows "(ipc_receive_message [] s pid True False = Inr (- 1, None, s) \<and>
          (\<forall>p \<in> set (ipc_contents s). p_dest p \<noteq> pid)) \<or>
         (\<exists>m s' xs ys. ipc_receive_message [] s pid True False = Inr (0, Some m, s') \<and> ipc_inv s' \<and>
            ipc_contents s = xs @ parcel_of m # ys \<and> p_dest (parcel_of m) = pid \<and>
            (\<forall>x \<in> set xs. p_dest x \<noteq> pid) \<and> ipc_contents s' = xs @ ys)"
proof (cases "\<exists>p \<in> set (ipc_contents s). p_dest p = pid")
  case False
  then show ?thesis using poll_empty [OF inv] ipc_invD(1) [OF inv]
    by (simp add: ipc_receive_message_def receive_loop.simps)
next
  case True
  from poll_found [OF inv True] obtain i m s' where
    p: "receive_poll s pid = Inr (Some m, s')" "ipc_inv s'" "i < length (ipc_contents s)"
    "parcel_of m = ipc_contents s ! i" "p_dest (ipc_contents s ! i) = pid"
    "\<forall>j < i. p_dest (ipc_contents s ! j) \<noteq> pid" "ipc_contents s' = remove_nth i (ipc_contents s)" .
  have "ipc_receive_message [] s pid True False = Inr (0, Some m, s')"
    using p(1) ipc_invD(1) [OF inv] by (simp add: ipc_receive_message_def receive_loop.simps)
  moreover have "ipc_contents s = take i (ipc_contents s) @ parcel_of m # drop (Suc i) (ipc_contents s)"
    using p(3,4) by (metis id_take_nth_drop)
  moreover have "\<forall>x \<in> set (take i (ipc_contents s)). p_dest x \<noteq> pid"
    using p(3,6) by (auto simp: in_set_conv_nth simp del: ipc_contents_nth) blast
  ultimately show ?thesis using p(2,4,5,7) unfolding remove_nth_def by metis
qed

interpretation ipcq: mailbox ipc_inv ipc_contents p_dest
  "\<lambda>p. length (p_data p) \<le> MIRIX_IPC_MAX_DATA_SIZE" 254 ipc_put ipc_take
proof
  fix q v b q'
  assume "ipc_inv q" "ipc_put v q = (b, q')"
  then show "ipc_inv q' \<and> ipc_contents q' = ipc_contents q @ (if b then [v] else []) \<and>
      (b \<longleftrightarrow> length (p_data v) \<le> MIRIX_IPC_MAX_DATA_SIZE \<and> length (ipc_contents q) < 254)"
    by (elim send_total [of q v]) (auto simp: ipc_put_def)
next
  fix q a q'
  assume "ipc_inv q" "ipc_take a q = (None, q')"
  then show "ipc_inv q' \<and> ipc_contents q' = ipc_contents q \<and> (\<forall>v \<in> set (ipc_contents q). p_dest v \<noteq> a)"
    using take_total [of q a] by (auto simp: ipc_take_def)
next
  fix q a v q'
  assume "ipc_inv q" "ipc_take a q = (Some v, q')"
  then show "ipc_inv q' \<and> (\<exists>xs ys. ipc_contents q = xs @ v # ys \<and> p_dest v = a \<and>
      (\<forall>x \<in> set xs. p_dest x \<noteq> a) \<and> ipc_contents q' = xs @ ys)"
    using take_total [of q a] by (auto simp: ipc_take_def) blast
next
  fix q
  assume "ipc_inv q"
  then show "length (ipc_contents q) \<le> 254" using ipc_invD(3,4) [of q] by (simp add: queue_ok_def)
qed


section \<open>Initialisation and release\<close>

lemma init_ok:
  assumes "\<not> ipc_initialized s" "length ms = 254" "\<forall>m \<in> set ms. slot_ok m"
  shows "\<exists>s'. ipc_system_init (Some ms) (Some 1) s = (0, s') \<and> ipc_inv s' \<and> ipc_contents s' = []"
  using assms
  by (simp add: ipc_system_init_def Let_def ipc_inv_def queue_ok_def sizeof_mirix_message_def
        ring_slice_def ipc_contents_def)

text \<open>A block of memory as \<^verbatim>\<open>malloc\<close> may hand it out, and the state it gives.\<close>

definition blank_message :: mirix_message where
  "blank_message = \<lparr>sender_pid = 0, receiver_pid = 0, timestamp = 0, msg_flags = 0, data_size = 0,
     data = replicate 4096 0\<rparr>"

definition ipc_fresh :: ipc_state where
  "ipc_fresh = snd (ipc_system_init (Some (replicate 254 blank_message)) (Some 1) ipc_state0)"

lemma ipc_fresh: "ipc_inv ipc_fresh" "ipc_contents ipc_fresh = []"
proof -
  have "\<not> ipc_initialized ipc_state0" "length (replicate 254 blank_message) = 254"
    "\<forall>m \<in> set (replicate 254 blank_message). slot_ok m"
    by (simp_all add: ipc_state0_def slot_ok_def blank_message_def MIRIX_IPC_MAX_DATA_SIZE_def)
  from init_ok [OF this] show "ipc_inv ipc_fresh" "ipc_contents ipc_fresh = []"
    by (auto simp: ipc_fresh_def)
qed

section \<open>Properties\<close>

text \<open>Any sequence of sends and non-blocking receives, as the processes of the kernel issue them:
  the parcels accepted, the parcels received and the final state.\<close>

fun ipc_run :: "(parcel, u32) mail_op list \<Rightarrow> ipc_state \<Rightarrow> (parcel list \<times> parcel list \<times> ipc_state) outcome" where
  "ipc_run [] s = Inr ([], [], s)"
| "ipc_run (Put p # ops) s =
     (case ipc_send_message (p_time p) s (p_from p) (p_dest p) (p_data p) (length (p_data p)) (p_flags p) of
        Inl e \<Rightarrow> Inl e
      | Inr (r, s') \<Rightarrow>
          (case ipc_run ops s' of Inl e \<Rightarrow> Inl e
           | Inr (acc, tak, s'') \<Rightarrow> Inr (if r = 0 then p # acc else acc, tak, s'')))"
| "ipc_run (Take pid # ops) s =
     (case ipc_receive_message [] s pid True False of
        Inl e \<Rightarrow> Inl e
      | Inr (r, m, s') \<Rightarrow>
          (case ipc_run ops s' of Inl e \<Rightarrow> Inl e
           | Inr (acc, tak, s'') \<Rightarrow>
               Inr (acc, (case m of None \<Rightarrow> tak | Some m \<Rightarrow> parcel_of m # tak), s'')))"

lemma ipc_run_refines: "ipc_inv s \<Longrightarrow> ipc_run ops s = Inr (ipcq.run ops s)"
proof (induction ops arbitrary: s)
  case Nil
  then show ?case by simp
next
  case (Cons op ops)
  show ?case
  proof (cases op)
    case (Put p)
    from send_total [OF Cons.prems] obtain r s' where
      "ipc_send_message (p_time p) s (p_from p) (p_dest p) (p_data p) (length (p_data p)) (p_flags p) = Inr (r, s')"
      "ipc_inv s'" .
    moreover from this(1) have "ipc_put p s = (r = 0, s')" by (simp add: ipc_put_def)
    ultimately show ?thesis using Cons.IH [of s'] Put by (simp split: prod.split)
  next
    case (Take pid)
    from take_total [OF Cons.prems, of pid] obtain r m s' where
      "ipc_receive_message [] s pid True False = Inr (r, m, s')" "ipc_inv s'"
      using Cons.prems by blast
    moreover from this(1) have "ipc_take pid s = (map_option parcel_of m, s')"
      by (simp add: ipc_take_def)
    ultimately show ?thesis using Cons.IH [of s'] Take by (simp split: prod.split option.split)
  qed
qed



text \<open>
  C34 (functional). \<open>ipc_send_message\<close> on every branch: before initialisation it fails; a full
  queue refuses the message and changes nothing; a message of more than 4096 bytes is refused and
  no queued message changes; every other message is appended with its header and its bytes.
\<close>

theorem ipc_send_message_cases:
  "(\<not> ipc_initialized s \<longrightarrow> ipc_send_message now s from dst buf n fl = Inr (- 1, s)) \<and>
   (ipc_inv s \<and> length (ipc_contents s) = 254 \<longrightarrow>
      ipc_send_message now s from dst buf n fl = Inr (- 1, s)) \<and>
   (ipc_inv s \<and> length (ipc_contents s) < 254 \<and> 4096 < n \<longrightarrow>
      (\<exists>s'. ipc_send_message now s from dst buf n fl = Inr (- 1, s') \<and> ipc_inv s' \<and>
        ipc_contents s' = ipc_contents s)) \<and>
   (ipc_inv s \<and> length (ipc_contents s) < 254 \<and> n \<le> 4096 \<and> n \<le> length buf \<longrightarrow>
      (\<exists>s'. ipc_send_message now s from dst buf n fl = Inr (0, s') \<and> ipc_inv s' \<and>
        ipc_contents s' = ipc_contents s @ [Parcel from dst now fl (take n buf)]))"
proof -
  have "\<not> ipc_initialized s \<Longrightarrow> ipc_send_message now s from dst buf n fl = Inr (- 1, s)"
    by (simp add: ipc_send_message_def)
  then show ?thesis using send_full send_too_large send_stored by (simp add: MIRIX_IPC_MAX_DATA_SIZE_def)
qed

theorem ipc_send_message_cases_witness:
  "ipc_send_message 5 ipc_state0 1 2 [9] 1 0 = Inr (- 1, ipc_state0) \<and>
   (\<exists>s'. ipc_send_message 5 ipc_fresh 1 2 [9, 8] 2 0 = Inr (0, s') \<and>
      ipc_contents s' = [Parcel 1 2 5 0 [9, 8]]) \<and>
   (\<exists>s'. ipc_send_message 5 ipc_fresh 1 2 [] 5000 0 = Inr (- 1, s') \<and> ipc_contents s' = [])"
  using ipc_send_message_cases [of ipc_state0 5 1 2 "[9]" 1 0]
    ipc_send_message_cases [of ipc_fresh 5 1 2 "[9, 8]" 2 0]
    ipc_send_message_cases [of ipc_fresh 5 1 2 "[]" 5000 0] ipc_fresh
  by (auto simp: ipc_state0_def)

lemma receive_loop_blocks:
  "ipc_inv s \<Longrightarrow> \<forall>e \<in> set env. \<forall>s. ipc_inv s \<longrightarrow> ipc_inv (e s) \<Longrightarrow>
   \<forall>n \<le> length env. \<forall>p \<in> set (ipc_contents (fold (\<lambda>e. e) (take n env) s)). p_dest p \<noteq> pid \<Longrightarrow>
   receive_loop env s pid True = Inl Blocked"
proof (induction env arbitrary: s)
  case Nil
  then show ?case using poll_empty [of s pid] by (simp add: receive_loop.simps)
next
  case (Cons e es)
  from Cons.prems(3) have "\<forall>p \<in> set (ipc_contents s). p_dest p \<noteq> pid"
    by (metis fold_simps(1) le0 take0)
  moreover have "receive_loop es (e s) pid True = Inl Blocked"
  proof (rule Cons.IH)
    show "ipc_inv (e s)" "\<forall>e \<in> set es. \<forall>s. ipc_inv s \<longrightarrow> ipc_inv (e s)" using Cons.prems(1,2) by simp_all
    show "\<forall>n \<le> length es. \<forall>p \<in> set (ipc_contents (fold (\<lambda>e. e) (take n es) (e s))). p_dest p \<noteq> pid"
      using Cons.prems(3) by (metis Suc_le_mono comp_apply fold_simps(2) length_Cons take_Suc_Cons)
  qed
  ultimately show ?case using poll_empty [OF Cons.prems(1)] by (simp add: receive_loop.simps [of "e # es"])
qed

lemma receive_loop_hit:
  assumes "ipc_inv s" "\<exists>p \<in> set (ipc_contents s). p_dest p = pid"
  shows "\<exists>m s'. receive_loop env s pid True = Inr (0, Some m, s') \<and> receiver_pid m = pid \<and>
     data_size m \<le> MIRIX_IPC_MAX_DATA_SIZE \<and> ipc_inv s'"
proof -
  from poll_found [OF assms] obtain i m s' where
    "receive_poll s pid = Inr (Some m, s')" "ipc_inv s'" "parcel_of m = ipc_contents s ! i"
    "data_size m \<le> MIRIX_IPC_MAX_DATA_SIZE" "p_dest (ipc_contents s ! i) = pid" .
  moreover from this(3,5) have "receiver_pid m = pid" by (metis parcel.sel(2) parcel_of_def)
  ultimately show ?thesis by (simp add: receive_loop.simps [of env])
qed

lemma receive_loop_returns:
  "ipc_inv s \<Longrightarrow> \<forall>e \<in> set env. \<forall>s. ipc_inv s \<longrightarrow> ipc_inv (e s) \<Longrightarrow> n \<le> length env \<Longrightarrow>
   \<exists>p \<in> set (ipc_contents (fold (\<lambda>e. e) (take n env) s)). p_dest p = pid \<Longrightarrow>
   \<exists>m s'. receive_loop env s pid True = Inr (0, Some m, s') \<and> receiver_pid m = pid \<and>
     data_size m \<le> MIRIX_IPC_MAX_DATA_SIZE \<and> ipc_inv s'"
proof (induction n arbitrary: s env)
  case 0
  then have "\<exists>p \<in> set (ipc_contents s). p_dest p = pid" by simp
  from receive_loop_hit [OF 0(1) this] show ?case .
next
  case (Suc n)
  then obtain e es where env: "env = e # es" by (cases env) auto
  show ?case
  proof (cases "\<exists>p \<in> set (ipc_contents s). p_dest p = pid")
    case True
    from receive_loop_hit [OF Suc.prems(1) this] show ?thesis .
  next
    case False
    then have "receive_loop env s pid True = receive_loop es (e s) pid True"
      using poll_empty [OF Suc.prems(1)] env by (simp add: receive_loop.simps [of "e # es"])
    moreover have "\<exists>m s'. receive_loop es (e s) pid True = Inr (0, Some m, s') \<and> receiver_pid m = pid \<and>
       data_size m \<le> MIRIX_IPC_MAX_DATA_SIZE \<and> ipc_inv s'"
      using Suc.prems env by (intro Suc.IH) simp_all
    ultimately show ?thesis by simp
  qed
qed


text \<open>
  C35 (liveness). A blocking receive, with other processes changing the queue between its polls:
  if a message for the caller is queued after some \<open>n\<close> of these changes, the call returns 0
  with a message for the caller; if none ever is, the call does not return.
\<close>

theorem ipc_receive_message_blocking:
  assumes "ipc_inv s" "\<forall>e \<in> set env. \<forall>s. ipc_inv s \<longrightarrow> ipc_inv (e s)"
  shows "if \<exists>n \<le> length env. \<exists>p \<in> set (ipc_contents (fold (\<lambda>e. e) (take n env) s)). p_dest p = pid
     then \<exists>m s'. ipc_receive_message env s pid True True = Inr (0, Some m, s') \<and>
            receiver_pid m = pid \<and> data_size m \<le> 4096 \<and> ipc_inv s'
     else ipc_receive_message env s pid True True = Inl Blocked"
  using assms receive_loop_returns [OF assms, of _ pid] receive_loop_blocks [OF assms, of pid]
  by (auto simp: ipc_receive_message_def ipc_invD(1) MIRIX_IPC_MAX_DATA_SIZE_def) blast

text \<open>Another process that sends one parcel.\<close>

lemma ipc_put_inv: "ipc_inv s \<Longrightarrow> ipc_inv (snd (ipc_put p s))"
  using ipcq.send_law by (metis prod.collapse)

theorem ipc_receive_message_blocking_witness:
  "(\<exists>m s'. ipc_receive_message [\<lambda>s. s, \<lambda>s. snd (ipc_put (Parcel 1 2 5 0 [9]) s)] ipc_fresh 2 True True
      = Inr (0, Some m, s') \<and> receiver_pid m = 2) \<and>
   ipc_receive_message [\<lambda>s. s] ipc_fresh 2 True True = Inl Blocked"
proof
  let ?p = "Parcel 1 2 5 0 [9]"
  let ?env = "[\<lambda>s. s, \<lambda>s. snd (ipc_put ?p s)]"
  have "ipc_contents (snd (ipc_put ?p ipc_fresh)) = [?p]"
    using ipcq.send_law [OF ipc_fresh(1), of ?p] ipc_fresh(2)
    by (cases "ipc_put ?p ipc_fresh") (simp add: MIRIX_IPC_MAX_DATA_SIZE_def)
  then have "\<exists>n \<le> length ?env. \<exists>p \<in> set (ipc_contents (fold (\<lambda>e. e) (take n ?env) ipc_fresh)). p_dest p = 2"
    by (intro exI [of _ 2]) simp
  with ipc_receive_message_blocking [OF ipc_fresh(1), of ?env 2] ipc_put_inv
  show "\<exists>m s'. ipc_receive_message ?env ipc_fresh 2 True True = Inr (0, Some m, s') \<and> receiver_pid m = 2"
    by auto
next
  have "fold (\<lambda>e. e) (take n [\<lambda>s. s]) ipc_fresh = ipc_fresh" for n by (cases n) simp_all
  with ipc_receive_message_blocking [OF ipc_fresh(1), of "[\<lambda>s. s]" 2] ipc_fresh(2)
  show "ipc_receive_message [\<lambda>s. s] ipc_fresh 2 True True = Inl Blocked" by simp
qed

text \<open>
  Releasing the queue is not idempotent: on an initialised queue the first call
  closes no descriptor and returns, and a second call closes the semaphore that is already closed.
  Before initialisation it closes descriptor 0, and after an initialisation that failed to open
  the semaphore it frees the shared memory a second time.
\<close>

theorem ipc_system_cleanup_not_idempotent:
  "(ipc_inv s \<longrightarrow> (\<exists>s'. ipc_system_cleanup s = Inr ([], s') \<and> \<not> ipc_initialized s' \<and>
       ipc_system_cleanup s' = Inl Use_After_Free)) \<and>
   (\<exists>s'. ipc_system_cleanup ipc_state0 = Inr ([0], s')) \<and>
   (\<exists>s'. ipc_system_init (Some ms) None ipc_state0 = (- 1, s') \<and> ipc_system_cleanup s' = Inl Double_Free)"
  by (simp add: ipc_system_cleanup_def ipc_inv_def ipc_state0_def ipc_system_init_def Let_def)

theorem ipc_system_cleanup_not_idempotent_witness:
  "\<exists>s'. ipc_system_cleanup ipc_fresh = Inr ([], s') \<and> ipc_system_cleanup s' = Inl Use_After_Free"
  using ipc_system_cleanup_not_idempotent [of ipc_fresh "[]"] ipc_fresh(1) by blast

end
