(* ===== verification/Syscall.thy ===== *)
theory Syscall
  imports Host Ipc
begin

text \<open>
  System calls (\<^verbatim>\<open>src/mirix/syscall/syscall.c\<close>) and their dispatch (\<^verbatim>\<open>mirix_syscall_handler\<close> in
  \<^verbatim>\<open>src/mirix/kernel.c\<close>). A call runs on the state of the kernel: the host interface, the message
  system, the table of registered handlers, and the host. Its answer is the result and the bytes
  that were written to the caller's buffer.
\<close>

section \<open>Call numbers and arguments\<close>

datatype mirix_syscall =
    MIRIX_SYSCALL_EXIT
  | MIRIX_SYSCALL_WRITE
  | MIRIX_SYSCALL_READ
  | MIRIX_SYSCALL_IPC_SEND
  | MIRIX_SYSCALL_IPC_RECV
  | MIRIX_SYSCALL_FORK
  | MIRIX_SYSCALL_EXEC
  | MIRIX_SYSCALL_WAIT
  | MIRIX_SYSCALL_TIMER_CREATE
  | MIRIX_SYSCALL_TIMER_DELETE

fun syscall_number :: "mirix_syscall \<Rightarrow> int" where
  "syscall_number MIRIX_SYSCALL_EXIT = 1"
| "syscall_number MIRIX_SYSCALL_WRITE = 2"
| "syscall_number MIRIX_SYSCALL_READ = 3"
| "syscall_number MIRIX_SYSCALL_IPC_SEND = 4"
| "syscall_number MIRIX_SYSCALL_IPC_RECV = 5"
| "syscall_number MIRIX_SYSCALL_FORK = 6"
| "syscall_number MIRIX_SYSCALL_EXEC = 7"
| "syscall_number MIRIX_SYSCALL_WAIT = 8"
| "syscall_number MIRIX_SYSCALL_TIMER_CREATE = 9"
| "syscall_number MIRIX_SYSCALL_TIMER_DELETE = 10"

text \<open>
  Argument blocks. A buffer to write from is its bytes; a buffer to read into is described by
  whether the pointer is set. \<^verbatim>\<open>None\<close> is the null pointer.
\<close>

record mirix_write_args =
  wa_buf :: "u8 list option"
  wa_count :: nat
  wa_fd :: int

record mirix_read_args =
  ra_buf :: bool
  ra_count :: nat
  ra_fd :: int

record mirix_ipc_args =
  ia_target_pid :: u32
  ia_msg :: "u8 list option"
  ia_msg_size :: nat
  ia_flags :: u32

text \<open>The \<^verbatim>\<open>void *\<close> that a caller passes: a number, or the address of an argument block.\<close>

datatype sys_args =
    Arg_Value int
  | Arg_Write "mirix_write_args option"
  | Arg_Read "mirix_read_args option"
  | Arg_Ipc "mirix_ipc_args option"

section \<open>State\<close>

record syscall_state =
  sc_initialized :: bool
  syscall_table :: "mirix_syscall option list"

definition syscall_state0 :: syscall_state where
  "syscall_state0 = \<lparr>sc_initialized = False, syscall_table = replicate 256 None\<rparr>"

record 'w sys =
  sys_host :: host_state
  sys_ipc :: ipc_state
  sys_calls :: syscall_state
  sys_world :: 'w

definition syscall_init :: "syscall_state \<Rightarrow> int \<times> syscall_state" where
  "syscall_init s =
     (if sc_initialized s then (0, s)
      else (0, s\<lparr>syscall_table := (replicate 256 None)
                   [1 := Some MIRIX_SYSCALL_EXIT, 2 := Some MIRIX_SYSCALL_WRITE,
                    3 := Some MIRIX_SYSCALL_READ, 4 := Some MIRIX_SYSCALL_IPC_SEND,
                    5 := Some MIRIX_SYSCALL_IPC_RECV, 6 := Some MIRIX_SYSCALL_FORK,
                    7 := Some MIRIX_SYSCALL_EXEC, 8 := Some MIRIX_SYSCALL_WAIT,
                    9 := Some MIRIX_SYSCALL_TIMER_CREATE, 10 := Some MIRIX_SYSCALL_TIMER_DELETE],
                 sc_initialized := True\<rparr>))"

definition syscall_cleanup :: "syscall_state \<Rightarrow> syscall_state" where
  "syscall_cleanup s = s\<lparr>sc_initialized := False\<rparr>"

section \<open>The calls\<close>

text \<open>\<^verbatim>\<open>(int)result\<close> of a 64 bit count.\<close>

definition int_of_ssize :: "int \<Rightarrow> int" where
  "int_of_ssize r = sint (word_of_int r :: u32)"

type_synonym answer = "int \<times> u8 list"

definition syscall_exit :: "int \<Rightarrow> 'w sys \<Rightarrow> (answer \<times> 'w sys) outcome" where
  "syscall_exit code s = Inl (Exits code)"

definition syscall_write ::
  "'w host_os \<Rightarrow> mirix_write_args option \<Rightarrow> 'w sys \<Rightarrow> (answer \<times> 'w sys) outcome" where
  "syscall_write os args s =
     (case args of
        None \<Rightarrow> Inr ((- 1, []), s)
      | Some a \<Rightarrow>
          (case wa_buf a of
             None \<Rightarrow> Inr ((- 1, []), s)
           | Some buf \<Rightarrow>
               if length buf < wa_count a then Inl Out_Of_Bounds
               else (case os_write os (wa_fd a) (take (wa_count a) buf) (sys_world s) of
                       (r, w) \<Rightarrow> Inr ((int_of_ssize r, []), s\<lparr>sys_world := w\<rparr>))))"

definition syscall_read ::
  "'w host_os \<Rightarrow> mirix_read_args option \<Rightarrow> 'w sys \<Rightarrow> (answer \<times> 'w sys) outcome" where
  "syscall_read os args s =
     (case args of
        None \<Rightarrow> Inr ((- 1, []), s)
      | Some a \<Rightarrow>
          if \<not> ra_buf a then Inr ((- 1, []), s)
          else (case os_read os (ra_fd a) (ra_count a) (sys_world s) of
                  (r, bs, w) \<Rightarrow> Inr ((int_of_ssize r, bs), s\<lparr>sys_world := w\<rparr>)))"

text \<open>A null message is an empty buffer for the copy in \<open>ipc_send_message\<close>.\<close>

definition syscall_ipc_send ::
  "'w host_os \<Rightarrow> mirix_ipc_args option \<Rightarrow> 'w sys \<Rightarrow> (answer \<times> 'w sys) outcome" where
  "syscall_ipc_send os args s =
     (case args of
        None \<Rightarrow> Inr ((- 1, []), s)
      | Some a \<Rightarrow>
          let now = (case os_clock os (sys_world s) of (sec, nsec) \<Rightarrow> get_current_timestamp sec nsec);
              buf = (case ia_msg a of None \<Rightarrow> [] | Some b \<Rightarrow> b) in
          (case ipc_send_message now (sys_ipc s) (os_getpid os (sys_world s)) (ia_target_pid a)
                  buf (ia_msg_size a) (ia_flags a) of
             Inl e \<Rightarrow> Inl e
           | Inr (r, q) \<Rightarrow> Inr ((r, []), s\<lparr>sys_ipc := q\<rparr>)))"

text \<open>\<open>env\<close> is what the other processes do to the message system while the receiver sleeps.\<close>

definition syscall_ipc_recv ::
  "'w host_os \<Rightarrow> (ipc_state \<Rightarrow> ipc_state) list \<Rightarrow> mirix_ipc_args option \<Rightarrow> 'w sys \<Rightarrow>
   (answer \<times> 'w sys) outcome" where
  "syscall_ipc_recv os env args s =
     (case args of
        None \<Rightarrow> Inr ((- 1, []), s)
      | Some a \<Rightarrow>
          (case ipc_receive_message env (sys_ipc s) (os_getpid os (sys_world s)) True True of
             Inl e \<Rightarrow> Inl e
           | Inr (r, None, q) \<Rightarrow> Inr ((r, []), s\<lparr>sys_ipc := q\<rparr>)
           | Inr (r, Some msg, q) \<Rightarrow>
               if r = 0 then
                 let copy_size = (if data_size msg < ia_msg_size a then data_size msg else ia_msg_size a) in
                 if ia_msg a = None \<and> copy_size \<noteq> 0 then Inl Null_Deref
                 else if length (data msg) < copy_size then Inl Out_Of_Bounds
                 else Inr ((int_of_ssize (int copy_size), take copy_size (data msg)), s\<lparr>sys_ipc := q\<rparr>)
               else Inr ((r, []), s\<lparr>sys_ipc := q\<rparr>)))"

definition syscall_fork :: "'w host_os \<Rightarrow> 'w sys \<Rightarrow> (answer \<times> 'w sys) outcome" where
  "syscall_fork os s =
     (case os_fork os (sys_world s) of
        (pid, w) \<Rightarrow> Inr ((if pid = 0 then 0 else if pid > 0 then pid else - 1, []), s\<lparr>sys_world := w\<rparr>))"

definition syscall_exec ::
  "'w host_os \<Rightarrow> string option \<Rightarrow> string list \<Rightarrow> 'w sys \<Rightarrow> (answer \<times> 'w sys) outcome" where
  "syscall_exec os path argv s =
     (case path of
        None \<Rightarrow> Inr ((- 1, []), s)
      | Some p \<Rightarrow>
          (case os_exec os p argv (sys_world s) of
             None \<Rightarrow> Inl (Execs p)
           | Some (r, w) \<Rightarrow> Inr ((r, []), s\<lparr>sys_world := w\<rparr>)))"

text \<open>The status is stored only when a process was found and the pointer is set.\<close>

definition syscall_wait ::
  "'w host_os \<Rightarrow> bool \<Rightarrow> 'w sys \<Rightarrow> ((int \<times> int option) \<times> 'w sys) outcome" where
  "syscall_wait os status s =
     (case os_wait os (sys_world s) of
        (pid, stat, w) \<Rightarrow>
          Inr ((pid, if pid > 0 \<and> status then Some stat else None), s\<lparr>sys_world := w\<rparr>))"

definition syscall_timer_create ::
  "'w host_os \<Rightarrow> u64 \<Rightarrow> bool \<Rightarrow> 'w sys \<Rightarrow> (answer \<times> 'w sys) outcome" where
  "syscall_timer_create os interval_ms periodic s =
     (case host_interface_create_timer os interval_ms periodic False (sys_host s) (sys_world s) of
        (r, w) \<Rightarrow> Inr ((r, []), s\<lparr>sys_world := w\<rparr>))"

definition syscall_timer_delete :: "'w host_os \<Rightarrow> int \<Rightarrow> 'w sys \<Rightarrow> (answer \<times> 'w sys) outcome" where
  "syscall_timer_delete os timer_fd s =
     Inr ((0, []), s\<lparr>sys_world := snd (os_close os timer_fd (sys_world s))\<rparr>)"

section \<open>Dispatch\<close>

text \<open>
  The dispatcher of the kernel. An argument of the wrong kind is read as another structure, an
  access that the language leaves undefined.
\<close>

definition mirix_syscall_handler ::
  "'w host_os \<Rightarrow> (ipc_state \<Rightarrow> ipc_state) list \<Rightarrow> int \<Rightarrow> sys_args \<Rightarrow> 'w sys \<Rightarrow>
   (answer \<times> 'w sys) outcome" where
  "mirix_syscall_handler os env syscall_num args s =
     (if syscall_num = 1 then
        (case args of Arg_Value n \<Rightarrow> syscall_exit n s | _ \<Rightarrow> Inl Out_Of_Bounds)
      else if syscall_num = 2 then
        (case args of Arg_Write a \<Rightarrow> syscall_write os a s | _ \<Rightarrow> Inl Out_Of_Bounds)
      else if syscall_num = 3 then
        (case args of Arg_Read a \<Rightarrow> syscall_read os a s | _ \<Rightarrow> Inl Out_Of_Bounds)
      else if syscall_num = 4 then
        (case args of Arg_Ipc a \<Rightarrow> syscall_ipc_send os a s | _ \<Rightarrow> Inl Out_Of_Bounds)
      else if syscall_num = 5 then
        (case args of Arg_Ipc a \<Rightarrow> syscall_ipc_recv os env a s | _ \<Rightarrow> Inl Out_Of_Bounds)
      else Inr ((- 1, []), s))"

text \<open>
  The handlers that \<open>syscall_init\<close> registers: each calls its system call; the C functions drop the result, which the model keeps. The
  handlers for exec and for timers ignore their argument.
\<close>

definition syscall_impl ::
  "'w host_os \<Rightarrow> (ipc_state \<Rightarrow> ipc_state) list \<Rightarrow> mirix_syscall \<Rightarrow> sys_args \<Rightarrow> 'w sys \<Rightarrow>
   (answer \<times> 'w sys) outcome" where
  "syscall_impl os env h args s =
     (case h of
        MIRIX_SYSCALL_EXIT \<Rightarrow> (case args of Arg_Value n \<Rightarrow> syscall_exit n s | _ \<Rightarrow> Inl Out_Of_Bounds)
      | MIRIX_SYSCALL_WRITE \<Rightarrow> (case args of Arg_Write a \<Rightarrow> syscall_write os a s | _ \<Rightarrow> Inl Out_Of_Bounds)
      | MIRIX_SYSCALL_READ \<Rightarrow> (case args of Arg_Read a \<Rightarrow> syscall_read os a s | _ \<Rightarrow> Inl Out_Of_Bounds)
      | MIRIX_SYSCALL_IPC_SEND \<Rightarrow> (case args of Arg_Ipc a \<Rightarrow> syscall_ipc_send os a s | _ \<Rightarrow> Inl Out_Of_Bounds)
      | MIRIX_SYSCALL_IPC_RECV \<Rightarrow> (case args of Arg_Ipc a \<Rightarrow> syscall_ipc_recv os env a s | _ \<Rightarrow> Inl Out_Of_Bounds)
      | MIRIX_SYSCALL_FORK \<Rightarrow> syscall_fork os s
      | MIRIX_SYSCALL_EXEC \<Rightarrow> syscall_exec os None [] s
      | MIRIX_SYSCALL_WAIT \<Rightarrow>
          (case syscall_wait os (args \<noteq> Arg_Value 0) s of
             Inl e \<Rightarrow> Inl e | Inr ((pid, st), s') \<Rightarrow> Inr ((pid, []), s'))
      | MIRIX_SYSCALL_TIMER_CREATE \<Rightarrow> syscall_timer_create os 0 False s
      | MIRIX_SYSCALL_TIMER_DELETE \<Rightarrow>
          (case args of Arg_Value fd \<Rightarrow> syscall_timer_delete os fd s | _ \<Rightarrow> Inl Out_Of_Bounds))"

section \<open>Delivery of messages between processes\<close>

lemma receive_poll_slot:
  assumes "receive_poll s pid = Inr (Some m, s')" "queue_ok (message_queue s)"
  shows "slot_ok m"
proof -
  from assms(1) obtain k where "k < length (messages (message_queue s))" "m = messages (message_queue s) ! k"
    by (auto simp: receive_poll_def Let_def split: sum.splits option.splits if_splits)
  with assms(2) show ?thesis by (auto simp: queue_ok_def)
qed

lemma int_of_ssize_small: "- (2 ^ 31) \<le> r \<Longrightarrow> r < 2 ^ 31 \<Longrightarrow> int_of_ssize r = r"
  unfolding int_of_ssize_def by (simp add: signed_of_int signed_take_bit_int_eq_self)

lemma recv_first:
  assumes "ipc_inv q" "ipc_contents q = ps @ [Parcel frm pid t fl bs]" "\<forall>p \<in> set ps. p_dest p \<noteq> pid"
  obtains m q' where "ipc_receive_message env q pid True True = Inr (0, Some m, q')" "ipc_inv q'"
    "ipc_contents q' = ps" "data_size m = length bs" "take (length bs) (data m) = bs"
    "length (data m) = MIRIX_IPC_MAX_DATA_SIZE" "length bs \<le> MIRIX_IPC_MAX_DATA_SIZE"
proof -
  have "\<exists>p \<in> set (ipc_contents q). p_dest p = pid" using assms(2) by auto
  from poll_found [OF assms(1) this] obtain i m q' where
    r: "receive_poll q pid = Inr (Some m, q')" "ipc_inv q'" "i < length (ipc_contents q)"
      "parcel_of m = ipc_contents q ! i" "data_size m \<le> MIRIX_IPC_MAX_DATA_SIZE"
      "p_dest (ipc_contents q ! i) = pid" "\<forall>j < i. p_dest (ipc_contents q ! j) \<noteq> pid"
      "ipc_contents q' = remove_nth i (ipc_contents q)" .
  have i: "i = length ps"
  proof (rule ccontr)
    assume "i \<noteq> length ps"
    then have "ipc_contents q ! i \<in> set ps" using r(3) unfolding assms(2) by (simp add: nth_append)
    with assms(3) r(6) show False by blast
  qed
  have slot: "length (data m) = MIRIX_IPC_MAX_DATA_SIZE"
    using receive_poll_slot [OF r(1)] ipc_invD(3) [OF assms(1)] by (simp add: slot_ok_def)
  have bs: "take (data_size m) (data m) = bs"
    using r(4) unfolding assms(2) i by (simp add: parcel_of_def)
  then have n: "data_size m = length bs" using slot r(5) by (metis length_take min.absorb2)
  have "ipc_receive_message env q pid True True = Inr (0, Some m, q')"
    using r(1) ipc_invD(1) [OF assms(1)] by (simp add: ipc_receive_message_def receive_loop.simps)
  moreover have "ipc_contents q' = ps" using r(8) unfolding assms(2) i by (simp add: remove_nth_def)
  ultimately show thesis using that r(2,5) n bs slot by metis
qed



section \<open>The dispatcher and the table of handlers\<close>

text \<open>
  The initialisation registers a handler for each of the ten calls, but the dispatcher does
  not use the table: it agrees with the registered handler on the first five calls and refuses
  the other five (fork, exec, wait and the two timer calls), changing nothing.
\<close>

theorem dispatcher_ignores_table:
  "syscall_table (snd (syscall_init syscall_state0)) ! nat (syscall_number h) = Some h \<and>
   mirix_syscall_handler os env (syscall_number h) args s =
     (if syscall_number h \<le> 5 then syscall_impl os env h args s else Inr ((- 1, []), s))"
  by (cases h) (simp_all add: syscall_init_def syscall_state0_def mirix_syscall_handler_def syscall_impl_def
      nth_list_update)

section \<open>Timers\<close>

text \<open>
  Deleting a timer closes the standard output of the kernel. Whatever timer is created, its
  identifier is 1, and deleting it by that identifier closes the host's descriptor 1; the timer
  itself stays registered.
\<close>

theorem timer_delete_closes_stdout:
  assumes "syscall_timer_create os ms periodic s = Inr ((r, []), s')" "r \<noteq> - 1"
  shows "r = 1 \<and> syscall_timer_delete os r s' =
    Inr ((0, []), s'\<lparr>sys_world := snd (os_close os 1 (sys_world s'))\<rparr>)"
  using assms
  by (auto simp: syscall_timer_create_def syscall_timer_delete_def host_interface_create_timer_def
      kevent_change_def split: prod.splits option.splits if_splits)

theorem timer_delete_closes_stdout_witness:
  "syscall_timer_create demo_os 50 True
      \<lparr>sys_host = \<lparr>kqueue_fd = 9, host_initialized = True\<rparr>, sys_ipc = ipc_fresh,
       sys_calls = syscall_state0, sys_world = demo_host0\<rparr> =
      Inr ((1, []), \<lparr>sys_host = \<lparr>kqueue_fd = 9, host_initialized = True\<rparr>, sys_ipc = ipc_fresh,
       sys_calls = syscall_state0, sys_world = demo_host0\<rparr>) \<and>
   syscall_timer_delete demo_os 1 \<lparr>sys_host = \<lparr>kqueue_fd = 9, host_initialized = True\<rparr>,
       sys_ipc = ipc_fresh, sys_calls = syscall_state0, sys_world = demo_host0\<rparr> =
      Inr ((0, []), \<lparr>sys_host = \<lparr>kqueue_fd = 9, host_initialized = True\<rparr>, sys_ipc = ipc_fresh,
       sys_calls = syscall_state0, sys_world = demo_host0\<lparr>dh_closed := [1]\<rparr>\<rparr>)"
proof -
  let ?s = "\<lparr>sys_host = \<lparr>kqueue_fd = 9, host_initialized = True\<rparr>, sys_ipc = ipc_fresh,
       sys_calls = syscall_state0, sys_world = demo_host0\<rparr>"
  have c: "syscall_timer_create demo_os 50 True ?s = Inr ((1, []), ?s)"
    by (simp add: syscall_timer_create_def host_interface_create_timer_def kevent_change_def demo_os_def)
  from timer_delete_closes_stdout [OF c] c show ?thesis
    by (simp add: demo_os_def demo_host0_def)
qed

end
