(* ===== verification/Posix.thy ===== *)
theory Posix
  imports Syscall
begin

text \<open>
  The POSIX layer (\<^verbatim>\<open>src/mirix/posix/posix.c\<close>): a table of 256 descriptors over the descriptors
  of the host, with open, close, read and write, and the wrappers for processes; and the parts of
  \<^verbatim>\<open>src/mirix/posix/sus_simple.c\<close> that compute or keep state: aligned allocation, the clock
  resolution and the table of timers. The build for a Unix host is modelled. The mutex around the
  table is left out: the operations are atomic here. The table of signal handlers is only cleared.
\<close>

section \<open>State\<close>

datatype errno_code = ENOSYS | EMFILE | EBADF | EINVAL | ENOMEM | Host_Error int

record mirix_file_entry =
  fe_fd :: int
  fe_flags :: u32
  fe_mode :: u32
  fe_in_use :: bool

text \<open>\<open>px_errno\<close> is the last error the layer itself set; the host's errors stay the host's.\<close>

record 'w posix =
  px_initialized :: bool
  file_table :: "mirix_file_entry list"
  px_errno :: "errno_code option"
  px_sys :: "'w sys"

abbreviation (input) px_world :: "'w posix \<Rightarrow> 'w" where "px_world s \<equiv> sys_world (px_sys s)"

definition set_world :: "'w \<Rightarrow> 'w posix \<Rightarrow> 'w posix" where
  "set_world w s = s\<lparr>px_sys := (px_sys s)\<lparr>sys_world := w\<rparr>\<rparr>"

definition fail :: "errno_code \<Rightarrow> 'w posix \<Rightarrow> int \<times> 'w posix" where
  "fail e s = (- 1, s\<lparr>px_errno := Some e\<rparr>)"

definition posix_init :: "'w posix \<Rightarrow> int \<times> 'w posix" where
  "posix_init s =
     (if px_initialized s then (0, s)
      else (0, s\<lparr>file_table := replicate 256 \<lparr>fe_fd = - 1, fe_flags = 0, fe_mode = 0, fe_in_use = False\<rparr>,
                 px_initialized := True\<rparr>))"

definition posix_cleanup :: "'w posix \<Rightarrow> 'w posix" where
  "posix_cleanup s = (if \<not> px_initialized s then s else s\<lparr>px_initialized := False\<rparr>)"

section \<open>The file table\<close>

text \<open>The loop of \<open>posix_open\<close> over the slots, from slot 0.\<close>

definition file_alloc ::
  "int \<times> u32 \<times> u32 \<Rightarrow> mirix_file_entry list \<Rightarrow> (nat \<times> mirix_file_entry list) option" where
  "file_alloc c t =
     (case first_idx (\<lambda>e. \<not> fe_in_use e) t of
        None \<Rightarrow> None
      | Some i \<Rightarrow> Some (i, t[i := \<lparr>fe_fd = fst c, fe_flags = fst (snd c), fe_mode = snd (snd c), fe_in_use = True\<rparr>]))"

definition file_release :: "nat \<Rightarrow> mirix_file_entry list \<Rightarrow> mirix_file_entry list" where
  "file_release i t = t[i := (t ! i)\<lparr>fe_in_use := False, fe_fd := - 1\<rparr>]"

text \<open>The search that starts behind the three standard descriptors; no function calls it.\<close>

definition find_free_fd_slot :: "mirix_file_entry list \<Rightarrow> int \<times> mirix_file_entry list" where
  "find_free_fd_slot t =
     (case first_idx (\<lambda>e. \<not> fe_in_use e) (drop 3 t) of
        None \<Rightarrow> (- 1, t)
      | Some i \<Rightarrow> (int (i + 3), t[i + 3 := (t ! (i + 3))\<lparr>fe_in_use := True\<rparr>]))"

interpretation files: slot_table "\<lambda>e. \<not> fe_in_use e" "\<lambda>c. True" file_alloc file_release
proof unfold_locales
  fix c t i t' assume "file_alloc c t = Some (i, t')"
  then show "i < length t \<and> \<not> fe_in_use (t ! i) \<and> (\<forall>j < i. \<not> \<not> fe_in_use (t ! j)) \<and>
      \<not> \<not> fe_in_use (t' ! i) \<and> (\<exists>v. t' = t[i := v])"
    by (auto simp: file_alloc_def first_idx_Some_iff split: option.splits)
next
  fix c t show "file_alloc c t = None \<longleftrightarrow> (\<forall>x \<in> set t. \<not> \<not> fe_in_use x)"
    by (auto simp: file_alloc_def split: option.splits dest!: first_idx_SomeD)
next
  fix i and t :: "mirix_file_entry list" assume "i < length t"
  then show "\<not> fe_in_use (file_release i t ! i)" "\<exists>v. file_release i t = t[i := v]"
    by (auto simp: file_release_def)
qed

section \<open>File operations\<close>

text \<open>The mode argument is read only with \<^verbatim>\<open>O_CREAT\<close> (\<^verbatim>\<open>0x200\<close> on the hosts with an event queue).\<close>

definition posix_open ::
  "'w host_os \<Rightarrow> string \<Rightarrow> u32 \<Rightarrow> u32 \<Rightarrow> 'w posix \<Rightarrow> int \<times> 'w posix" where
  "posix_open os pathname flags vararg s =
     (if \<not> px_initialized s then fail ENOSYS s
      else
        let mode = (if flags AND 0x200 \<noteq> 0 then vararg else 0) in
        (case os_open os pathname flags mode (px_world s) of
           (fd, w) \<Rightarrow>
             let s = set_world w s in
             if fd = - 1 then (- 1, s)
             else (case file_alloc (fd, flags, mode) (file_table s) of
                     Some (i, t) \<Rightarrow> (int i, s\<lparr>file_table := t\<rparr>)
                   | None \<Rightarrow> fail EMFILE s)))"

definition bad_fd :: "int \<Rightarrow> 'w posix \<Rightarrow> bool" where
  "bad_fd fd s \<longleftrightarrow> fd < 0 \<or> fd \<ge> 256 \<or> \<not> fe_in_use (file_table s ! nat fd)"

definition posix_close :: "'w host_os \<Rightarrow> int \<Rightarrow> 'w posix \<Rightarrow> int \<times> 'w posix" where
  "posix_close os fd s =
     (if \<not> px_initialized s then fail ENOSYS s
      else if bad_fd fd s then fail EBADF s
      else
        (case os_close os (fe_fd (file_table s ! nat fd)) (px_world s) of
           (r, w) \<Rightarrow>
             let s = set_world w s in
             (r, if r = 0 then s\<lparr>file_table := file_release (nat fd) (file_table s)\<rparr> else s)))"

definition posix_read ::
  "'w host_os \<Rightarrow> int \<Rightarrow> bool \<Rightarrow> nat \<Rightarrow> 'w posix \<Rightarrow> (answer \<times> 'w posix) outcome" where
  "posix_read os fd buf count s =
     (if \<not> px_initialized s then (case fail ENOSYS s of (r, s') \<Rightarrow> Inr ((r, []), s'))
      else if bad_fd fd s then (case fail EBADF s of (r, s') \<Rightarrow> Inr ((r, []), s'))
      else
        (case syscall_read os (Some \<lparr>ra_buf = buf, ra_count = count, ra_fd = fe_fd (file_table s ! nat fd)\<rparr>)
                (px_sys s) of
           Inl e \<Rightarrow> Inl e
         | Inr (a, y) \<Rightarrow> Inr (a, s\<lparr>px_sys := y\<rparr>)))"

definition posix_write ::
  "'w host_os \<Rightarrow> int \<Rightarrow> u8 list option \<Rightarrow> nat \<Rightarrow> 'w posix \<Rightarrow> (answer \<times> 'w posix) outcome" where
  "posix_write os fd buf count s =
     (if \<not> px_initialized s then (case fail ENOSYS s of (r, s') \<Rightarrow> Inr ((r, []), s'))
      else if bad_fd fd s then (case fail EBADF s of (r, s') \<Rightarrow> Inr ((r, []), s'))
      else
        (case syscall_write os (Some \<lparr>wa_buf = buf, wa_count = count, wa_fd = fe_fd (file_table s ! nat fd)\<rparr>)
                (px_sys s) of
           Inl e \<Rightarrow> Inl e
         | Inr (a, y) \<Rightarrow> Inr (a, s\<lparr>px_sys := y\<rparr>)))"

section \<open>Processes\<close>

definition posix_fork :: "'w host_os \<Rightarrow> 'w posix \<Rightarrow> (int \<times> 'w posix) outcome" where
  "posix_fork os s =
     (if \<not> px_initialized s then Inr (fail ENOSYS s)
      else (case syscall_fork os (px_sys s) of
              Inl e \<Rightarrow> Inl e | Inr ((r, _), y) \<Rightarrow> Inr (r, s\<lparr>px_sys := y\<rparr>)))"

text \<open>The environment argument is not passed on.\<close>

definition posix_execve ::
  "'w host_os \<Rightarrow> string option \<Rightarrow> string list \<Rightarrow> string list \<Rightarrow> 'w posix \<Rightarrow> (int \<times> 'w posix) outcome" where
  "posix_execve os pathname argv envp s =
     (if \<not> px_initialized s then Inr (fail ENOSYS s)
      else (case syscall_exec os pathname argv (px_sys s) of
              Inl e \<Rightarrow> Inl e | Inr ((r, _), y) \<Rightarrow> Inr (r, s\<lparr>px_sys := y\<rparr>)))"

definition posix_waitpid :: "'w host_os \<Rightarrow> int \<Rightarrow> int \<Rightarrow> 'w posix \<Rightarrow> int \<times> 'w posix" where
  "posix_waitpid os pid options s =
     (if \<not> px_initialized s then fail ENOSYS s
      else (uint (os_getpid os (px_world s)), s))"

section \<open>Aligned allocation, clocks and timers\<close>

text \<open>
  \<open>memalign\<close> is the host's \<^verbatim>\<open>posix_memalign\<close>: its error number, 0 for success. The block it makes is
  dropped: the function answers only whether the allocation succeeded.
\<close>

definition mirix_posix_memalign ::
  "(u64 \<Rightarrow> u64 \<Rightarrow> int) \<Rightarrow> u64 \<Rightarrow> u64 \<Rightarrow> int \<times> errno_code option" where
  "mirix_posix_memalign memalign alignment sz =
     (let alignment = (if alignment < 8 then 8 else alignment) in
      if alignment AND (alignment - 1) \<noteq> 0 then (- 1, Some EINVAL)
      else let result = memalign alignment sz in
        if result = 0 then (0, None) else (- 1, Some (Host_Error result)))"

datatype clockid = CLOCK_REALTIME | CLOCK_MONOTONIC | CLOCK_OTHER int

definition clock_getres :: "clockid \<Rightarrow> bool \<Rightarrow> int \<times> (int \<times> int) option \<times> errno_code option" where
  "clock_getres clock_id res =
     (if \<not> res then (- 1, None, Some EINVAL)
      else (case clock_id of
              CLOCK_REALTIME \<Rightarrow> (0, Some (0, 1000000), None)
            | CLOCK_MONOTONIC \<Rightarrow> (0, Some (0, 1000000), None)
            | CLOCK_OTHER _ \<Rightarrow> (- 1, None, Some EINVAL)))"

record sus_timers =
  timer_table :: "int list"
  timer_count :: nat

definition sus_timers0 :: sus_timers where
  "sus_timers0 = \<lparr>timer_table = replicate 64 0, timer_count = 0\<rparr>"

definition timer_create :: "bool \<Rightarrow> sus_timers \<Rightarrow> (int \<times> int option \<times> errno_code option) \<times> sus_timers" where
  "timer_create timerid s =
     (if \<not> timerid \<or> timer_count s \<ge> 64 then ((- 1, None, Some ENOMEM), s)
      else let i = timer_count s in
        ((0, Some (int i), None),
         s\<lparr>timer_table := (timer_table s)[i := int i + 1], timer_count := timer_count s + 1\<rparr>))"

text \<open>The guard of the operations on a timer: a negative identifier is an index outside the table.\<close>

definition timer_unknown :: "int \<Rightarrow> sus_timers \<Rightarrow> bool outcome" where
  "timer_unknown timerid s =
     (if timerid \<ge> 64 then Inr True
      else if timerid < 0 then Inl Out_Of_Bounds
      else Inr (timer_table s ! nat timerid = 0))"

definition timer_delete :: "int \<Rightarrow> sus_timers \<Rightarrow> ((int \<times> errno_code option) \<times> sus_timers) outcome" where
  "timer_delete timerid s =
     (case timer_unknown timerid s of
        Inl e \<Rightarrow> Inl e
      | Inr u \<Rightarrow> if u then Inr ((- 1, Some EINVAL), s)
          else Inr ((0, None), s\<lparr>timer_table := (timer_table s)[nat timerid := 0]\<rparr>))"

text \<open>The value of a timer is the host's clock, when the host has one.\<close>

definition timer_gettime ::
  "(int \<times> int) option \<Rightarrow> int \<Rightarrow> bool \<Rightarrow> sus_timers \<Rightarrow> (int \<times> (int \<times> int \<times> int \<times> int) option \<times> errno_code option) outcome" where
  "timer_gettime clock timerid value s =
     (case timer_unknown timerid s of
        Inl e \<Rightarrow> Inl e
      | Inr u \<Rightarrow> if u \<or> \<not> value then Inr (- 1, None, Some EINVAL)
          else (case clock of
                  Some (sec, nsec) \<Rightarrow> Inr (0, Some (0, 0, sec, nsec), None)
                | None \<Rightarrow> Inr (- 1, None, None)))"

definition timer_getoverrun :: "int \<Rightarrow> sus_timers \<Rightarrow> (int \<times> errno_code option) outcome" where
  "timer_getoverrun timerid s =
     (case timer_unknown timerid s of
        Inl e \<Rightarrow> Inl e | Inr u \<Rightarrow> Inr (if u then (- 1, Some EINVAL) else (0, None)))"

definition timer_settime :: "int \<Rightarrow> bool \<Rightarrow> sus_timers \<Rightarrow> (int \<times> errno_code option) outcome" where
  "timer_settime timerid value s =
     (case timer_unknown timerid s of
        Inl e \<Rightarrow> Inl e | Inr u \<Rightarrow> Inr (if u \<or> \<not> value then (- 1, Some EINVAL) else (0, None)))"

section \<open>The test for powers of two\<close>

lemma and_pred_eq:
  assumes "bit x k" "\<forall>j < k. \<not> bit x j" "k < LENGTH('a)"
  shows "(x :: 'a::len word) AND (x - 1) = x AND NOT (mask (Suc k))"
    "x = (x AND NOT (mask (Suc k))) OR 2 ^ k"
proof -
  let ?y = "x AND NOT (mask (Suc k))"
  show x: "x = ?y OR 2 ^ k"
    by (rule bit_eqI) (use assms in \<open>auto simp: bit_simps less_Suc_eq\<close>)
  have "?y AND 2 ^ k = 0" by (rule bit_eqI) (auto simp: bit_simps)
  then have "x = ?y + 2 ^ k" by (metis x disjunctive_add_eq_or)
  then have "x - 1 = ?y + mask k" by (simp add: mask_eq_exp_minus_1)
  moreover have "?y AND mask k = 0" by (rule bit_eqI) (auto simp: bit_simps)
  ultimately have "x - 1 = ?y OR mask k" by (metis disjunctive_add_eq_or)
  then show "x AND (x - 1) = ?y"
    by (simp only:) (rule bit_eqI, use assms in \<open>auto simp: bit_simps\<close>)
qed

lemma power_of_two_test: "x \<noteq> 0 \<Longrightarrow> (x :: 'a::len word) AND (x - 1) = 0 \<longleftrightarrow> (\<exists>k < LENGTH('a). x = 2 ^ k)"
proof
  assume "x \<noteq> 0"
  then obtain n where "bit x n" by (metis bit_0_eq bit_eq_iff bot_apply bot_bool_def)
  define k where "k = (LEAST n. bit x n)"
  have b: "bit x k" unfolding k_def using \<open>bit x n\<close> by (rule LeastI)
  have l: "\<forall>j < k. \<not> bit x j" unfolding k_def using not_less_Least by blast
  note k = b l bit_imp_le_length [OF b]
  assume "x AND (x - 1) = 0"
  with and_pred_eq [OF k] have "x = 2 ^ k" by simp
  with k(3) show "\<exists>k < LENGTH('a). x = 2 ^ k" by blast
next
  assume "\<exists>k < LENGTH('a). x = 2 ^ k"
  then obtain k where k: "k < LENGTH('a)" "x = 2 ^ k" by blast
  then have "x - 1 = mask k" by (simp add: mask_eq_exp_minus_1)
  with k show "x AND (x - 1) = 0" by (simp only:) (rule bit_eqI, auto simp: bit_simps)
qed

text \<open>
  C39: An aligned allocation is refused as invalid exactly when the alignment, raised to the size
  of a pointer, is not a power of two; otherwise the host is asked and its answer is passed on.
\<close>

theorem mirix_posix_memalign_spec:
  "mirix_posix_memalign memalign a sz =
     (if a < 8 \<or> (\<exists>k < 64. a = 2 ^ k)
      then (if memalign (max 8 a) sz = 0 then (0, None)
            else (- 1, Some (Host_Error (memalign (max 8 a) sz))))
      else (- 1, Some EINVAL))"
proof -
  have m: "(if a < 8 then 8 else a) = max 8 a" by (simp add: max_absorb1 max_absorb2 not_less less_imp_le)
  define P where "P \<longleftrightarrow> a < 8 \<or> (\<exists>k < 64. a = 2 ^ k)"
  have "max 8 a AND (max 8 a - 1) = 0 \<longleftrightarrow> P"
  proof (cases "a < 8")
    case True
    then have "max 8 a = 8" by simp
    with True show ?thesis by (simp add: P_def)
  next
    case False
    then have "max 8 a = a" "a \<noteq> 0" by (auto simp: max_def)
    with power_of_two_test [of a] False show ?thesis by (simp add: P_def)
  qed
  then show ?thesis unfolding mirix_posix_memalign_def Let_def m P_def [symmetric] by simp
qed

end
