(* ===== verification/PosixFiles.thy ===== *)
theory PosixFiles
  imports Posix
begin

text \<open>
  Sequences of file operations of the POSIX layer on a host whose descriptors behave as
  documented: what the table of the layer promises about the descriptors of the host, and where
  a descriptor of the host is lost.
\<close>

section \<open>The contract of the host\<close>

text \<open>
  \<open>hopen w\<close> are the descriptors that are open in the host. An open that succeeds gives one that
  was not open; a close that succeeds removes it, one that fails changes nothing; reading and
  writing leave the set alone.
\<close>

definition host_files_ok :: "'w host_os \<Rightarrow> ('w \<Rightarrow> int set) \<Rightarrow> bool" where
  "host_files_ok os hopen \<longleftrightarrow>
     (\<forall>p f m w fd w'. os_open os p f m w = (fd, w') \<longrightarrow>
        (if fd = - 1 then hopen w' = hopen w
         else fd \<ge> 0 \<and> fd \<notin> hopen w \<and> hopen w' = insert fd (hopen w))) \<and>
     (\<forall>fd w r w'. os_close os fd w = (r, w') \<longrightarrow>
        hopen w' = (if r = 0 then hopen w - {fd} else hopen w)) \<and>
     (\<forall>fd n w r bs w'. os_read os fd n w = (r, bs, w') \<longrightarrow> hopen w' = hopen w) \<and>
     (\<forall>fd bs w r w'. os_write os fd bs w = (r, w') \<longrightarrow> hopen w' = hopen w)"

lemma host_open:
  "host_files_ok os hopen \<Longrightarrow> os_open os p f m w = (fd, w') \<Longrightarrow>
   if fd = - 1 then hopen w' = hopen w else fd \<ge> 0 \<and> fd \<notin> hopen w \<and> hopen w' = insert fd (hopen w)"
  unfolding host_files_ok_def by (elim conjE) metis

lemma host_close:
  "host_files_ok os hopen \<Longrightarrow> os_close os fd w = (r, w') \<Longrightarrow>
   hopen w' = (if r = 0 then hopen w - {fd} else hopen w)"
  unfolding host_files_ok_def by (elim conjE) metis

lemma host_rw:
  "host_files_ok os hopen \<Longrightarrow> os_read os fd n w = (r, bs, w') \<Longrightarrow> hopen w' = hopen w"
  "host_files_ok os hopen \<Longrightarrow> os_write os fd cs w = (r', w'') \<Longrightarrow> hopen w'' = hopen w"
  unfolding host_files_ok_def by blast+

section \<open>Sequences of operations\<close>

datatype file_op = F_Open string u32 u32 | F_Close int | F_Read int nat | F_Write int "u8 list"

definition file_do :: "'w host_os \<Rightarrow> file_op \<Rightarrow> 'w posix \<Rightarrow> (int \<times> 'w posix) outcome" where
  "file_do os c s =
     (case c of
        F_Open p f m \<Rightarrow> Inr (posix_open os p f m s)
      | F_Close fd \<Rightarrow> Inr (posix_close os fd s)
      | F_Read fd n \<Rightarrow> (case posix_read os fd True n s of Inl e \<Rightarrow> Inl e | Inr ((r, _), s') \<Rightarrow> Inr (r, s'))
      | F_Write fd bs \<Rightarrow>
          (case posix_write os fd (Some bs) (length bs) s of Inl e \<Rightarrow> Inl e | Inr ((r, _), s') \<Rightarrow> Inr (r, s')))"

fun file_run :: "'w host_os \<Rightarrow> file_op list \<Rightarrow> 'w posix \<Rightarrow> (int list \<times> 'w posix) outcome" where
  "file_run os [] s = Inr ([], s)"
| "file_run os (c # cs) s =
     (case file_do os c s of
        Inl e \<Rightarrow> Inl e
      | Inr (r, s') \<Rightarrow>
          (case file_run os cs s' of Inl e \<Rightarrow> Inl e | Inr (rs, s'') \<Rightarrow> Inr (r # rs, s'')))"

section \<open>Invariant\<close>

definition in_use :: "mirix_file_entry list \<Rightarrow> nat set" where
  "in_use t = {i. i < length t \<and> fe_in_use (t ! i)}"

text \<open>
  The table has 256 slots, the slots in use name different descriptors of the host, and each of
  them is open in the host.
\<close>

definition files_ok :: "('w \<Rightarrow> int set) \<Rightarrow> 'w posix \<Rightarrow> bool" where
  "files_ok hopen s \<longleftrightarrow> length (file_table s) = 256 \<and>
     inj_on (\<lambda>i. fe_fd (file_table s ! i)) (in_use (file_table s)) \<and>
     (\<lambda>i. fe_fd (file_table s ! i)) ` in_use (file_table s) \<subseteq> hopen (px_world s)"

lemma files_ok_world:
  "files_ok hopen s \<Longrightarrow> hopen (sys_world y) = hopen (px_world s) \<Longrightarrow> files_ok hopen (s\<lparr>px_sys := y\<rparr>)"
  by (simp add: files_ok_def)

lemma files_ok_errno [simp]: "files_ok hopen (s\<lparr>px_errno := e\<rparr>) = files_ok hopen s"
  by (simp add: files_ok_def)

lemma set_world_simps [simp]:
  "file_table (set_world w s) = file_table s" "px_world (set_world w s) = w"
  "px_initialized (set_world w s) = px_initialized s" "px_errno (set_world w s) = px_errno s"
  by (simp_all add: set_world_def)

lemma in_use_set:
  "i < length t \<Longrightarrow> fe_in_use e \<Longrightarrow> in_use (t[i := e]) = insert i (in_use t)"
  "i < length t \<Longrightarrow> \<not> fe_in_use e \<Longrightarrow> in_use (t[i := e]) = in_use t - {i}"
  by (auto simp: in_use_def nth_list_update split: if_splits)

lemma posix_open_ok:
  assumes "host_files_ok os hopen" "files_ok hopen s" "posix_open os p f m s = (r, s')"
  shows "files_ok hopen s' \<and> hopen (px_world s) \<subseteq> hopen (px_world s')"
proof (cases "px_initialized s")
  case False
  with assms(2,3) show ?thesis by (auto simp: posix_open_def fail_def)
next
  case True
  let ?mode = "if f AND 0x200 \<noteq> 0 then m else 0"
  obtain fd w where o: "os_open os p f ?mode (px_world s) = (fd, w)" by fastforce
  have h: "if fd = - 1 then hopen w = hopen (px_world s)
      else fd \<ge> 0 \<and> fd \<notin> hopen (px_world s) \<and> hopen w = insert fd (hopen (px_world s))"
    by (rule host_open [OF assms(1) o])
  have base: "files_ok hopen (set_world w s)" "hopen (px_world s) \<subseteq> hopen w"
    using assms(2) h by (auto simp: files_ok_def split: if_splits)
  show ?thesis
  proof (cases "fd = - 1 \<or> file_alloc (fd, f, ?mode) (file_table s) = None")
    case True
    with \<open>px_initialized s\<close> assms(3) o base show ?thesis
      by (auto simp: posix_open_def fail_def Let_def split: if_splits)
  next
    case False
    then obtain i t where a: "file_alloc (fd, f, ?mode) (file_table s) = Some (i, t)" by fastforce
    have s': "s' = (set_world w s)\<lparr>file_table := t\<rparr>"
      using False \<open>px_initialized s\<close> assms(3) o a by (auto simp: posix_open_def Let_def split: if_splits)
    have i: "i < length (file_table s)" and t: "t = (file_table s)[i := \<lparr>fe_fd = fd, fe_flags = f,
        fe_mode = ?mode, fe_in_use = True\<rparr>]"
      using a by (auto simp: file_alloc_def split: option.splits dest: first_idx_less)
    have u: "in_use t = insert i (in_use (file_table s))" unfolding t using i by (simp add: in_use_set)
    have fi: "i \<notin> in_use (file_table s)"
      using files.alloc_Some [OF _ a] by (simp add: in_use_def)
    have "fd \<notin> (\<lambda>i. fe_fd (file_table s ! i)) ` in_use (file_table s)"
      using h False assms(2) by (auto simp: files_ok_def)
    moreover have "\<forall>j \<in> in_use (file_table s). fe_fd (t ! j) = fe_fd (file_table s ! j)"
      using fi unfolding t by (metis nth_list_update_neq)
    moreover have "fe_fd (t ! i) = fd" using i unfolding t by simp
    ultimately have "inj_on (\<lambda>i. fe_fd (t ! i)) (in_use t)"
      "(\<lambda>i. fe_fd (t ! i)) ` in_use t = insert fd ((\<lambda>i. fe_fd (file_table s ! i)) ` in_use (file_table s))"
      using assms(2) fi unfolding u files_ok_def by (auto simp: inj_on_def image_def)
    then show ?thesis
      using assms(2) h False base(2) unfolding s' by (auto simp: files_ok_def t)
  qed
qed

lemma posix_close_ok:
  assumes "host_files_ok os hopen" "files_ok hopen s" "posix_close os fd s = (r, s')"
  shows "files_ok hopen s'"
proof (cases "px_initialized s \<and> \<not> bad_fd fd s")
  case False
  with assms(2,3) show ?thesis by (auto simp: posix_close_def fail_def split: if_splits)
next
  case True
  let ?i = "nat fd" and ?h = "fe_fd (file_table s ! nat fd)"
  obtain r' w where c: "os_close os ?h (px_world s) = (r', w)" by fastforce
  have h: "hopen w = (if r' = 0 then hopen (px_world s) - {?h} else hopen (px_world s))"
    by (rule host_close [OF assms(1) c])
  have i: "?i < length (file_table s)" "?i \<in> in_use (file_table s)"
    using True assms(2) by (auto simp: bad_fd_def files_ok_def in_use_def)
  have s': "s' = (if r' = 0 then (set_world w s)\<lparr>file_table := file_release ?i (file_table s)\<rparr> else set_world w s)"
    using True assms(3) c by (auto simp: posix_close_def Let_def)
  show ?thesis
  proof (cases "r' = 0")
    case False
    with s' h assms(2) show ?thesis by (simp add: files_ok_def)
  next
    case True
    let ?t = "file_release ?i (file_table s)"
    have u: "in_use ?t = in_use (file_table s) - {?i}"
      unfolding file_release_def using i(1) by (simp add: in_use_set)
    have e: "\<forall>j \<in> in_use ?t. fe_fd (?t ! j) = fe_fd (file_table s ! j)"
      unfolding u by (simp add: file_release_def)
    have "inj_on (\<lambda>i. fe_fd (?t ! i)) (in_use ?t)"
      using assms(2) e unfolding u files_ok_def by (auto simp: inj_on_def)
    moreover have "(\<lambda>i. fe_fd (?t ! i)) ` in_use ?t \<subseteq> hopen (px_world s) - {?h}"
      using assms(2) e i(2) unfolding u files_ok_def by (auto simp: inj_on_def)
    ultimately show ?thesis
      using assms(2) h True unfolding s' by (simp add: files_ok_def file_release_def)
  qed
qed

lemma posix_read_ok:
  assumes "host_files_ok os hopen" "files_ok hopen s"
  shows "\<exists>r s'. posix_read os fd b n s = Inr (r, s') \<and> files_ok hopen s'"
  using assms host_rw(1) [OF assms(1)] files_ok_world [OF assms(2)]
  by (auto simp: posix_read_def fail_def syscall_read_def split: prod.splits)

lemma posix_write_ok:
  assumes "host_files_ok os hopen" "files_ok hopen s"
  shows "\<exists>r s'. posix_write os fd (Some bs) (length bs) s = Inr (r, s') \<and> files_ok hopen s'"
  using assms host_rw(2) [OF assms(1)] files_ok_world [OF assms(2)]
  by (auto simp: posix_write_def fail_def syscall_write_def split: prod.splits)

lemma file_do_ok:
  assumes "host_files_ok os hopen" "files_ok hopen s"
  shows "\<exists>r s'. file_do os c s = Inr (r, s') \<and> files_ok hopen s'"
proof (cases c)
  case (F_Open p f m)
  then show ?thesis using posix_open_ok [OF assms] by (cases "posix_open os p f m s") (auto simp: file_do_def)
next
  case (F_Close fd)
  then show ?thesis using posix_close_ok [OF assms] by (cases "posix_close os fd s") (auto simp: file_do_def)
next
  case (F_Read fd n)
  then show ?thesis using posix_read_ok [OF assms, of fd True n] by (auto simp: file_do_def)
next
  case (F_Write fd bs)
  then show ?thesis using posix_write_ok [OF assms, of fd bs] by (auto simp: file_do_def)
qed

lemma file_run_ok:
  "host_files_ok os hopen \<Longrightarrow> files_ok hopen s \<Longrightarrow>
   \<exists>rs s'. file_run os cs s = Inr (rs, s') \<and> files_ok hopen s'"
proof (induction cs arbitrary: s)
  case Nil
  then show ?case by simp
next
  case (Cons c cs)
  from file_do_ok [OF Cons.prems] obtain r u where u: "file_do os c s = Inr (r, u)" "files_ok hopen u" by blast
  from Cons.IH [OF Cons.prems(1) u(2)] obtain rs s' where "file_run os cs u = Inr (rs, s')" "files_ok hopen s'"
    by blast
  with u(1) show ?case by simp
qed

lemma posix_init_ok:
  assumes "\<not> px_initialized s"
  shows "files_ok hopen (snd (posix_init s))"
proof -
  have "in_use (file_table (snd (posix_init s))) = {}"
    using assms by (auto simp: posix_init_def in_use_def)
  with assms show ?thesis by (simp add: files_ok_def posix_init_def)
qed


definition demo_hopen :: "demo_host \<Rightarrow> int set" where
  "demo_hopen w = set (dh_open w) - set (dh_closed w)"

lemma Max_fresh:
  fixes xs :: "int list"
  defines "m \<equiv> Max (set (2 # xs)) + 1"
  shows "m \<notin> set xs" "0 \<le> m"
proof -
  have ge: "x \<le> m - 1" if "x \<in> set (2 # xs)" for x
    unfolding m_def using Max_ge [OF _ that] by simp
  show "m \<notin> set xs" using ge [of m] by auto
  show "0 \<le> m" using ge [of 2] by simp
qed

lemma demo_files_ok: "host_files_ok demo_os demo_hopen"
proof -
  have "Max (set (2 # dh_open w @ dh_closed w)) + 1 \<notin> set (dh_open w)"
    "Max (set (2 # dh_open w @ dh_closed w)) + 1 \<notin> set (dh_closed w)"
    "0 \<le> Max (set (2 # dh_open w @ dh_closed w)) + 1"
    "Max (set (2 # dh_open w @ dh_closed w)) + 1 \<noteq> - 1" for w :: demo_host
    using Max_fresh [of "dh_open w @ dh_closed w"] by simp_all
  then show ?thesis
    unfolding host_files_ok_def by (auto simp: demo_os_def demo_hopen_def Let_def simp del: Max_insert)
qed

definition demo_posix :: "demo_host posix" where
  "demo_posix = \<lparr>px_initialized = False, file_table = [], px_errno = None,
     px_sys = \<lparr>sys_host = host_state0, sys_ipc = ipc_state0, sys_calls = syscall_state0, sys_world = demo_host0\<rparr>\<rparr>"


section \<open>A descriptor that is lost\<close>

text \<open>
  When the table is full, opening a file that the host can open fails with \<^verbatim>\<open>EMFILE\<close> but leaves the
  new descriptor open in the host: it is in no slot of the table, so no call of the layer can ever
  close it.
\<close>

theorem posix_open_full_leaks:
  assumes "host_files_ok os hopen" "files_ok hopen s" "px_initialized s" "\<forall>e \<in> set (file_table s). fe_in_use e"
    and "os_open os p f (if f AND 0x200 \<noteq> 0 then m else 0) (px_world s) = (fd, w)" "fd \<noteq> - 1"
  shows "\<exists>s'. posix_open os p f m s = (- 1, s') \<and> px_errno s' = Some EMFILE \<and> file_table s' = file_table s \<and>
    hopen (px_world s') = insert fd (hopen (px_world s)) \<and>
    fd \<notin> (\<lambda>i. fe_fd (file_table s' ! i)) ` in_use (file_table s')"
proof -
  have n: "file_alloc (fd, f, if f AND 0x200 \<noteq> 0 then m else 0) (file_table s) = None"
    using assms(4) files.alloc_None by blast
  have h: "fd \<notin> hopen (px_world s)" "hopen w = insert fd (hopen (px_world s))"
    using host_open [OF assms(1,5)] assms(6) by auto
  have "fd \<notin> (\<lambda>i. fe_fd (file_table s ! i)) ` in_use (file_table s)"
    using h(1) assms(2) by (auto simp: files_ok_def)
  with n h(2) assms(3,5,6) show ?thesis by (simp add: posix_open_def fail_def Let_def)
qed

theorem posix_open_full_leaks_witness:
  "\<exists>s'. posix_open demo_os ''/tmp/x'' 0 0
      (demo_posix\<lparr>px_initialized := True,
         file_table := map (\<lambda>i. \<lparr>fe_fd = int i + 3, fe_flags = 0, fe_mode = 0, fe_in_use = True\<rparr>) [0..<256],
         px_sys := (px_sys demo_posix)\<lparr>sys_world := demo_host0\<lparr>dh_open := map (\<lambda>i. int i + 3) [0..<256]\<rparr>\<rparr>\<rparr>) =
      (- 1, s') \<and> px_errno s' = Some EMFILE"
proof -
  let ?t = "map (\<lambda>i. \<lparr>fe_fd = int i + 3, fe_flags = 0, fe_mode = 0, fe_in_use = True\<rparr>) [0..<256]"
  let ?w = "demo_host0\<lparr>dh_open := map (\<lambda>i. int i + 3) [0..<256]\<rparr>"
  let ?s = "demo_posix\<lparr>px_initialized := True, file_table := ?t, px_sys := (px_sys demo_posix)\<lparr>sys_world := ?w\<rparr>\<rparr>"
  have u: "in_use ?t = {..<256}" by (auto simp: in_use_def)
  have "inj_on (\<lambda>i. fe_fd (?t ! i)) {..<256}" "(\<lambda>i. fe_fd (?t ! i)) ` {..<256} \<subseteq> demo_hopen ?w"
    by (auto simp: inj_on_def demo_hopen_def demo_host0_def)
  then have f: "files_ok demo_hopen ?s" using u by (simp add: files_ok_def)
  obtain fd w where o: "os_open demo_os ''/tmp/x'' 0 0 ?w = (fd, w)" by fastforce
  have "fd \<noteq> - 1" using o Max_fresh(2) [of "dh_open ?w @ dh_closed ?w"] by (auto simp: demo_os_def Let_def)
  with posix_open_full_leaks [OF demo_files_ok f, of "''/tmp/x''" 0 0 fd w] o show ?thesis by auto
qed

end
