(* ===== verification/KernelArgs.thy ===== *)
theory KernelArgs
  imports CString MachTable
begin

text \<open>
  The arguments of the kernel (\<^verbatim>\<open>src/mirix/kernel_args.c\<close>). What \<^verbatim>\<open>getopt_long\<close> answers, call by call, is
  the list of options the parser is given: each an option letter, or \<^verbatim>\<open>?\<close> for an option that is not
  known, with its argument. A string of the arguments is a string of the program's text or a copy on the
  heap, whose address it has; the heap is the set of the addresses that are live.
\<close>

section \<open>Data\<close>

datatype cstr = Static string | Copy nat string

primrec str_value :: "cstr \<Rightarrow> string" where
  "str_value (Static s) = s"
| "str_value (Copy a s) = s"

record kernel_args =
  ka_self :: nat
  timeshare_file :: "cstr option"
  alloc_size :: u64
  init_program :: "cstr option"
  command_program :: "cstr option"
  root_filesystem :: "cstr option"
  lazyfs_backing_file :: "cstr option"
  verbose :: bool
  cpu_count :: int
  show_help :: bool

definition default_args :: kernel_args where
  "default_args = \<lparr>ka_self = 0, timeshare_file = None, alloc_size = 512 * 1024 * 1024,
     init_program = Some (Static ''./sysvinit.out''), command_program = None,
     root_filesystem = Some (Static ''build/X86_64-DEBUG/filesystem/rootfs''),
     lazyfs_backing_file = Some (Static ''./lazyfs.img''), verbose = False, cpu_count = 1, show_help = False\<rparr>"

section \<open>Values\<close>

definition suffix_factor :: "char \<Rightarrow> u64" where
  "suffix_factor c =
     (if c = CHR ''K'' \<or> c = CHR ''k'' then 1024
      else if c = CHR ''M'' \<or> c = CHR ''m'' then 1024 * 1024
      else if c = CHR ''G'' \<or> c = CHR ''g'' then 1024 * 1024 * 1024
      else 1)"

definition parse_memory_size :: "string \<Rightarrow> u64" where
  "parse_memory_size s = (if s = [] then strtoull_10 s else strtoull_10 s * suffix_factor (last s))"

definition parse_cpu_count :: "string \<Rightarrow> int" where
  "parse_cpu_count s =
     (case strtol_10 s of
        (n, rest) \<Rightarrow> if rest \<noteq> [] \<or> n < 1 \<or> 256 < n then - 1 else n)"

section \<open>Parsing\<close>

type_synonym heap_malloc = "nat set \<Rightarrow> u64 \<Rightarrow> nat"

definition strdup :: "heap_malloc \<Rightarrow> string \<Rightarrow> nat set \<Rightarrow> cstr option \<times> nat set" where
  "strdup malloc s h =
     (let a = malloc h (of_nat (length s + 1)) in if a = 0 then (None, h) else (Some (Copy a s), insert a h))"

text \<open>What one option does: the arguments are kept, or freed and given up.\<close>

definition give_up :: "kernel_args \<Rightarrow> nat set \<Rightarrow> (kernel_args option \<times> nat set) outcome" where
  "give_up args h = (case free_addr (ka_self args) h of Inl e \<Rightarrow> Inl e | Inr h' \<Rightarrow> Inr (None, h'))"

definition kernel_option ::
  "heap_malloc \<Rightarrow> char \<times> string \<Rightarrow> kernel_args \<Rightarrow> nat set \<Rightarrow> (kernel_args option \<times> nat set) outcome" where
  "kernel_option malloc opt args h =
     (case opt of
        (c, optarg) \<Rightarrow>
          if c = CHR ''t'' then (case strdup malloc optarg h of (p, h') \<Rightarrow> Inr (Some (args\<lparr>timeshare_file := p\<rparr>), h'))
          else if c = CHR ''a'' then Inr (Some (args\<lparr>alloc_size := parse_memory_size optarg\<rparr>), h)
          else if c = CHR ''i'' then (case strdup malloc optarg h of (p, h') \<Rightarrow> Inr (Some (args\<lparr>init_program := p\<rparr>), h'))
          else if c = CHR ''C'' then (case strdup malloc optarg h of (p, h') \<Rightarrow> Inr (Some (args\<lparr>command_program := p\<rparr>), h'))
          else if c = CHR ''r'' then (case strdup malloc optarg h of (p, h') \<Rightarrow> Inr (Some (args\<lparr>root_filesystem := p\<rparr>), h'))
          else if c = CHR ''f'' then (case strdup malloc optarg h of (p, h') \<Rightarrow> Inr (Some (args\<lparr>lazyfs_backing_file := p\<rparr>), h'))
          else if c = CHR ''v'' then Inr (Some (args\<lparr>verbose := True\<rparr>), h)
          else if c = CHR ''m'' then
            (let n = parse_cpu_count optarg; args' = args\<lparr>cpu_count := n\<rparr> in
             if n = - 1 then give_up args' h else Inr (Some args', h))
          else if c = CHR ''h'' then give_up (args\<lparr>show_help := True\<rparr>) h
          else give_up args h)"

fun option_loop ::
  "heap_malloc \<Rightarrow> (char \<times> string) list \<Rightarrow> kernel_args \<Rightarrow> nat set \<Rightarrow> (kernel_args option \<times> nat set) outcome" where
  "option_loop malloc [] args h =
     (if alloc_size args = 0 \<or> cpu_count args < 1 then give_up args h else Inr (Some args, h))"
| "option_loop malloc (opt # opts) args h =
     (case kernel_option malloc opt args h of
        Inl e \<Rightarrow> Inl e
      | Inr (None, h') \<Rightarrow> Inr (None, h')
      | Inr (Some args', h') \<Rightarrow> option_loop malloc opts args' h')"

text \<open>The structure takes 72 bytes.\<close>

definition parse_kernel_args ::
  "heap_malloc \<Rightarrow> (char \<times> string) list \<Rightarrow> nat set \<Rightarrow> (kernel_args option \<times> nat set) outcome" where
  "parse_kernel_args malloc opts h =
     (let a = malloc h 72 in
      if a = 0 then Inr (None, h)
      else option_loop malloc opts (default_args\<lparr>ka_self := a\<rparr>) (insert a h))"

text \<open>The fields are read first, which needs the structure to be live. A string is freed unless it is the default
  one; the command has no default and is always freed.\<close>

primrec str_addr :: "cstr \<Rightarrow> nat" where
  "str_addr (Static s) = 0"
| "str_addr (Copy a s) = a"

definition opt_addr :: "cstr option \<Rightarrow> nat" where
  "opt_addr p = (case p of None \<Rightarrow> 0 | Some s \<Rightarrow> str_addr s)"

definition args_addrs :: "kernel_args \<Rightarrow> nat list" where
  "args_addrs args =
     map opt_addr [timeshare_file args, init_program args, command_program args, root_filesystem args,
                   lazyfs_backing_file args] @ [ka_self args]"

definition free_kernel_args :: "kernel_args option \<Rightarrow> nat set \<Rightarrow> nat set outcome" where
  "free_kernel_args args h =
     (case args of
        None \<Rightarrow> Inr h
      | Some a \<Rightarrow> if ka_self a \<notin> h then Inl Use_After_Free else free_addrs (args_addrs a) h)"

section \<open>What the options mean\<close>

text \<open>The letters of the options whose argument is kept as a string, and their fields.\<close>

definition string_letters :: "char list" where
  "string_letters = ''tiCrf''"

definition arg_field :: "char \<Rightarrow> kernel_args \<Rightarrow> cstr option" where
  "arg_field c args =
     (if c = CHR ''t'' then timeshare_file args else if c = CHR ''i'' then init_program args
      else if c = CHR ''C'' then command_program args else if c = CHR ''r'' then root_filesystem args
      else lazyfs_backing_file args)"

definition set_field :: "char \<Rightarrow> cstr option \<Rightarrow> kernel_args \<Rightarrow> kernel_args" where
  "set_field c p args =
     (if c = CHR ''t'' then args\<lparr>timeshare_file := p\<rparr> else if c = CHR ''i'' then args\<lparr>init_program := p\<rparr>
      else if c = CHR ''C'' then args\<lparr>command_program := p\<rparr> else if c = CHR ''r'' then args\<lparr>root_filesystem := p\<rparr>
      else args\<lparr>lazyfs_backing_file := p\<rparr>)"

text \<open>The last option of a letter counts.\<close>

definition last_opt :: "char \<Rightarrow> (char \<times> string) list \<Rightarrow> string option" where
  "last_opt c opts = map_of (rev opts) c"

definition meant_string :: "char \<Rightarrow> (char \<times> string) list \<Rightarrow> string option" where
  "meant_string c opts =
     (case last_opt c opts of
        Some v \<Rightarrow> Some v
      | None \<Rightarrow> map_option str_value (arg_field c default_args))"

definition meant_size :: "(char \<times> string) list \<Rightarrow> u64" where
  "meant_size opts = (case last_opt (CHR ''a'') opts of None \<Rightarrow> 512 * 1024 * 1024 | Some v \<Rightarrow> parse_memory_size v)"

definition meant_cpus :: "(char \<times> string) list \<Rightarrow> int" where
  "meant_cpus opts = (case last_opt (CHR ''m'') opts of None \<Rightarrow> 1 | Some v \<Rightarrow> parse_cpu_count v)"

definition option_ok :: "char \<times> string \<Rightarrow> bool" where
  "option_ok opt \<longleftrightarrow> fst opt \<in> set ''taiCrfvm'' \<and> (fst opt = CHR ''m'' \<longrightarrow> parse_cpu_count (snd opt) \<noteq> - 1)"

definition means :: "(char \<times> string) list \<Rightarrow> kernel_args \<Rightarrow> bool" where
  "means opts args \<longleftrightarrow>
     (\<forall>c \<in> set string_letters. map_option str_value (arg_field c args) = meant_string c opts) \<and>
     alloc_size args = meant_size opts \<and> cpu_count args = meant_cpus opts \<and>
     (verbose args \<longleftrightarrow> CHR ''v'' \<in> fst ` set opts)"

section \<open>The memory of the arguments\<close>

abbreviation arg_addr :: "char \<Rightarrow> kernel_args \<Rightarrow> nat" where
  "arg_addr c args \<equiv> opt_addr (arg_field c args)"

text \<open>Given the heap before parsing: no two strings share a copy, all copies are live and new; and they are
  all that is new while no string option is repeated.\<close>

definition args_mem :: "nat set \<Rightarrow> (char \<times> string) list \<Rightarrow> kernel_args \<Rightarrow> nat set \<Rightarrow> bool" where
  "args_mem h0 opts args h \<longleftrightarrow>
     finite h \<and> h0 \<subseteq> h \<and> ka_self args \<in> h - h0 \<and> ka_self args \<noteq> 0 \<and>
     (\<forall>c \<in> set string_letters. arg_addr c args \<noteq> 0 \<longrightarrow> arg_addr c args \<in> h - h0 - {ka_self args}) \<and>
     (\<forall>c \<in> set string_letters. \<forall>d \<in> set string_letters. c \<noteq> d \<longrightarrow> arg_addr c args \<noteq> 0 \<longrightarrow> arg_addr c args \<noteq> arg_addr d args) \<and>
     (distinct (filter (\<lambda>c. c \<in> set string_letters) (map fst opts)) \<longrightarrow>
        h = h0 \<union> {ka_self args} \<union> ((\<lambda>c. arg_addr c args) ` set string_letters - {0}) \<and>
        (\<forall>c \<in> set string_letters. c \<notin> fst ` set opts \<longrightarrow> arg_addr c args = 0))"

lemma letters_set: "set string_letters = {CHR ''t'', CHR ''i'', CHR ''C'', CHR ''r'', CHR ''f''}"
  by (simp add: string_letters_def)

lemma set_field_field:
  "c \<in> set string_letters \<Longrightarrow> d \<in> set string_letters \<Longrightarrow> arg_field d (set_field c p args) = (if d = c then p else arg_field d args)"
  unfolding letters_set by (elim insertE emptyE) (simp_all add: arg_field_def set_field_def)

lemma set_field_other [simp]:
  "ka_self (set_field c p args) = ka_self args" "alloc_size (set_field c p args) = alloc_size args"
  "cpu_count (set_field c p args) = cpu_count args" "verbose (set_field c p args) = verbose args"
  by (simp_all add: set_field_def)

lemma kernel_option_string:
  assumes "c \<in> set string_letters" "strdup malloc v h = (p, h')"
  shows "kernel_option malloc (c, v) args h = Inr (Some (set_field c p args), h')"
  using assms(1) unfolding letters_set
  by (elim insertE emptyE) (simp_all add: assms(2) kernel_option_def set_field_def)

lemma last_opt_snoc: "last_opt c (opts @ [(d, v)]) = (if c = d then Some v else last_opt c opts)"
  by (simp add: last_opt_def)

lemma means_string:
  assumes "means opts args" "c \<in> set string_letters"
  shows "means (opts @ [(c, v)]) (set_field c (Some (Copy a v)) args)"
proof -
  have "map_option str_value (arg_field d (set_field c (Some (Copy a v)) args)) = meant_string d (opts @ [(c, v)])"
    if "d \<in> set string_letters" for d
    using assms(1) that set_field_field [OF assms(2) that] by (simp only: means_def meant_string_def last_opt_snoc) auto
  moreover have "CHR ''a'' \<noteq> c" "CHR ''m'' \<noteq> c" "CHR ''v'' \<noteq> c" using assms(2) by (auto simp: letters_set)
  ultimately show ?thesis
    using assms(1) by (simp add: means_def meant_size_def meant_cpus_def last_opt_snoc)
qed

lemma args_mem_string:
  assumes mem: "args_mem h0 opts args h" and c: "c \<in> set string_letters" and a: "a \<notin> h" "a \<noteq> 0"
  shows "args_mem h0 (opts @ [(c, v)]) (set_field c (Some (Copy a v)) args) (insert a h)"
proof -
  let ?args = "set_field c (Some (Copy a v)) args"
  have addr: "arg_addr d ?args = (if d = c then a else arg_addr d args)" if "d \<in> set string_letters" for d
    using set_field_field [OF c that] by (simp add: opt_addr_def)
  have live: "\<forall>d \<in> set string_letters. arg_addr d args \<noteq> 0 \<longrightarrow> arg_addr d args \<in> h - h0 - {ka_self args}"
    and self: "ka_self args \<in> h - h0" "h0 \<subseteq> h"
    using mem by (simp_all only: args_mem_def) blast+
  have 1: "\<forall>d \<in> set string_letters. arg_addr d ?args \<noteq> 0 \<longrightarrow> arg_addr d ?args \<in> insert a h - h0 - {ka_self ?args}"
    using live self a addr by auto
  have 2: "\<forall>d \<in> set string_letters. \<forall>e \<in> set string_letters. d \<noteq> e \<longrightarrow> arg_addr d ?args \<noteq> 0 \<longrightarrow> arg_addr d ?args \<noteq> arg_addr e ?args"
  proof (intro ballI impI)
    fix d e assume de: "d \<in> set string_letters" "e \<in> set string_letters" "d \<noteq> e" "arg_addr d ?args \<noteq> 0"
    have "arg_addr d args \<noteq> arg_addr e args" if "arg_addr d args \<noteq> 0"
      using mem de(1-3) that unfolding args_mem_def by blast
    then show "arg_addr d ?args \<noteq> arg_addr e ?args"
      using addr [OF de(1)] addr [OF de(2)] de(3,4) live de(1,2) a by (auto split: if_splits)
  qed
  have 3: "insert a h = h0 \<union> {ka_self ?args} \<union> ((\<lambda>d. arg_addr d ?args) ` set string_letters - {0}) \<and>
      (\<forall>d \<in> set string_letters. d \<notin> fst ` set (opts @ [(c, v)]) \<longrightarrow> arg_addr d ?args = 0)"
    if "distinct (filter (\<lambda>d. d \<in> set string_letters) (map fst (opts @ [(c, v)])))"
  proof -
    have d: "distinct (filter (\<lambda>d. d \<in> set string_letters) (map fst opts))" and new: "c \<notin> fst ` set opts"
      using that c by auto
    have h: "h = h0 \<union> {ka_self args} \<union> ((\<lambda>d. arg_addr d args) ` set string_letters - {0})"
      "\<forall>d \<in> set string_letters. d \<notin> fst ` set opts \<longrightarrow> arg_addr d args = 0"
      using mem d unfolding args_mem_def by blast+
    then have "arg_addr c args = 0" using c new by blast
    then have "(\<lambda>d. arg_addr d ?args) ` set string_letters - {0} = insert a ((\<lambda>d. arg_addr d args) ` set string_letters - {0})"
      using addr c a by (auto simp: image_iff split: if_splits)
    then show ?thesis using h addr by auto
  qed
  have 0: "finite (insert a h)" "h0 \<subseteq> insert a h" "ka_self ?args \<in> insert a h - h0" "ka_self ?args \<noteq> 0"
    using mem self a unfolding args_mem_def by auto
  show ?thesis
    unfolding args_mem_def by (intro conjI) (rule 0 1 2 | rule impI, rule 3, assumption)+
qed

lemma args_mem_other:
  assumes "args_mem h0 opts args h" "\<forall>c \<in> set string_letters. arg_field c args' = arg_field c args"
    "ka_self args' = ka_self args" "fst opt \<notin> set string_letters"
  shows "args_mem h0 (opts @ [opt]) args' h"
proof -
  have "(\<lambda>c. arg_addr c args') ` set string_letters = (\<lambda>c. arg_addr c args) ` set string_letters"
    using assms(2) by (auto simp: image_iff)
  moreover have "filter (\<lambda>c. c \<in> set string_letters) (map fst (opts @ [opt])) = filter (\<lambda>c. c \<in> set string_letters) (map fst opts)"
    using assms(4) by simp
  moreover have "\<forall>c \<in> set string_letters. arg_addr c args' = arg_addr c args" using assms(2) by simp
  ultimately show ?thesis
    using assms(1) unfolding args_mem_def assms(3) by (elim conjE) (intro conjI; simp)
qed

lemma means_size:
  "means opts args \<Longrightarrow> means (opts @ [(CHR ''a'', v)]) (args\<lparr>alloc_size := parse_memory_size v\<rparr>)"
  by (simp add: means_def meant_string_def meant_size_def meant_cpus_def last_opt_snoc letters_set arg_field_def)

lemma means_cpus:
  "means opts args \<Longrightarrow> means (opts @ [(CHR ''m'', v)]) (args\<lparr>cpu_count := parse_cpu_count v\<rparr>)"
  by (simp add: means_def meant_string_def meant_size_def meant_cpus_def last_opt_snoc letters_set arg_field_def)

lemma means_verbose:
  "means opts args \<Longrightarrow> means (opts @ [(CHR ''v'', v)]) (args\<lparr>verbose := True\<rparr>)"
  by (simp add: means_def meant_string_def meant_size_def meant_cpus_def last_opt_snoc letters_set arg_field_def)

lemma give_up_ok: "args_mem h0 opts args h \<Longrightarrow> \<exists>h'. give_up args h = Inr (None, h')"
  unfolding args_mem_def give_up_def free_addr_def by auto

section \<open>Parsing keeps the meaning\<close>

lemma kernel_option_ok:
  assumes "malloc_ok malloc" "\<forall>h n. malloc h n \<noteq> 0" "means opts args" "args_mem h0 opts args h" "option_ok opt"
  shows "\<exists>args' h'. kernel_option malloc opt args h = Inr (Some args', h') \<and>
           means (opts @ [opt]) args' \<and> args_mem h0 (opts @ [opt]) args' h'"
proof -
  obtain c v where opt: "opt = (c, v)" by fastforce
  consider "c \<in> set string_letters" | "c = CHR ''a''" | "c = CHR ''v''" | "c = CHR ''m''"
    using assms(5) opt by (auto simp: option_ok_def letters_set)
  then show ?thesis
  proof cases
    case 1
    let ?a = "malloc h (of_nat (length v + 1))"
    have a: "?a \<noteq> 0" using assms(2) by blast
    have fin: "finite h" using assms(4) unfolding args_mem_def by blast
    have "strdup malloc v h = (Some (Copy ?a v), insert ?a h)"
      unfolding strdup_def Let_def using a by (simp only: if_False)
    then show ?thesis
      using kernel_option_string [OF 1] means_string [OF assms(3) 1] malloc_fresh [OF assms(1) fin a]
        args_mem_string [OF assms(4) 1 _ a] opt by blast
  next
    case 2
    then show ?thesis
      using means_size [OF assms(3), of v] args_mem_other [OF assms(4), of "args\<lparr>alloc_size := parse_memory_size v\<rparr>" opt] opt
      by (simp add: kernel_option_def arg_field_def letters_set)
  next
    case 3
    then show ?thesis
      using means_verbose [OF assms(3), of v] args_mem_other [OF assms(4), of "args\<lparr>verbose := True\<rparr>" opt] opt
      by (simp add: kernel_option_def arg_field_def letters_set)
  next
    case 4
    then show ?thesis
      using means_cpus [OF assms(3), of v] args_mem_other [OF assms(4), of "args\<lparr>cpu_count := parse_cpu_count v\<rparr>" opt] opt assms(5)
      by (simp add: kernel_option_def arg_field_def letters_set option_ok_def)
  qed
qed

lemma kernel_option_bad:
  assumes "args_mem h0 opts args h" "\<not> option_ok opt"
  shows "\<exists>h'. kernel_option malloc opt args h = Inr (None, h')"
proof -
  obtain c v where opt: "opt = (c, v)" by fastforce
  have up: "give_up (args\<lparr>cpu_count := n\<rparr>) h = give_up args h" "give_up (args\<lparr>show_help := b\<rparr>) h = give_up args h" for n b
    by (simp_all add: give_up_def)
  from assms(2) opt consider "c \<notin> set ''taiCrfvm''" | "c = CHR ''m''" "parse_cpu_count v = - 1"
    by (auto simp: option_ok_def)
  then show ?thesis
    using give_up_ok [OF assms(1)] opt by cases (simp_all add: kernel_option_def up)
qed

lemma parse_cpu_count_range: "parse_cpu_count v = - 1 \<or> 1 \<le> parse_cpu_count v \<and> parse_cpu_count v \<le> 256"
  by (simp add: parse_cpu_count_def split_beta)

lemma meant_cpus_range:
  assumes "list_all option_ok opts"
  shows "1 \<le> meant_cpus opts \<and> meant_cpus opts \<le> 256"
proof (cases "last_opt (CHR ''m'') opts")
  case (Some v)
  then have "(CHR ''m'', v) \<in> set opts" unfolding last_opt_def by (metis map_of_SomeD set_rev)
  then have "parse_cpu_count v \<noteq> - 1" using assms by (auto simp: list_all_iff option_ok_def)
  then show ?thesis using Some parse_cpu_count_range [of v] by (simp add: meant_cpus_def)
qed (simp add: meant_cpus_def)

text \<open>The options a kernel accepts.\<close>

definition accepted :: "(char \<times> string) list \<Rightarrow> bool" where
  "accepted opts \<longleftrightarrow> list_all option_ok opts \<and> meant_size opts \<noteq> 0"

lemma option_loop_ok:
  assumes "malloc_ok malloc" "\<forall>h n. malloc h n \<noteq> 0" "list_all option_ok pre" "means pre args" "args_mem h0 pre args h"
  shows "\<exists>r h'. option_loop malloc opts args h = Inr (r, h') \<and>
           (case r of None \<Rightarrow> \<not> accepted (pre @ opts)
            | Some args' \<Rightarrow> accepted (pre @ opts) \<and> means (pre @ opts) args' \<and> args_mem h0 (pre @ opts) args' h')"
  using assms(3-)
proof (induction opts arbitrary: pre args h)
  case Nil
  have "cpu_count args \<ge> 1" "alloc_size args = meant_size pre"
    using Nil meant_cpus_range [of pre] by (simp_all add: means_def)
  then show ?case using give_up_ok [OF Nil(3)] Nil by (auto simp: accepted_def)
next
  case (Cons opt opts)
  show ?case
  proof (cases "option_ok opt")
    case True
    obtain args' h' where s: "kernel_option malloc opt args h = Inr (Some args', h')"
      "means (pre @ [opt]) args'" "args_mem h0 (pre @ [opt]) args' h'"
      using kernel_option_ok [OF assms(1,2) Cons.prems(2,3) True] by blast
    then show ?thesis using Cons.IH [of "pre @ [opt]" args' h', unfolded append_assoc append_Cons append_Nil] True Cons.prems(1) by simp
  next
    case False
    then show ?thesis using kernel_option_bad [OF Cons.prems(3) False, of malloc] by (auto simp: accepted_def)
  qed
qed

lemma args_addrs_letters: "args_addrs args = map (\<lambda>c. arg_addr c args) string_letters @ [ka_self args]"
  by (simp add: args_addrs_def string_letters_def arg_field_def)

lemma distinct_map_filter:
  assumes "distinct xs" "\<forall>x \<in> set xs. \<forall>y \<in> set xs. x \<noteq> y \<longrightarrow> f x \<noteq> 0 \<longrightarrow> f x \<noteq> (f y :: nat)"
  shows "distinct (filter (\<lambda>a. a \<noteq> 0) (map f xs))"
  using assms by (induction xs) auto

lemma free_kernel_args_ok:
  assumes "args_mem h0 opts args h" "distinct (filter (\<lambda>c. c \<in> set string_letters) (map fst opts))"
  shows "free_kernel_args (Some args) h = Inr h0"
proof -
  let ?f = "\<lambda>c. arg_addr c args"
  have m: "\<forall>c \<in> set string_letters. ?f c \<noteq> 0 \<longrightarrow> ?f c \<in> h - h0 - {ka_self args}"
    "\<forall>c \<in> set string_letters. \<forall>d \<in> set string_letters. c \<noteq> d \<longrightarrow> ?f c \<noteq> 0 \<longrightarrow> ?f c \<noteq> ?f d"
    "ka_self args \<in> h - h0" "ka_self args \<noteq> 0" "h = h0 \<union> {ka_self args} \<union> (?f ` set string_letters - {0})"
    using assms unfolding args_mem_def by blast+
  have "distinct (filter (\<lambda>a. a \<noteq> 0) (map ?f string_letters))"
    by (rule distinct_map_filter [OF _ m(2)]) (simp add: string_letters_def)
  then have "distinct (filter (\<lambda>a. a \<noteq> 0) (args_addrs args))"
    unfolding args_addrs_letters using m(1,4) by (simp only: filter_append distinct_append) auto
  moreover have s: "set (args_addrs args) - {0} = {ka_self args} \<union> (?f ` set string_letters - {0})"
    unfolding args_addrs_letters using m(4) by auto
  moreover have "set (args_addrs args) - {0} \<subseteq> h" "h - (set (args_addrs args) - {0}) = h0"
    unfolding s using m(1,3,5) by blast+
  ultimately show ?thesis using free_addrs_ok [of "args_addrs args" h] m(3) by (simp add: free_kernel_args_def)
qed

lemma parse_kernel_args_ok:
  assumes "malloc_ok malloc" "\<forall>h n. malloc h n \<noteq> 0" "finite h"
  shows "\<exists>r h'. parse_kernel_args malloc opts h = Inr (r, h') \<and>
           (case r of
              None \<Rightarrow> \<not> accepted opts
            | Some args \<Rightarrow> accepted opts \<and> means opts args \<and> args_mem h opts args h')"
proof -
  let ?a = "malloc h 72"
  let ?args = "default_args\<lparr>ka_self := ?a\<rparr>"
  have a: "?a \<noteq> 0" "?a \<notin> h" using assms malloc_fresh [OF assms(1,3)] by blast+
  have start: "means [] ?args" "args_mem h [] ?args (insert ?a h)"
    using a assms(3)
    by (simp_all add: means_def meant_string_def meant_size_def meant_cpus_def last_opt_def args_mem_def letters_set
        arg_field_def default_args_def opt_addr_def subset_insertI)
  have "parse_kernel_args malloc opts h = option_loop malloc opts ?args (insert ?a h)"
    using a(1) by (simp add: parse_kernel_args_def Let_def)
  then show ?thesis
    using option_loop_ok [OF assms(1,2) _ start, of opts, unfolded append_Nil] by simp
qed

section \<open>Properties\<close>



text \<open>A repeated string option leaks the copy it replaces.\<close>

lemma repeated_option_leaks:
  "\<exists>args h'. parse_kernel_args demo_malloc [(CHR ''t'', ''a''), (CHR ''t'', ''b'')] {} = Inr (Some args, h') \<and>
     free_kernel_args (Some args) h' = Inr {2}"
  by (simp add: parse_kernel_args_def kernel_option_def strdup_def Let_def default_args_def demo_malloc_def
      free_kernel_args_def args_addrs_def opt_addr_def free_addr_def insert_Diff_if)

text \<open>A size that is too large for its suffix wraps around.\<close>

lemma memory_size_wraps: "parse_memory_size ''17179869185G'' = 1073741824"
  by (simp add: parse_memory_size_def suffix_factor_def strtoull_10_def number_simps)

end
