(* ===== verification/LazyFs.thy ===== *)
theory LazyFs
  imports Host
begin

text \<open>
  LazyFS, the root file system (\<^verbatim>\<open>src/mirix/drivers/lazyfs.c\<close>): the superblock and how it is loaded from,
  saved to and detached from the backing file. The superblock is written and read as the bytes of its
  structure, which are modelled for a little endian machine with 32 bit integers; padding is written as
  zero. The node operations of the file are placeholders without effect.
\<close>

section \<open>The superblock\<close>

record superblock =
  sb_magic :: u32
  sb_version :: u32
  sb_block_size :: u32
  sb_total_blocks :: u32
  sb_free_blocks :: u32
  sb_inode_count :: u32
  sb_free_inodes :: u32
  sb_inode_bitmap_block :: u32
  sb_block_bitmap_block :: u32
  sb_inode_table_block :: u32
  sb_root_inode_num :: u32
  sb_case_sensitive :: bool
  sb_fd :: int
  sb_path :: string

definition zero_superblock :: superblock where
  "zero_superblock = \<lparr>sb_magic = 0, sb_version = 0, sb_block_size = 0, sb_total_blocks = 0, sb_free_blocks = 0,
     sb_inode_count = 0, sb_free_inodes = 0, sb_inode_bitmap_block = 0, sb_block_bitmap_block = 0,
     sb_inode_table_block = 0, sb_root_inode_num = 0, sb_case_sensitive = False, sb_fd = 0,
     sb_path = replicate 1025 (CHR 0x00)\<rparr>"

definition fs_superblock0 :: superblock where
  "fs_superblock0 = zero_superblock\<lparr>sb_fd := - 1\<rparr>"

definition superblock_words :: "superblock \<Rightarrow> u32 list" where
  "superblock_words sb = [sb_magic sb, sb_version sb, sb_block_size sb, sb_total_blocks sb, sb_free_blocks sb,
     sb_inode_count sb, sb_free_inodes sb, sb_inode_bitmap_block sb, sb_block_bitmap_block sb,
     sb_inode_table_block sb, sb_root_inode_num sb]"

definition superblock_bytes :: "superblock \<Rightarrow> u8 list" where
  "superblock_bytes sb =
     concat (map le_bytes (superblock_words sb)) @ [if sb_case_sensitive sb then 1 else 0, 0, 0, 0] @
     le_bytes (word_of_int (sb_fd sb)) @ map (\<lambda>c. of_nat (of_char c)) (sb_path sb) @ [0, 0, 0]"

definition superblock_of :: "u8 list \<Rightarrow> superblock" where
  "superblock_of bs = \<lparr>sb_magic = get32 0 bs, sb_version = get32 4 bs, sb_block_size = get32 8 bs,
     sb_total_blocks = get32 12 bs, sb_free_blocks = get32 16 bs, sb_inode_count = get32 20 bs,
     sb_free_inodes = get32 24 bs, sb_inode_bitmap_block = get32 28 bs, sb_block_bitmap_block = get32 32 bs,
     sb_inode_table_block = get32 36 bs, sb_root_inode_num = get32 40 bs, sb_case_sensitive = (bs ! 44 \<noteq> 0),
     sb_fd = sint (get32 48 bs), sb_path = map (\<lambda>b. char_of (unat b)) (take 1025 (drop 52 bs))\<rparr>"

abbreviation (input) sizeof_superblock :: nat where "sizeof_superblock \<equiv> 1080"

section \<open>Operations\<close>

definition lazyfs_save_superblock :: "'w host_os \<Rightarrow> superblock \<Rightarrow> 'w \<Rightarrow> int \<times> 'w" where
  "lazyfs_save_superblock os sb w =
     (if sb_fd sb = - 1 then (- 1, w)
      else (case os_write os (sb_fd sb) (superblock_bytes sb) (os_rewind os (sb_fd sb) w) of
              (n, w') \<Rightarrow> (if n \<noteq> int sizeof_superblock then - 1 else 0, w')))"

definition clear_path :: "superblock \<Rightarrow> superblock" where
  "clear_path sb = sb\<lparr>sb_path := (sb_path sb)[0 := CHR 0x00]\<rparr>"

text \<open>\<^verbatim>\<open>strncpy\<close> of at most 1024 characters into the field, filled up with null characters.\<close>

definition copy_path :: "string \<Rightarrow> string" where
  "copy_path p = take 1024 p @ replicate (1025 - min 1024 (length p)) (CHR 0x00)"

text \<open>A read puts its bytes over the first bytes of the superblock, however many there are.\<close>

definition lazyfs_init :: "'w host_os \<Rightarrow> string option \<Rightarrow> bool \<Rightarrow> superblock \<Rightarrow> 'w \<Rightarrow> int \<times> superblock \<times> 'w" where
  "lazyfs_init os path case_sensitive sb0 w =
     (let sb1 = zero_superblock\<lparr>sb_case_sensitive := case_sensitive, sb_inode_count := 1024, sb_free_inodes := 1024,
                  sb_fd := - 1\<rparr> in
      case path of
        None \<Rightarrow> (0, sb1, w)
      | Some p \<Rightarrow>
          (let sb2 = sb1\<lparr>sb_path := copy_path p\<rparr> in
           if sb_path sb2 ! 0 = CHR 0x00 \<and> p \<noteq> [] then (- 1, sb2, w)
           else
             (case os_open os p 0x42 0x1A4 w of
                (fd, w1) \<Rightarrow>
                  (let sb3 = sb2\<lparr>sb_fd := fd\<rparr> in
                   if fd = - 1 then (- 1, clear_path sb3, w1)
                   else
                     (case os_read os fd sizeof_superblock w1 of
                        (n, bs, w2) \<Rightarrow>
                          (let sb4 = (if bs = [] then sb3
                                      else superblock_of (bs @ drop (length bs) (superblock_bytes sb3))) in
                           if n = int sizeof_superblock then (0, sb4, w2)
                           else
                             (let sb5 = sb4\<lparr>sb_inode_count := 0, sb_free_inodes := 0, sb_root_inode_num := 0\<rparr> in
                              case lazyfs_save_superblock os sb5 w2 of
                                (r, w3) \<Rightarrow>
                                  if r = - 1
                                  then (- 1, (clear_path sb5)\<lparr>sb_fd := - 1\<rparr>, snd (os_close os (sb_fd sb5) w3))
                                  else (0, sb5, w3)))))))) "

text \<open>At the end everything is set to zero, the descriptor too.\<close>

definition lazyfs_cleanup :: "'w host_os \<Rightarrow> superblock \<Rightarrow> 'w \<Rightarrow> superblock \<times> 'w" where
  "lazyfs_cleanup os sb w =
     (zero_superblock,
      if sb_fd sb \<noteq> - 1
      then snd (os_close os (sb_fd sb) (snd (lazyfs_save_superblock os sb w)))
      else w)"

section \<open>Loading what was saved\<close>

definition superblock_ok :: "superblock \<Rightarrow> bool" where
  "superblock_ok sb \<longleftrightarrow> length (sb_path sb) = 1025 \<and> - (2 ^ 31) \<le> sb_fd sb \<and> sb_fd sb < 2 ^ 31"

lemma length_superblock_bytes: "superblock_ok sb \<Longrightarrow> length (superblock_bytes sb) = 1080"
  by (simp add: superblock_ok_def superblock_bytes_def superblock_words_def)

lemma char_of_byte [simp]: "char_of (unat (of_nat (of_char c) :: u8)) = c"
proof -
  have "(of_char c :: nat) < 256" by (metis char_of_mod_256 mod_less_divisor of_char_of of_char_mod_256 zero_less_numeral)
  then have "unat (of_nat (of_char c) :: u8) = of_char c" by (simp add: unat_of_nat)
  then show ?thesis by (simp only: char_of_char)
qed

lemma superblock_roundtrip:
  assumes "superblock_ok sb"
  shows "superblock_of (superblock_bytes sb) = sb"
proof -
  have fd: "sint (word_of_int (sb_fd sb) :: u32) = sb_fd sb"
    using assms by (simp add: superblock_ok_def signed_of_int signed_take_bit_int_eq_self)
  have path: "length (sb_path sb) = 1025" using assms by (simp add: superblock_ok_def)
  show ?thesis
    by (simp add: superblock_of_def superblock_bytes_def superblock_words_def get32_def fd path nth_append comp_def)
qed

lemma copy_path_length [simp]: "length (copy_path p) = 1025"
  by (simp add: copy_path_def)

lemma copy_path_start: "CHR 0x00 \<notin> set p \<Longrightarrow> \<not> (copy_path p ! 0 = CHR 0x00 \<and> p \<noteq> [])"
  by (cases p) (auto simp: copy_path_def)

text \<open>Creating: the new superblock goes into the file with the descriptor of the run that made it.\<close>

lemma lazyfs_init_new:
  assumes "CHR 0x00 \<notin> set p" "os_open os p 0x42 0x1A4 w = (fd, w1)" "fd \<noteq> - 1" "os_read os fd 1080 w1 = (0, [], w2)"
    "os_write os fd (superblock_bytes sb) (os_rewind os fd w2) = (1080, w3)"
    "sb = zero_superblock\<lparr>sb_case_sensitive := cs, sb_fd := fd, sb_path := copy_path p\<rparr>"
  shows "lazyfs_init os (Some p) cs sb0 w = (0, sb, w3)"
  using assms copy_path_start [OF assms(1)]
  by (simp add: lazyfs_init_def Let_def lazyfs_save_superblock_def zero_superblock_def)

section \<open>Properties\<close>

text \<open>Opening a file system that an earlier run saved: \<open>lazyfs_init\<close> takes over the whole stored superblock
  exactly as it was saved, the descriptor of the earlier run and its case rule included. The descriptor just
  opened is forgotten, and cleaning up writes the superblock to the descriptor of the earlier run and closes
  that one.\<close>

theorem lazyfs_reopen:
  assumes "CHR 0x00 \<notin> set p" "superblock_ok old" "sb_fd old \<noteq> - 1" "os_open os p 0x42 0x1A4 w = (fd, w1)" "fd \<noteq> - 1"
    "os_read os fd 1080 w1 = (1080, superblock_bytes old, w2)"
  shows "lazyfs_init os (Some p) cs sb0 w = (0, old, w2) \<and>
         lazyfs_cleanup os old w2 =
           (zero_superblock, snd (os_close os (sb_fd old)
              (snd (os_write os (sb_fd old) (superblock_bytes old) (os_rewind os (sb_fd old) w2)))))"
proof -
  have ne: "superblock_bytes old \<noteq> []" using length_superblock_bytes [OF assms(2)] by auto
  have ok: "superblock_ok (zero_superblock\<lparr>sb_case_sensitive := cs, sb_inode_count := 1024, sb_free_inodes := 1024,
      sb_path := copy_path p, sb_fd := 0\<rparr>)"
    by (simp add: superblock_ok_def)
  have len: "length (superblock_bytes (zero_superblock\<lparr>sb_case_sensitive := cs, sb_inode_count := 1024, sb_free_inodes := 1024,
      sb_path := copy_path p, sb_fd := n\<rparr>)) = 1080" for n
    using length_superblock_bytes [OF ok] by (simp add: superblock_bytes_def superblock_words_def)
  have "superblock_of (superblock_bytes old @ drop (length (superblock_bytes old)) bs) = old" if "length bs = 1080" for bs
    using that length_superblock_bytes [OF assms(2)] superblock_roundtrip [OF assms(2)] by simp
  then show ?thesis
    using assms copy_path_start [OF assms(1)] ne len
    by (simp add: lazyfs_init_def Let_def lazyfs_cleanup_def lazyfs_save_superblock_def split_beta zero_superblock_def)
qed

theorem lazyfs_reopen_witness:
  "\<exists>w2. lazyfs_init demo_os (Some ''fs'') True fs_superblock0
            (demo_host0\<lparr>dh_bytes := superblock_bytes (zero_superblock\<lparr>sb_fd := 5\<rparr>)\<rparr>) = (0, zero_superblock\<lparr>sb_fd := 5\<rparr>, w2) \<and>
        dh_open w2 = [3] \<and> dh_closed (snd (lazyfs_cleanup demo_os (zero_superblock\<lparr>sb_fd := 5\<rparr>) w2)) = [5]"
proof -
  let ?old = "zero_superblock\<lparr>sb_fd := 5\<rparr>"
  let ?w = "demo_host0\<lparr>dh_bytes := superblock_bytes ?old\<rparr>"
  have ok: "superblock_ok ?old" by (simp add: superblock_ok_def zero_superblock_def)
  have open3: "os_open demo_os ''fs'' 0x42 0x1A4 ?w = (3, ?w\<lparr>dh_open := [3]\<rparr>)"
    by (simp add: demo_os_def demo_host0_def Let_def)
  have "os_read demo_os 3 1080 (?w\<lparr>dh_open := [3]\<rparr>) = (1080, superblock_bytes ?old, ?w\<lparr>dh_open := [3], dh_bytes := []\<rparr>)"
    using length_superblock_bytes [OF ok] by (simp add: demo_os_def)
  from lazyfs_reopen [OF _ ok _ open3 _ this, of True fs_superblock0] show ?thesis
    by (simp add: zero_superblock_def) (simp add: demo_os_def demo_host0_def)
qed

text \<open>A second cleanup writes to descriptor 0 and closes it.\<close>

lemma lazyfs_cleanup_twice:
  "lazyfs_cleanup os (fst (lazyfs_cleanup os sb w)) w' =
     (zero_superblock, snd (os_close os 0 (snd (os_write os 0 (superblock_bytes zero_superblock) (os_rewind os 0 w')))))"
  by (simp add: lazyfs_cleanup_def lazyfs_save_superblock_def zero_superblock_def split_beta)

end
