(* ===== verification/BsdProc.thy ===== *)
theory BsdProc
  imports Prelude
begin

text \<open>
  The BSD process table (\<^verbatim>\<open>src/bsd/bsd_proc.c\<close>): 1024 slots, a process being named by the index of its slot.
  A pointer to an entry is the index of the slot. The Mach task of an entry, which no function sets, is not
  modelled.
\<close>

section \<open>The table\<close>

datatype proc_state = P_STATE_UNUSED | P_STATE_EMBRYO | P_STATE_RUNNING | P_STATE_SLEEPING | P_STATE_STOPPED | P_STATE_ZOMBIE

record proc =
  p_pid :: int
  p_ppid :: int
  p_state :: proc_state
  p_comm :: "string option"

abbreviation (input) MAX_PROC :: nat where "MAX_PROC \<equiv> 1024"

definition zero_proc :: proc where
  "zero_proc = \<lparr>p_pid = 0, p_ppid = 0, p_state = P_STATE_UNUSED, p_comm = None\<rparr>"

definition bsd_proc_init :: "proc list" where
  "bsd_proc_init = (replicate MAX_PROC zero_proc)[0 := zero_proc\<lparr>p_pid := 0, p_ppid := 0, p_state := P_STATE_RUNNING,
                                                                p_comm := Some ''kernel''\<rparr>]"

definition pfind :: "int \<Rightarrow> proc list \<Rightarrow> nat option" where
  "pfind pid t =
     (if pid < 0 \<or> int MAX_PROC \<le> pid then None
      else first_idx (\<lambda>p. p_pid p = pid \<and> p_state p \<noteq> P_STATE_UNUSED) t)"

definition proc_alloc :: "proc list \<Rightarrow> (nat \<times> proc list) option" where
  "proc_alloc t =
     (case first_idx (\<lambda>p. p_state p = P_STATE_UNUSED) t of
        None \<Rightarrow> None
      | Some i \<Rightarrow> Some (i, t[i := zero_proc\<lparr>p_pid := int i, p_state := P_STATE_EMBRYO\<rparr>]))"

definition proc_free :: "nat option \<Rightarrow> proc list \<Rightarrow> proc list" where
  "proc_free p t =
     (case p of
        None \<Rightarrow> t
      | Some i \<Rightarrow>
          if 0 \<le> p_pid (t ! i) \<and> p_pid (t ! i) < int MAX_PROC
          then t[i := (t ! i)\<lparr>p_state := P_STATE_UNUSED, p_pid := 0\<rparr>]
          else t)"

section \<open>Runs\<close>

text \<open>What the rest of the kernel does to the table: take an entry, give one back by its process, and change the
  state of one that is in use.\<close>

datatype proc_op = Proc_Alloc | Proc_Free int | Proc_Set int proc_state

fun proc_do :: "proc_op \<Rightarrow> proc list \<Rightarrow> proc list" where
  "proc_do Proc_Alloc t = (case proc_alloc t of None \<Rightarrow> t | Some (i, t') \<Rightarrow> t')"
| "proc_do (Proc_Free pid) t = proc_free (pfind pid t) t"
| "proc_do (Proc_Set pid st) t =
     (case pfind pid t of None \<Rightarrow> t | Some i \<Rightarrow> if st = P_STATE_UNUSED then t else t[i := (t ! i)\<lparr>p_state := st\<rparr>])"

fun proc_run :: "proc_op list \<Rightarrow> proc list \<Rightarrow> proc list" where
  "proc_run [] t = t"
| "proc_run (c # cs) t = proc_run cs (proc_do c t)"

section \<open>The invariant\<close>

text \<open>An entry in use has the index of its slot as its process identifier.\<close>

definition procs_ok :: "proc list \<Rightarrow> bool" where
  "procs_ok t \<longleftrightarrow> length t = MAX_PROC \<and> (\<forall>i < MAX_PROC. p_state (t ! i) \<noteq> P_STATE_UNUSED \<longrightarrow> p_pid (t ! i) = int i)"

definition live :: "proc list \<Rightarrow> int set" where
  "live t = {int i | i. i < length t \<and> p_state (t ! i) \<noteq> P_STATE_UNUSED}"

lemma procs_okD: "procs_ok t \<Longrightarrow> i < length t \<Longrightarrow> p_state (t ! i) \<noteq> P_STATE_UNUSED \<Longrightarrow> p_pid (t ! i) = int i"
  by (simp add: procs_ok_def)

lemma pfind_ok:
  assumes "procs_ok t"
  shows "pfind pid t = (if pid \<in> live t then Some (nat pid) else None)"
proof (cases "pid \<in> live t")
  case True
  then obtain i where i: "pid = int i" "i < length t" "p_state (t ! i) \<noteq> P_STATE_UNUSED" by (auto simp: live_def)
  have ne: "p_pid (t ! j) \<noteq> pid" if "j < i" "p_state (t ! j) \<noteq> P_STATE_UNUSED" for j
    using that i assms by (simp add: procs_ok_def)
  have "p_pid (t ! i) = pid" using i assms by (simp add: procs_ok_def)
  with i(2,3) ne have "first_idx (\<lambda>p. p_pid p = pid \<and> p_state p \<noteq> P_STATE_UNUSED) t = Some i"
    unfolding first_idx_Some_iff by blast
  then show ?thesis using True i assms by (simp add: pfind_def procs_ok_def)
next
  case False
  have "\<not> (p_pid p = pid \<and> p_state p \<noteq> P_STATE_UNUSED)" if p: "p \<in> set t" for p
  proof -
    from p obtain i where i: "p = t ! i" "i < length t" by (auto simp: in_set_conv_nth)
    then show ?thesis using procs_okD [OF assms i(2)] False unfolding live_def by blast
  qed
  then have "first_idx (\<lambda>p. p_pid p = pid \<and> p_state p \<noteq> P_STATE_UNUSED) t = None" by simp
  then show ?thesis using False by (simp add: pfind_def del: first_idx_None)
qed

lemma bsd_proc_init_ok: "procs_ok bsd_proc_init" "live bsd_proc_init = {0}"
  by (auto simp: procs_ok_def live_def bsd_proc_init_def zero_proc_def nth_list_update split: if_splits)

lemma update_ok:
  assumes "procs_ok t" "p_state v \<noteq> P_STATE_UNUSED \<longrightarrow> p_pid v = int i"
  shows "procs_ok (t[i := v])"
  using assms by (cases "i < length t") (auto simp: procs_ok_def nth_list_update)

lemma live_update:
  assumes "i < length t"
  shows "live (t[i := v]) = (if p_state v = P_STATE_UNUSED then live t - {int i} else insert (int i) (live t))"
proof -
  have image: "live u = int ` {j. j < length u \<and> p_state (u ! j) \<noteq> P_STATE_UNUSED}" for u by (auto simp: live_def)
  have "{j. j < length (t[i := v]) \<and> p_state (t[i := v] ! j) \<noteq> P_STATE_UNUSED} =
      (if p_state v = P_STATE_UNUSED then {j. j < length t \<and> p_state (t ! j) \<noteq> P_STATE_UNUSED} - {i}
       else insert i {j. j < length t \<and> p_state (t ! j) \<noteq> P_STATE_UNUSED})"
    using assms by (auto simp: nth_list_update)
  then show ?thesis unfolding image by (simp add: image_set_diff)
qed

lemma proc_alloc_ok:
  assumes "procs_ok t" "proc_alloc t = Some (i, t')"
  shows "procs_ok t'" "int i \<notin> live t" "live t' = insert (int i) (live t)"
    "\<forall>j < i. int j \<in> live t" "p_pid (t' ! i) = int i"
proof -
  have f: "first_idx (\<lambda>p. p_state p = P_STATE_UNUSED) t = Some i"
    "t' = t[i := zero_proc\<lparr>p_pid := int i, p_state := P_STATE_EMBRYO\<rparr>]"
    using assms(2) by (auto simp: proc_alloc_def split: option.splits)
  then have i: "i < length t" "p_state (t ! i) = P_STATE_UNUSED" "\<forall>j < i. p_state (t ! j) \<noteq> P_STATE_UNUSED"
    by (auto simp: first_idx_Some_iff)
  show "procs_ok t'" unfolding f(2) by (rule update_ok [OF assms(1)]) simp
  show "int i \<notin> live t" using i by (auto simp: live_def)
  show "live t' = insert (int i) (live t)" using i f(2) by (simp add: live_update)
  show "\<forall>j < i. int j \<in> live t" using i by (auto simp: live_def)
  show "p_pid (t' ! i) = int i" using i f(2) by simp
qed

lemma proc_alloc_full:
  assumes "procs_ok t" "proc_alloc t = None"
  shows "live t = int ` {..<MAX_PROC}"
proof -
  have "\<forall>x \<in> set t. p_state x \<noteq> P_STATE_UNUSED"
    using assms(2) by (auto simp: proc_alloc_def split: option.splits)
  then have "p_state (t ! i) \<noteq> P_STATE_UNUSED" if "i < length t" for i using that by simp
  then have "live t = {int i | i. i < length t}" unfolding live_def by blast
  then show ?thesis using assms(1) by (auto simp: procs_ok_def)
qed

lemma proc_free_ok:
  assumes "procs_ok t" "pid \<in> live t"
  shows "procs_ok (proc_free (pfind pid t) t)" "live (proc_free (pfind pid t) t) = live t - {pid}"
proof -
  from assms(2) obtain i where i: "pid = int i" "i < length t" "p_state (t ! i) \<noteq> P_STATE_UNUSED" by (auto simp: live_def)
  then have "proc_free (pfind pid t) t = t[i := (t ! i)\<lparr>p_state := P_STATE_UNUSED, p_pid := 0\<rparr>]"
    using assms pfind_ok [OF assms(1)] by (auto simp: proc_free_def procs_ok_def)
  then show "procs_ok (proc_free (pfind pid t) t)" "live (proc_free (pfind pid t) t) = live t - {pid}"
    using update_ok [OF assms(1)] i by (simp_all add: live_update)
qed

lemma proc_do_ok: "procs_ok t \<Longrightarrow> procs_ok (proc_do c t)"
proof (cases c)
  case Proc_Alloc
  assume "procs_ok t"
  with Proc_Alloc show ?thesis by (cases "proc_alloc t") (auto dest: proc_alloc_ok(1))
next
  case (Proc_Free pid)
  assume "procs_ok t"
  with Proc_Free show ?thesis using proc_free_ok(1) [of t pid] pfind_ok [of t pid] by (cases "pid \<in> live t") (simp_all add: proc_free_def)
next
  case (Proc_Set pid st)
  assume ok: "procs_ok t"
  show ?thesis
  proof (cases "pid \<in> live t")
    case True
    then have "p_pid (t ! nat pid) = int (nat pid)" using ok by (auto simp: live_def procs_ok_def)
    then show ?thesis using Proc_Set pfind_ok [OF ok, of pid] True ok update_ok [OF ok, of _ "nat pid"] by simp
  qed (use Proc_Set pfind_ok [OF ok, of pid] ok in simp)
qed

lemma proc_run_ok: "procs_ok t \<Longrightarrow> procs_ok (proc_run cs t)"
  by (induction cs arbitrary: t) (simp_all add: proc_do_ok)

section \<open>Properties\<close>

text \<open>C32. The process table over any sequence of operations from its initialisation: a process identifier finds
  exactly the slot of the process that has it while it is alive and nothing otherwise; a new process gets the
  least identifier that no living process has and can be found by it; allocation fails only when all 1024
  processes are alive; a freed process is no longer found and all others still are.\<close>

theorem bsd_proc_table:
  assumes "t = proc_run cs bsd_proc_init"
  shows "(\<forall>pid. pfind pid t = (if pid \<in> live t then Some (nat pid) else None)) \<and>
         (case proc_alloc t of
            None \<Rightarrow> live t = int ` {..<1024}
          | Some (i, t') \<Rightarrow> int i \<notin> live t \<and> (\<forall>j < i. int j \<in> live t) \<and> live t' = insert (int i) (live t) \<and>
                             pfind (int i) t' = Some i) \<and>
         (\<forall>pid \<in> live t. live (proc_free (pfind pid t) t) = live t - {pid})"
proof -
  have ok: "procs_ok t" unfolding assms by (rule proc_run_ok [OF bsd_proc_init_ok(1)])
  have "case proc_alloc t of
            None \<Rightarrow> live t = int ` {..<1024}
          | Some (i, t') \<Rightarrow> int i \<notin> live t \<and> (\<forall>j < i. int j \<in> live t) \<and> live t' = insert (int i) (live t) \<and>
                             pfind (int i) t' = Some i"
  proof (cases "proc_alloc t")
    case None
    then show ?thesis using proc_alloc_full [OF ok None] by simp
  next
    case (Some x)
    then obtain i t' where a: "proc_alloc t = Some (i, t')" by (cases x) simp
    from proc_alloc_ok [OF ok a] show ?thesis using a pfind_ok by simp
  qed
  then show ?thesis using pfind_ok [OF ok] proc_free_ok(2) [OF ok] by blast
qed

theorem bsd_proc_table_witness:
  "pfind 1 (proc_run [Proc_Alloc, Proc_Alloc, Proc_Free 1] bsd_proc_init) =
     (if 1 \<in> live (proc_run [Proc_Alloc, Proc_Alloc, Proc_Free 1] bsd_proc_init) then Some 1 else None)"
  using bsd_proc_table [OF refl, of "[Proc_Alloc, Proc_Alloc, Proc_Free 1]"] by (simp del: proc_run.simps)

end
