(* ===== verification/Kernel.thy ===== *)
theory Kernel
  imports PosixFiles KernelArgs LazyFs BsdProc
begin

text \<open>
  The kernel from its command line to its exit (\<^verbatim>\<open>src/mirix/main.c\<close>, \<^verbatim>\<open>src/mirix/kernel.c\<close>), with what it calls on the
  way: the loader of programs (\<^verbatim>\<open>src/mirix/loader/aout_loader.c\<close>) and the modules (\<^verbatim>\<open>src/modules\<close>). The build
  without the Mach integration is modelled. What is printed is left out; a panic ends the process with status 0.
\<close>

section \<open>State\<close>

datatype kernel_status =
    MIRIX_KERNEL_UNINITIALIZED | MIRIX_KERNEL_INITIALIZING | MIRIX_KERNEL_RUNNING | MIRIX_KERNEL_SHUTTING_DOWN
  | MIRIX_KERNEL_STOPPED

text \<open>\<open>k_args\<close> is what the global pointer to the arguments points to; \<open>k_heap\<close> are the live addresses.\<close>

record 'w kernel =
  k_status :: kernel_status
  k_pid :: u32
  k_args :: "kernel_args option"
  k_heap :: "nat set"
  k_posix :: "'w posix"
  k_fs :: superblock
  k_procs :: "proc list"

text \<open>What the kernel gets from outside besides the host: \<open>malloc\<close>, the memory and the semaphore the IPC system
  asks for, and the lines \<^verbatim>\<open>fgets\<close> reads from the console.\<close>

record boot_env =
  be_malloc :: heap_malloc
  be_ipc_memory :: "mirix_message list option"
  be_ipc_semaphore :: "nat option"
  be_console :: "string list"

abbreviation (input) k_sys :: "'w kernel \<Rightarrow> 'w sys" where "k_sys k \<equiv> px_sys (k_posix k)"

abbreviation (input) k_world :: "'w kernel \<Rightarrow> 'w" where "k_world k \<equiv> sys_world (k_sys k)"

definition set_sys :: "'w sys \<Rightarrow> 'w kernel \<Rightarrow> 'w kernel" where
  "set_sys y k = k\<lparr>k_posix := (k_posix k)\<lparr>px_sys := y\<rparr>\<rparr>"

definition set_kworld :: "'w \<Rightarrow> 'w kernel \<Rightarrow> 'w kernel" where
  "set_kworld w k = set_sys ((k_sys k)\<lparr>sys_world := w\<rparr>) k"

definition kernel_panic :: "string \<Rightarrow> 'w kernel \<Rightarrow> 'a outcome" where
  "kernel_panic message k = Inl (Exits 0)"

section \<open>Programs\<close>

record aout_info =
  ao_magic :: u32
  ao_text_size :: u32
  ao_data_size :: u32
  ao_bss_size :: u32
  ao_entry_point :: u32
  ao_text_reloc_size :: u32
  ao_data_reloc_size :: u32

definition is_supported_magic :: "u32 \<Rightarrow> bool" where
  "is_supported_magic magic \<longleftrightarrow> magic = 0x0107 \<or> magic = 0x0108 \<or> magic = 0x010B"

definition mirix_aout_probe :: "'w host_os \<Rightarrow> string option \<Rightarrow> 'w \<Rightarrow> aout_info option \<times> 'w" where
  "mirix_aout_probe os path w =
     (case path of
        None \<Rightarrow> (None, w)
      | Some p \<Rightarrow>
          (case os_open os p 0x80000 0 w of
             (fd, w1) \<Rightarrow>
               if fd = - 1 then (None, w1)
               else (case os_read os fd 28 w1 of
                       (n, bs, w2) \<Rightarrow>
                         (let w3 = snd (os_close os fd w2) in
                          if n \<noteq> 28 \<or> \<not> is_supported_magic (get32 0 bs) then (None, w3)
                          else (Some \<lparr>ao_magic = get32 0 bs, ao_text_size = get32 4 bs, ao_data_size = get32 8 bs,
                                      ao_bss_size = get32 12 bs, ao_entry_point = get32 16 bs,
                                      ao_text_reloc_size = get32 20 bs, ao_data_reloc_size = get32 24 bs\<rparr>, w3)))))"

text \<open>A program that starts replaces the process.\<close>

definition mirix_aout_launch :: "'w host_os \<Rightarrow> string option \<Rightarrow> string list \<Rightarrow> 'w \<Rightarrow> (int \<times> 'w) outcome" where
  "mirix_aout_launch os path argv w =
     (case path of
        None \<Rightarrow> Inr (- 1, w)
      | Some p \<Rightarrow> (case os_exec os p argv w of None \<Rightarrow> Inl (Execs p) | Some r \<Rightarrow> Inr r))"

definition kernel_launch_binary :: "'w host_os \<Rightarrow> string option \<Rightarrow> string list \<Rightarrow> 'w \<Rightarrow> (int \<times> 'w) outcome" where
  "kernel_launch_binary os path argv w =
     (case path of
        None \<Rightarrow> Inr (- 1, w)
      | Some p \<Rightarrow>
          (case mirix_aout_probe os path w of
             (Some info, w1) \<Rightarrow> mirix_aout_launch os path argv w1
           | (None, w1) \<Rightarrow> (case os_exec os p argv w1 of None \<Rightarrow> Inl (Execs p) | Some r \<Rightarrow> Inr r)))"

definition kernel_run_program_and_wait :: "'w host_os \<Rightarrow> string \<Rightarrow> 'w kernel \<Rightarrow> 'w kernel outcome" where
  "kernel_run_program_and_wait os path k =
     (case os_fork os (k_world k) of
        (pid, w) \<Rightarrow>
          if pid = 0 then
            (case kernel_launch_binary os (Some path) [path] w of
               Inl e \<Rightarrow> Inl e
             | Inr (r, w1) \<Rightarrow> kernel_panic ''Failed to execute binary'' (set_kworld w1 k))
          else if 0 < pid then
            Inr ((set_kworld (snd (os_waitpid os pid w)) k)\<lparr>k_status := MIRIX_KERNEL_SHUTTING_DOWN\<rparr>)
          else kernel_panic ''Failed to fork for init program'' (set_kworld w k))"

definition entry_program :: "kernel_args \<Rightarrow> cstr option" where
  "entry_program a = (case command_program a of Some p \<Rightarrow> Some p | None \<Rightarrow> init_program a)"

definition execute_init_program :: "'w host_os \<Rightarrow> 'w kernel \<Rightarrow> 'w kernel outcome" where
  "execute_init_program os k =
     (case k_args k of
        None \<Rightarrow> kernel_panic ''No kernel arguments available'' k
      | Some a \<Rightarrow>
          (case entry_program a of
             None \<Rightarrow> kernel_panic ''No init program available'' k
           | Some p \<Rightarrow> kernel_run_program_and_wait os (str_value p) k))"

text \<open>The debug shell only prints; it ends at the end of the console input or after the line \<^verbatim>\<open>exit\<close>. It answers
  the lines that are left.\<close>

fun mirix_debug_shell :: "string list \<Rightarrow> string list" where
  "mirix_debug_shell [] = []"
| "mirix_debug_shell (l # ls) =
     (if takeWhile (\<lambda>c. c \<noteq> CHR 0x0A) l = ''exit'' then ls else mirix_debug_shell ls)"

text \<open>Every path of the main loop returns before the event loop at its end is reached.\<close>

definition kernel_main_loop :: "'w host_os \<Rightarrow> string list \<Rightarrow> 'w kernel \<Rightarrow> (string list \<times> 'w kernel) outcome" where
  "kernel_main_loop os console k =
     (case k_args k of
        None \<Rightarrow> Inr (mirix_debug_shell console, k)
      | Some a \<Rightarrow>
          (if root_filesystem a = None then Inr (mirix_debug_shell console, k)
           else (case entry_program a of
                   None \<Rightarrow> Inr (mirix_debug_shell console, k)
                 | Some p \<Rightarrow>
                     if os_stat os (str_value p) (k_world k) \<noteq> None
                     then (case execute_init_program os k of Inl e \<Rightarrow> Inl e | Inr k' \<Rightarrow> Inr (console, k'))
                     else Inr (mirix_debug_shell console, k))))"

section \<open>Modules\<close>

text \<open>The test for an empty string compares a character with the constant \<^verbatim>\<open>'\\0'\<close>, which has two characters and
  the value 23600.\<close>

definition needs_default :: "cstr option \<Rightarrow> bool" where
  "needs_default p =
     (case p of
        None \<Rightarrow> True
      | Some s \<Rightarrow> (case str_value s of [] \<Rightarrow> 0 | c # cs \<Rightarrow> (of_char c :: int)) = 23600)"

definition dos_personality_apply_defaults ::
  "heap_malloc \<Rightarrow> kernel_args option \<Rightarrow> nat set \<Rightarrow> kernel_args option \<times> nat set" where
  "dos_personality_apply_defaults malloc args h =
     (case args of
        None \<Rightarrow> (None, h)
      | Some a \<Rightarrow>
          (case (if needs_default (root_filesystem a)
                 then (case strdup malloc ''ROOT'' h of (p, h1) \<Rightarrow> (a\<lparr>root_filesystem := p\<rparr>, h1)) else (a, h)) of
             (a1, h1) \<Rightarrow>
               (case (if needs_default (lazyfs_backing_file a1)
                      then (case strdup malloc ''./dos_lazyfs.img'' h1 of (p, h2) \<Rightarrow> (a1\<lparr>lazyfs_backing_file := p\<rparr>, h2))
                      else (a1, h1)) of
                  (a2, h2) \<Rightarrow> (Some a2, h2))))"

datatype kernel_module = Dos_Personality

definition kernel_modules :: "kernel_module list" where
  "kernel_modules = [Dos_Personality]"

fun module_init :: "heap_malloc \<Rightarrow> kernel_module \<Rightarrow> 'w kernel \<Rightarrow> int \<times> 'w kernel" where
  "module_init malloc Dos_Personality k =
     (case dos_personality_apply_defaults malloc (k_args k) (k_heap k) of
        (a, h) \<Rightarrow> (0, k\<lparr>k_args := a, k_heap := h\<rparr>))"

fun initialize_modules :: "heap_malloc \<Rightarrow> kernel_module list \<Rightarrow> 'w kernel \<Rightarrow> int \<times> 'w kernel" where
  "initialize_modules malloc [] k = (0, k)"
| "initialize_modules malloc (x # xs) k =
     (case module_init malloc x k of
        (r, k') \<Rightarrow> if r \<noteq> 0 then (r, k') else initialize_modules malloc xs k')"

definition initialize_kernel_modules :: "heap_malloc \<Rightarrow> 'w kernel \<Rightarrow> int \<times> 'w kernel" where
  "initialize_kernel_modules malloc = initialize_modules malloc kernel_modules"

definition kernel_module_count :: nat where
  "kernel_module_count = length kernel_modules"

definition get_kernel_module :: "nat \<Rightarrow> kernel_module option" where
  "get_kernel_module i = (if kernel_module_count \<le> i then None else Some (kernel_modules ! i))"

section \<open>Boot and shutdown\<close>

text \<open>The services, in the order in which they are started.\<close>

definition start_services :: "'w host_os \<Rightarrow> boot_env \<Rightarrow> 'w kernel \<Rightarrow> 'w kernel outcome" where
  "start_services os env k =
     (case host_interface_init os (sys_host (k_sys k)) (k_world k) of
        (r, hs, w) \<Rightarrow>
          (let k = set_sys ((k_sys k)\<lparr>sys_host := hs, sys_world := w\<rparr>) k in
           if r \<noteq> 0 then kernel_panic ''[err] Failed to initialize host interface'' k
           else
             (case ipc_system_init (be_ipc_memory env) (be_ipc_semaphore env) (sys_ipc (k_sys k)) of
                (r, ipc) \<Rightarrow>
                  (let k = set_sys ((k_sys k)\<lparr>sys_ipc := ipc\<rparr>) k in
                   if r \<noteq> 0 then kernel_panic ''[err] Failed to initialize IPC system'' k
                   else
                     (case syscall_init (sys_calls (k_sys k)) of
                        (r, sc) \<Rightarrow>
                          (let k = set_sys ((k_sys k)\<lparr>sys_calls := sc\<rparr>) k in
                           if r \<noteq> 0 then kernel_panic ''[err] Failed to initialize syscall system'' k
                           else
                             (case posix_init (k_posix k) of
                                (r, px) \<Rightarrow>
                                  (let k = k\<lparr>k_posix := px\<rparr> in
                                   if r \<noteq> 0 then kernel_panic ''[err] Failed to initialize POSIX compatibility layer'' k
                                   else
                                     (case initialize_kernel_modules (be_malloc env) k of
                                        (r, k) \<Rightarrow>
                                          if r \<noteq> 0 then kernel_panic ''[err] Failed to initialize kernel modules'' k
                                          else Inr (k\<lparr>k_procs := bsd_proc_init\<rparr>))))))))))"

definition is_directory :: "'w host_os \<Rightarrow> string \<Rightarrow> 'w \<Rightarrow> bool" where
  "is_directory os p w \<longleftrightarrow> os_stat os p w = Some True"

text \<open>The paths are cut to the size of their buffers.\<close>

definition root_path :: "string \<Rightarrow> string \<Rightarrow> string" where
  "root_path root dir = take 511 (root @ dir)"

definition mount_root :: "'w host_os \<Rightarrow> 'w kernel \<Rightarrow> 'w kernel outcome" where
  "mount_root os k =
     (case k_args k of
        None \<Rightarrow> kernel_panic ''No root filesystem specified'' k
      | Some a \<Rightarrow>
          (case root_filesystem a of
             None \<Rightarrow> kernel_panic ''No root filesystem specified'' k
           | Some root \<Rightarrow>
               if os_stat os (str_value root) (k_world k) = None
               then kernel_panic ''Root filesystem directory does not exist'' k
               else if \<not> is_directory os (str_value root) (k_world k)
               then kernel_panic ''Root filesystem path is not a directory'' k
               else if \<not> is_directory os (root_path (str_value root) ''/bin'') (k_world k)
               then kernel_panic ''Root filesystem missing /bin directory'' k
               else if \<not> is_directory os (root_path (str_value root) ''/etc'') (k_world k)
               then kernel_panic ''Root filesystem missing /etc directory'' k
               else if \<not> is_directory os (root_path (str_value root) ''/lib'') (k_world k)
               then kernel_panic ''Root filesystem missing /lib directory'' k
               else if \<not> is_directory os (root_path (str_value root) ''/tmp'') (k_world k)
               then kernel_panic ''Root filesystem missing /tmp directory'' k
               else (case lazyfs_init os (map_option str_value (lazyfs_backing_file a)) True (k_fs k) (k_world k) of
                       (r, sb, w) \<Rightarrow>
                         (let k = set_kworld w (k\<lparr>k_fs := sb\<rparr>) in
                          if r \<noteq> 0 then kernel_panic ''Failed to initialize root filesystem'' k else Inr k))))"

definition mirix_kernel_shutdown :: "'w host_os \<Rightarrow> 'w kernel \<Rightarrow> 'w kernel outcome" where
  "mirix_kernel_shutdown os k =
     (case lazyfs_cleanup os (k_fs k) (k_world k) of
        (sb, w) \<Rightarrow>
          (case ipc_system_cleanup (sys_ipc (k_sys k)) of
             Inl e \<Rightarrow> Inl e
           | Inr (fds, ipc) \<Rightarrow>
               (case host_interface_cleanup os (sys_host (k_sys k)) (fold (\<lambda>fd w. snd (os_close os fd w)) fds w) of
                  (hs, w') \<Rightarrow>
                    Inr ((set_sys ((k_sys k)\<lparr>sys_host := hs, sys_ipc := ipc, sys_calls := syscall_cleanup (sys_calls (k_sys k)),
                                             sys_world := w'\<rparr>)
                           (k\<lparr>k_posix := posix_cleanup (k_posix k)\<rparr>))\<lparr>k_fs := sb, k_status := MIRIX_KERNEL_STOPPED\<rparr>))))"

definition mirix_kernel_main_with_args ::
  "'w host_os \<Rightarrow> boot_env \<Rightarrow> kernel_args option \<Rightarrow> 'w kernel \<Rightarrow> (int \<times> 'w kernel) outcome" where
  "mirix_kernel_main_with_args os env args k =
     (case start_services os env
             (k\<lparr>k_args := args, k_status := MIRIX_KERNEL_INITIALIZING, k_pid := os_getpid os (k_world k)\<rparr>) of
        Inl e \<Rightarrow> Inl e
      | Inr k1 \<Rightarrow>
          (case mount_root os k1 of
             Inl e \<Rightarrow> Inl e
           | Inr k2 \<Rightarrow>
               (case kernel_main_loop os (be_console env) (k2\<lparr>k_status := MIRIX_KERNEL_RUNNING\<rparr>) of
                  Inl e \<Rightarrow> Inl e
                | Inr (console, k3) \<Rightarrow>
                    (case mirix_kernel_shutdown os k3 of
                       Inl e \<Rightarrow> Inl e
                     | Inr k4 \<Rightarrow>
                         (case free_kernel_args (k_args k4) (k_heap k4) of
                            Inl e \<Rightarrow> Inl e
                          | Inr h \<Rightarrow> Inr (0, k4\<lparr>k_heap := h\<rparr>))))))"

text \<open>The older entry point frees the arguments once more.\<close>

definition mirix_kernel_main ::
  "'w host_os \<Rightarrow> boot_env \<Rightarrow> (char \<times> string) list \<Rightarrow> 'w kernel \<Rightarrow> (int \<times> 'w kernel) outcome" where
  "mirix_kernel_main os env opts k =
     (case parse_kernel_args (be_malloc env) opts (k_heap k) of
        Inl e \<Rightarrow> Inl e
      | Inr (None, h) \<Rightarrow> Inr (1, k\<lparr>k_heap := h\<rparr>)
      | Inr (Some a, h) \<Rightarrow>
          (case mirix_kernel_main_with_args os env (Some a) (k\<lparr>k_heap := h\<rparr>) of
             Inl e \<Rightarrow> Inl e
           | Inr (r, k') \<Rightarrow>
               (case free_kernel_args (k_args k') (k_heap k') of Inl e \<Rightarrow> Inl e | Inr h' \<Rightarrow> Inr (r, k'\<lparr>k_heap := h'\<rparr>))))"

text \<open>\<^verbatim>\<open>main\<close>.\<close>

definition main ::
  "'w host_os \<Rightarrow> boot_env \<Rightarrow> (char \<times> string) list \<Rightarrow> 'w kernel \<Rightarrow> (int \<times> 'w kernel) outcome" where
  "main os env opts k =
     (case parse_kernel_args (be_malloc env) opts (k_heap k) of
        Inl e \<Rightarrow> Inl e
      | Inr (None, h) \<Rightarrow> Inr (1, k\<lparr>k_heap := h\<rparr>)
      | Inr (Some a, h) \<Rightarrow> mirix_kernel_main_with_args os env (Some a) (k\<lparr>k_heap := h\<rparr>))"

section \<open>The stages\<close>

text \<open>Nothing is running.\<close>

definition services_off :: "'w kernel \<Rightarrow> bool" where
  "services_off k \<longleftrightarrow>
     \<not> host_initialized (sys_host (k_sys k)) \<and> \<not> ipc_initialized (sys_ipc (k_sys k)) \<and>
     \<not> sc_initialized (sys_calls (k_sys k)) \<and> \<not> px_initialized (k_posix k)"

text \<open>Everything is running.\<close>

definition services_on :: "int \<Rightarrow> 'w kernel \<Rightarrow> bool" where
  "services_on fd k \<longleftrightarrow>
     host_initialized (sys_host (k_sys k)) \<and> kqueue_fd (sys_host (k_sys k)) = fd \<and>
     ipc_initialized (sys_ipc (k_sys k)) \<and> shared_memory (sys_ipc (k_sys k)) = Live \<and>
     shm_fd (sys_ipc (k_sys k)) = - 1 \<and> (\<exists>n. message_sem (sys_ipc (k_sys k)) = Sem_Open n) \<and>
     sc_initialized (sys_calls (k_sys k)) \<and> px_initialized (k_posix k)"

lemma set_sys_simps [simp]:
  "k_posix (set_sys y k) = (k_posix k)\<lparr>px_sys := y\<rparr>" "k_args (set_sys y k) = k_args k" "k_heap (set_sys y k) = k_heap k"
  "k_fs (set_sys y k) = k_fs k" "k_status (set_sys y k) = k_status k" "k_procs (set_sys y k) = k_procs k"
  "k_pid (set_sys y k) = k_pid k"
  by (simp_all add: set_sys_def)

lemma set_kworld_simps [simp]:
  "k_posix (set_kworld w k) = (k_posix k)\<lparr>px_sys := (k_sys k)\<lparr>sys_world := w\<rparr>\<rparr>" "k_args (set_kworld w k) = k_args k"
  "k_heap (set_kworld w k) = k_heap k" "k_fs (set_kworld w k) = k_fs k" "k_status (set_kworld w k) = k_status k"
  "k_procs (set_kworld w k) = k_procs k"
  by (simp_all add: set_kworld_def)

lemma needs_default_Some [simp]: "\<not> needs_default (Some s)"
proof (cases "str_value s")
  case (Cons c cs)
  have "(of_char c :: int) < 256" by (metis of_char_mod_256 pos_mod_bound zero_less_numeral)
  with Cons show ?thesis by (simp add: needs_default_def)
qed (simp add: needs_default_def)

lemma modules_keep:
  assumes "k_args k = Some a" "root_filesystem a = Some r" "lazyfs_backing_file a = Some f"
  shows "initialize_kernel_modules malloc k = (0, k)"
  using assms by (simp add: initialize_kernel_modules_def kernel_modules_def dos_personality_apply_defaults_def)

lemma start_services_ok:
  assumes "services_off k" "os_kqueue os (k_world k) = (fd, w)" "fd \<noteq> - 1"
    "be_ipc_memory env = Some ms" "be_ipc_semaphore env = Some v"
    "k_args k = Some a" "root_filesystem a = Some r" "lazyfs_backing_file a = Some f"
  obtains k' where "start_services os env k = Inr k'" "services_on fd k'" "k_world k' = w" "k_args k' = k_args k"
    "k_heap k' = k_heap k" "k_fs k' = k_fs k" "k_procs k' = bsd_proc_init" "k_pid k' = k_pid k"
proof -
  have m: "initialize_kernel_modules (be_malloc env) k1 = (0, k1)" if "k_args k1 = Some a" for k1
    by (rule modules_keep [OF that assms(7,8)])
  have "case start_services os env k of
      Inl e \<Rightarrow> False
    | Inr k' \<Rightarrow> services_on fd k' \<and> k_world k' = w \<and> k_args k' = k_args k \<and> k_heap k' = k_heap k \<and> k_fs k' = k_fs k \<and>
        k_procs k' = bsd_proc_init \<and> k_pid k' = k_pid k"
    using assms
    by (simp add: start_services_def services_off_def services_on_def host_interface_init_def ipc_system_init_def
        syscall_init_def posix_init_def Let_def m)
  then show thesis by (cases "start_services os env k") (simp_all add: that)
qed

lemma mount_root_ok:
  assumes "k_args k = Some a" "root_filesystem a = Some r"
    "is_directory os (str_value r) (k_world k)"
    "\<forall>d \<in> {''/bin'', ''/etc'', ''/lib'', ''/tmp''}. is_directory os (root_path (str_value r) d) (k_world k)"
    "lazyfs_init os (map_option str_value (lazyfs_backing_file a)) True (k_fs k) (k_world k) = (0, sb, w)"
  shows "mount_root os k = Inr (set_kworld w (k\<lparr>k_fs := sb\<rparr>))"
  using assms by (simp add: mount_root_def is_directory_def Let_def)

lemma main_loop_runs:
  assumes "k_args k = Some a" "root_filesystem a \<noteq> None" "entry_program a = Some p"
    "os_stat os (str_value p) (k_world k) \<noteq> None" "os_fork os (k_world k) = (pid, w)" "0 < pid"
  shows "kernel_main_loop os console k =
     Inr (console, (set_kworld (snd (os_waitpid os pid w)) k)\<lparr>k_status := MIRIX_KERNEL_SHUTTING_DOWN\<rparr>)"
  using assms by (auto simp: kernel_main_loop_def execute_init_program_def kernel_run_program_and_wait_def)

text \<open>The memory the IPC system and the host interface hold is given back too.\<close>

definition stopped :: "'w kernel \<Rightarrow> bool" where
  "stopped k \<longleftrightarrow>
     services_off k \<and> k_status k = MIRIX_KERNEL_STOPPED \<and> kqueue_fd (sys_host (k_sys k)) = - 1 \<and>
     shared_memory (sys_ipc (k_sys k)) = Freed \<and> message_sem (sys_ipc (k_sys k)) = Sem_Closed \<and> k_fs k = zero_superblock"

lemma shutdown_ok:
  assumes "services_on fd k" "fd \<noteq> - 1"
  obtains k' where "mirix_kernel_shutdown os k = Inr k'" "stopped k'" "k_args k' = k_args k" "k_heap k' = k_heap k"
    "k_world k' = snd (os_close os fd (snd (lazyfs_cleanup os (k_fs k) (k_world k))))"
proof -
  obtain n where n: "message_sem (sys_ipc (k_sys k)) = Sem_Open n" using assms(1) by (auto simp: services_on_def)
  have "case mirix_kernel_shutdown os k of
      Inl e \<Rightarrow> False
    | Inr k' \<Rightarrow> stopped k' \<and> k_args k' = k_args k \<and> k_heap k' = k_heap k \<and>
        k_world k' = snd (os_close os fd (snd (lazyfs_cleanup os (k_fs k) (k_world k))))"
    using assms n
    by (simp add: mirix_kernel_shutdown_def services_on_def services_off_def stopped_def ipc_system_cleanup_def
        host_interface_cleanup_def lazyfs_cleanup_def syscall_cleanup_def posix_cleanup_def)
  then show thesis by (cases "mirix_kernel_shutdown os k") (simp_all add: that)
qed

section \<open>Properties\<close>

lemma run_with_args:
  assumes "services_off k" "os_kqueue os (k_world k) = (fd, w1)" "fd \<noteq> - 1"
    "be_ipc_memory env = Some ms" "be_ipc_semaphore env = Some v"
    "root_filesystem a = Some r" "lazyfs_backing_file a = Some f" "entry_program a = Some p"
    "\<forall>d \<in> {[], ''/bin'', ''/etc'', ''/lib'', ''/tmp''}. is_directory os (root_path (str_value r) d) w1" "length (str_value r) \<le> 511"
    "lazyfs_init os (Some (str_value f)) True (k_fs k) w1 = (0, sb, w2)"
    "os_stat os (str_value p) w2 \<noteq> None" "os_fork os w2 = (pid, w3)" "0 < pid"
  obtains k' where "stopped k'" "k_heap k' = k_heap k" "k_args k' = Some a"
    "k_world k' = snd (os_close os fd (snd (lazyfs_cleanup os sb (snd (os_waitpid os pid w3)))))"
    "mirix_kernel_main_with_args os env (Some a) k =
       (case free_kernel_args (Some a) (k_heap k) of Inl e \<Rightarrow> Inl e | Inr h \<Rightarrow> Inr (0, k'\<lparr>k_heap := h\<rparr>))"
proof -
  let ?k = "k\<lparr>k_args := Some a, k_status := MIRIX_KERNEL_INITIALIZING, k_pid := os_getpid os (k_world k)\<rparr>"
  have off: "services_off ?k" using assms(1) by (simp add: services_off_def)
  obtain k1 where k1: "start_services os env ?k = Inr k1" "services_on fd k1" "k_world k1 = w1" "k_args k1 = Some a"
    "k_heap k1 = k_heap k" "k_fs k1 = k_fs k"
    by (rule start_services_ok [OF off _ assms(3,4,5) _ assms(6,7)]) (use assms(2) in simp_all)
  let ?k2 = "set_kworld w2 (k1\<lparr>k_fs := sb\<rparr>)"
  have k2: "mount_root os k1 = Inr ?k2"
    by (rule mount_root_ok [OF k1(4) assms(6)]) (use assms(7,9,10,11) k1(3,6) in \<open>simp_all add: root_path_def\<close>)
  let ?k3 = "(set_kworld (snd (os_waitpid os pid w3)) (?k2\<lparr>k_status := MIRIX_KERNEL_RUNNING\<rparr>))\<lparr>k_status := MIRIX_KERNEL_SHUTTING_DOWN\<rparr>"
  have k3: "kernel_main_loop os (be_console env) (?k2\<lparr>k_status := MIRIX_KERNEL_RUNNING\<rparr>) = Inr (be_console env, ?k3)"
    by (rule main_loop_runs [OF _ _ assms(8) _ _ assms(14)]) (use assms(6,12,13) k1(4) in simp_all)
  have on: "services_on fd ?k3" using k1(2) by (simp add: services_on_def)
  obtain k4 where k4: "mirix_kernel_shutdown os ?k3 = Inr k4" "stopped k4" "k_args k4 = k_args ?k3" "k_heap k4 = k_heap ?k3"
    "k_world k4 = snd (os_close os fd (snd (lazyfs_cleanup os (k_fs ?k3) (k_world ?k3))))"
    by (rule shutdown_ok [OF on assms(3)])
  show thesis
    by (rule that [OF k4(2)]) (use k1 k2 k3 k4 in \<open>simp_all add: mirix_kernel_main_with_args_def\<close>)
qed

text \<open>A host on which the kernel boots with the given options and runs its program: the event queue is \<open>fd\<close>, the root
  file system is complete and attached with superblock \<open>sb\<close>, the program is there and its process is \<open>pid\<close>.\<close>

definition boots ::
  "'w host_os \<Rightarrow> boot_env \<Rightarrow> (char \<times> string) list \<Rightarrow> 'w kernel \<Rightarrow> int \<Rightarrow> superblock \<Rightarrow> int \<Rightarrow> 'w \<Rightarrow> bool" where
  "boots os env opts k fd sb pid w3 \<longleftrightarrow>
     (\<exists>w1 w2 r f p. services_off k \<and> os_kqueue os (k_world k) = (fd, w1) \<and> fd \<noteq> - 1 \<and>
        be_ipc_memory env \<noteq> None \<and> be_ipc_semaphore env \<noteq> None \<and>
        meant_string (CHR ''r'') opts = Some r \<and> meant_string (CHR ''f'') opts = Some f \<and>
        (case meant_string (CHR ''C'') opts of Some c \<Rightarrow> Some c | None \<Rightarrow> meant_string (CHR ''i'') opts) = Some p \<and>
        length r \<le> 511 \<and> (\<forall>d \<in> {[], ''/bin'', ''/etc'', ''/lib'', ''/tmp''}. is_directory os (root_path r d) w1) \<and>
        lazyfs_init os (Some f) True (k_fs k) w1 = (0, sb, w2) \<and> os_stat os p w2 \<noteq> None \<and>
        os_fork os w2 = (pid, w3) \<and> 0 < pid)"

lemma means_strings:
  assumes "means opts a"
  shows "map_option str_value (root_filesystem a) = meant_string (CHR ''r'') opts"
    "map_option str_value (lazyfs_backing_file a) = meant_string (CHR ''f'') opts"
    "map_option str_value (entry_program a) =
       (case meant_string (CHR ''C'') opts of Some c \<Rightarrow> Some c | None \<Rightarrow> meant_string (CHR ''i'') opts)"
proof -
  have s: "map_option str_value (arg_field c a) = meant_string c opts" if "c \<in> set string_letters" for c
    using assms that by (simp add: means_def)
  show "map_option str_value (root_filesystem a) = meant_string (CHR ''r'') opts"
    "map_option str_value (lazyfs_backing_file a) = meant_string (CHR ''f'') opts"
    using s [of "CHR ''r''"] s [of "CHR ''f''"] by (simp_all add: letters_set arg_field_def)
  show "map_option str_value (entry_program a) =
       (case meant_string (CHR ''C'') opts of Some c \<Rightarrow> Some c | None \<Rightarrow> meant_string (CHR ''i'') opts)"
    using s [of "CHR ''C''", symmetric] s [of "CHR ''i''", symmetric]
    by (cases "command_program a") (simp_all add: letters_set arg_field_def entry_program_def)
qed

lemma parse_boot:
  assumes "malloc_ok malloc" "\<forall>h n. malloc h n \<noteq> 0" "finite h" "accepted opts"
    "distinct (filter (\<lambda>c. c \<in> set string_letters) (map fst opts))"
  obtains a h' where "parse_kernel_args malloc opts h = Inr (Some a, h')" "means opts a" "free_kernel_args (Some a) h' = Inr h"
    "ka_self a \<notin> h"
proof -
  obtain r h' where r: "parse_kernel_args malloc opts h = Inr (r, h')"
    "case r of None \<Rightarrow> \<not> accepted opts | Some a \<Rightarrow> accepted opts \<and> means opts a \<and> args_mem h opts a h'"
    using parse_kernel_args_ok [OF assms(1-3), of opts] by blast
  with assms(4) obtain a where a: "r = Some a" "means opts a" "args_mem h opts a h'" by (cases r) auto
  have "ka_self a \<notin> h" using a(3) unfolding args_mem_def by blast
  with r(1) a free_kernel_args_ok [OF a(3) assms(5)] show thesis by (intro that) simp_all
qed

lemma boot_run:
  assumes "malloc_ok (be_malloc env)" "\<forall>h n. be_malloc env h n \<noteq> 0" "finite (k_heap k)" "accepted opts"
    "distinct (filter (\<lambda>c. c \<in> set string_letters) (map fst opts))" "boots os env opts k fd sb pid w"
  obtains a h k' where "parse_kernel_args (be_malloc env) opts (k_heap k) = Inr (Some a, h)"
    "mirix_kernel_main_with_args os env (Some a) (k\<lparr>k_heap := h\<rparr>) = Inr (0, k')" "stopped k'" "k_heap k' = k_heap k"
    "k_world k' = snd (os_close os fd (snd (lazyfs_cleanup os sb (snd (os_waitpid os pid w)))))"
    "k_args k' = Some a" "ka_self a \<notin> k_heap k"
proof -
  obtain a h where a: "parse_kernel_args (be_malloc env) opts (k_heap k) = Inr (Some a, h)" "means opts a"
    "free_kernel_args (Some a) h = Inr (k_heap k)" "ka_self a \<notin> k_heap k"
    by (rule parse_boot [OF assms(1-5)])
  obtain w1 w2 r f p ms v where b: "services_off k" "os_kqueue os (k_world k) = (fd, w1)" "fd \<noteq> - 1"
    "be_ipc_memory env = Some ms" "be_ipc_semaphore env = Some v"
    "meant_string (CHR ''r'') opts = Some r" "meant_string (CHR ''f'') opts = Some f"
    "(case meant_string (CHR ''C'') opts of Some c \<Rightarrow> Some c | None \<Rightarrow> meant_string (CHR ''i'') opts) = Some p"
    "length r \<le> 511" "\<forall>d \<in> {[], ''/bin'', ''/etc'', ''/lib'', ''/tmp''}. is_directory os (root_path r d) w1"
    "lazyfs_init os (Some f) True (k_fs k) w1 = (0, sb, w2)" "os_stat os p w2 \<noteq> None"
    "os_fork os w2 = (pid, w)" "0 < pid"
    using assms(6) unfolding boots_def by (elim exE conjE) (use option.exhaust in metis)
  obtain cr cf cp where c: "root_filesystem a = Some cr" "str_value cr = r" "lazyfs_backing_file a = Some cf" "str_value cf = f"
    "entry_program a = Some cp" "str_value cp = p"
    using means_strings [OF a(2)] b(6-8) by auto
  let ?k = "k\<lparr>k_heap := h\<rparr>"
  have off: "services_off ?k" using b(1) by (simp add: services_off_def)
  obtain k' where k': "stopped k'" "k_args k' = Some a"
    "k_world k' = snd (os_close os fd (snd (lazyfs_cleanup os sb (snd (os_waitpid os pid w)))))"
    "mirix_kernel_main_with_args os env (Some a) ?k =
       (case free_kernel_args (Some a) (k_heap ?k) of Inl e \<Rightarrow> Inl e | Inr h \<Rightarrow> Inr (0, k'\<lparr>k_heap := h\<rparr>))"
    by (rule run_with_args [OF off _ b(3-5) c(1,3,5), where ?w1.0 = w1 and ?w2.0 = w2 and ?w3.0 = w and sb = sb and pid = pid])
      (use b c in \<open>simp_all\<close>)
  show thesis
    by (rule that [OF a(1), of "k'\<lparr>k_heap := k_heap k\<rparr>"])
      (use k' a in \<open>simp_all add: stopped_def services_off_def\<close>)
qed

text \<open>A kernel and a host to run: the file of the host is empty.\<close>

definition demo_env :: boot_env where
  "demo_env = \<lparr>be_malloc = demo_malloc, be_ipc_memory = Some [], be_ipc_semaphore = Some 1, be_console = []\<rparr>"

definition demo_kernel :: "demo_host kernel" where
  "demo_kernel = \<lparr>k_status = MIRIX_KERNEL_UNINITIALIZED, k_pid = 0, k_args = None, k_heap = {},
     k_posix = \<lparr>px_initialized = False, file_table = [], px_errno = None,
       px_sys = \<lparr>sys_host = host_state0, sys_ipc = ipc_state0, sys_calls = syscall_state0,
                 sys_world = demo_host0\<lparr>dh_bytes := []\<rparr>\<rparr>\<rparr>,
     k_fs = fs_superblock0, k_procs = []\<rparr>"

definition demo_superblock :: superblock where
  "demo_superblock = zero_superblock\<lparr>sb_case_sensitive := True, sb_fd := 3, sb_path := copy_path ''./lazyfs.img''\<rparr>"

definition demo_world :: demo_host where
  "demo_world = demo_host0\<lparr>dh_open := [3], dh_bytes := superblock_bytes demo_superblock\<rparr>"

lemma demo_accepted: "accepted [(CHR ''i'', ''/init'')]"
  by (simp add: accepted_def option_ok_def meant_size_def last_opt_def)

lemma demo_env_ok:
  "malloc_ok (be_malloc demo_env)" "\<forall>h n. be_malloc demo_env h n \<noteq> 0" "finite (k_heap demo_kernel)" "k_heap demo_kernel = {}"
  "distinct (filter (\<lambda>c. c \<in> set string_letters) (map fst [(CHR ''i'', ''/init'')]))"
  by (simp_all add: demo_env_def demo_kernel_def)

lemma demo_boots: "boots demo_os demo_env [(CHR ''i'', ''/init'')] demo_kernel 9 demo_superblock 77 demo_world"
proof -
  let ?w = "demo_host0\<lparr>dh_bytes := []\<rparr>"
  have ok: "superblock_ok demo_superblock" by (simp add: superblock_ok_def demo_superblock_def)
  have fs: "lazyfs_init demo_os (Some ''./lazyfs.img'') True fs_superblock0 ?w = (0, demo_superblock, demo_world)"
    by (rule lazyfs_init_new [where fd = 3 and ?w1.0 = "?w\<lparr>dh_open := [3]\<rparr>" and ?w2.0 = "?w\<lparr>dh_open := [3]\<rparr>"])
      (use length_superblock_bytes [OF ok] in \<open>simp_all add: demo_os_def demo_host0_def demo_world_def demo_superblock_def Let_def\<close>)
  have m: "meant_string (CHR ''r'') [(CHR ''i'', ''/init'')] = Some ''build/X86_64-DEBUG/filesystem/rootfs''"
    "meant_string (CHR ''f'') [(CHR ''i'', ''/init'')] = Some ''./lazyfs.img''"
    "meant_string (CHR ''C'') [(CHR ''i'', ''/init'')] = None" "meant_string (CHR ''i'') [(CHR ''i'', ''/init'')] = Some ''/init''"
    by (simp_all add: meant_string_def last_opt_def arg_field_def default_args_def)
  have os: "os_kqueue demo_os ?w = (9, ?w)" "os_stat demo_os q w = Some True" "os_fork demo_os w = (77, w)" for q w
    by (simp_all add: demo_os_def)
  have off: "services_off demo_kernel"
    by (simp add: services_off_def demo_kernel_def host_state0_def ipc_state0_def syscall_state0_def)
  have k: "k_world demo_kernel = ?w" "k_fs demo_kernel = fs_superblock0" by (simp_all add: demo_kernel_def)
  have len: "length ''build/X86_64-DEBUG/filesystem/rootfs'' \<le> 511" by code_simp
  show ?thesis
    unfolding boots_def k
    by (intro exI conjI, rule off, rule os(1), use fs in \<open>simp_all add: m os is_directory_def demo_env_def\<close>) (rule len)
qed



text \<open>C38. The older entry point \<open>mirix_kernel_main\<close> never returns normally after such a run: it reads and frees the
  arguments that \<open>mirix_kernel_main_with_args\<close> has freed before.\<close>

theorem kernel_main_use_after_free:
  assumes "malloc_ok (be_malloc env)" "\<forall>h n. be_malloc env h n \<noteq> 0" "finite (k_heap k)" "accepted opts"
    "distinct (filter (\<lambda>c. c \<in> set string_letters) (map fst opts))" "boots os env opts k fd sb pid w"
  shows "mirix_kernel_main os env opts k = Inl Use_After_Free"
proof -
  obtain a h k' where "parse_kernel_args (be_malloc env) opts (k_heap k) = Inr (Some a, h)"
    "mirix_kernel_main_with_args os env (Some a) (k\<lparr>k_heap := h\<rparr>) = Inr (0, k')" "k_heap k' = k_heap k"
    "k_args k' = Some a" "ka_self a \<notin> k_heap k"
    by (rule boot_run [OF assms])
  then show ?thesis by (simp add: mirix_kernel_main_def free_kernel_args_def)
qed

theorem kernel_main_use_after_free_witness:
  "mirix_kernel_main demo_os demo_env [(CHR ''i'', ''/init'')] demo_kernel = Inl Use_After_Free"
  by (rule kernel_main_use_after_free [OF demo_env_ok(1-3) demo_accepted demo_env_ok(5) demo_boots])

text \<open>A panic ends the process with status 0, as if all had gone well.\<close>

lemma panic_without_root:
  "os_stat os p (k_world k) = None \<Longrightarrow> k_args k = Some a \<Longrightarrow> root_filesystem a = Some r \<Longrightarrow> str_value r = p \<Longrightarrow>
   mount_root os k = Inl (Exits 0)"
  by (simp add: mount_root_def kernel_panic_def)

text \<open>An empty root file system name is not replaced by the default of the DOS personality.\<close>

lemma dos_default_never_for_empty:
  "root_filesystem a = Some (Copy n []) \<Longrightarrow> lazyfs_backing_file a = Some f \<Longrightarrow>
   dos_personality_apply_defaults malloc (Some a) h = (Some a, h)"
  by (simp add: dos_personality_apply_defaults_def)

end
