(* ===== verification/MinixFs.thy ===== *)
theory MinixFs
  imports CString
begin

text \<open>
  The reader of Minix file systems in the bootstrap task (\<^verbatim>\<open>src/mach/bootstrap/minix_file_io.c\<close> and
  \<^verbatim>\<open>minix_ffs_compat.c\<close>). The devices are the function their reads are: a port, the number of a 512 byte record
  and a count of bytes to an error code or the bytes. Structures on the disk have the layout of the 32 bit machine. Buffers are their
  contents; a buffer that was given back while a pointer to it stays is \<open>Stale\<close>. Locks are left out: the model is one
  thread. Sizes and offsets are natural numbers, cut to 16 bits where the code stores them in a block number.
\<close>

unbundle bit_operations_syntax

section \<open>Structures on the disk\<close>

definition get16 :: "nat \<Rightarrow> u8 list \<Rightarrow> nat" where
  "get16 k bs = unat (bs ! k) + 256 * unat (bs ! (k + 1))"

definition get_long :: "nat \<Rightarrow> u8 list \<Rightarrow> nat" where
  "get_long k bs = get16 k bs + 65536 * get16 (k + 2) bs"

record minix_super =
  s_ninodes :: nat
  s_nzones :: nat
  s_imap_blocks :: nat
  s_zmap_blocks :: nat
  s_firstdatazone :: nat
  s_log_zone_size :: nat
  s_max_size :: nat
  s_magic :: nat
  s_state :: nat

definition super_of :: "u8 list \<Rightarrow> minix_super" where
  "super_of bs = \<lparr>s_ninodes = get16 0 bs, s_nzones = get16 2 bs, s_imap_blocks = get16 4 bs, s_zmap_blocks = get16 6 bs,
     s_firstdatazone = get16 8 bs, s_log_zone_size = get16 10 bs, s_max_size = get_long 12 bs, s_magic = get16 16 bs,
     s_state = get16 18 bs\<rparr>"

record minix_inode =
  i_mode :: nat
  i_uid :: nat
  i_size :: nat
  i_time :: nat
  i_gid :: nat
  i_nlinks :: nat
  i_zone :: "nat list"

definition inode_of :: "u8 list \<Rightarrow> minix_inode" where
  "inode_of bs = \<lparr>i_mode = get16 0 bs, i_uid = get16 2 bs, i_size = get_long 4 bs, i_time = get_long 8 bs,
     i_gid = unat (bs ! 12), i_nlinks = unat (bs ! 13), i_zone = map (\<lambda>k. get16 (14 + 2 * k) bs) [0..<9]\<rparr>"

section \<open>Open files\<close>

type_synonym device = "nat \<Rightarrow> nat \<Rightarrow> nat \<Rightarrow> int + u8 list"

datatype buffer = No_Buffer | Buffer "u8 list" | Stale

text \<open>\<open>f_blk\<close> and \<open>f_blkno\<close> are the cached index blocks by level; 65535 stands for no block, as does -1 in \<open>f_buf_blkno\<close>.\<close>

record minix_file =
  f_dev :: nat
  f_fs :: "minix_super option"
  i_ic :: minix_inode
  f_nindir :: "nat list"
  f_blk :: "buffer list"
  f_blkno :: "nat list"
  f_buf :: buffer
  f_buf_blkno :: int

abbreviation (input) MINIX_NDADDR :: nat where "MINIX_NDADDR \<equiv> 7"
abbreviation (input) MINIX_NIADDR :: nat where "MINIX_NIADDR \<equiv> 2"
abbreviation (input) MINIX_BLOCK_SIZE :: nat where "MINIX_BLOCK_SIZE \<equiv> 1024"
abbreviation (input) FS_NOT_DIRECTORY :: int where "FS_NOT_DIRECTORY \<equiv> 5000"
abbreviation (input) FS_NO_ENTRY :: int where "FS_NO_ENTRY \<equiv> 5001"
abbreviation (input) FS_NAME_TOO_LONG :: int where "FS_NAME_TOO_LONG \<equiv> 5002"
abbreviation (input) FS_INVALID_FS :: int where "FS_INVALID_FS \<equiv> 5004"
abbreviation (input) FS_NOT_IN_FILE :: int where "FS_NOT_IN_FILE \<equiv> 5005"
abbreviation (input) FS_INVALID_PARAMETER :: int where "FS_INVALID_PARAMETER \<equiv> 5006"

definition minix_ino2blk :: "minix_super \<Rightarrow> nat \<Rightarrow> nat" where
  "minix_ino2blk fs ino = 2 + s_imap_blocks fs + s_zmap_blocks fs + (ino - 1) div 32"

definition minix_fsbtodb :: "nat \<Rightarrow> nat" where
  "minix_fsbtodb b = b * MINIX_BLOCK_SIZE div 512"

definition minix_itoo :: "nat \<Rightarrow> nat" where
  "minix_itoo ino = (ino - 1) mod 32"

definition minix_blkoff :: "nat \<Rightarrow> nat" where
  "minix_blkoff offset = offset mod MINIX_BLOCK_SIZE"

definition minix_lblkno :: "nat \<Rightarrow> nat" where
  "minix_lblkno offset = offset div MINIX_BLOCK_SIZE"

definition minix_daddr :: "nat \<Rightarrow> nat" where
  "minix_daddr n = n mod 65536"

text \<open>Giving back a buffer that is \<open>Stale\<close> gives back memory that is no longer the file's.\<close>

definition free_file_buffers :: "minix_file \<Rightarrow> minix_file outcome" where
  "free_file_buffers fp =
     (if f_buf fp = Stale then Inl Double_Free
      else Inr (fp\<lparr>f_blk := replicate MINIX_NIADDR No_Buffer, f_blkno := replicate MINIX_NIADDR 65535,
                   f_buf := No_Buffer, f_buf_blkno := - 1\<rparr>))"

definition read_inode :: "device \<Rightarrow> nat \<Rightarrow> minix_file \<Rightarrow> (int \<times> minix_file) outcome" where
  "read_inode rd inumber fp =
     (case f_fs fp of
        None \<Rightarrow> Inl Null_Deref
      | Some fs \<Rightarrow>
          (case rd (f_dev fp) (minix_fsbtodb (minix_daddr (minix_ino2blk fs inumber))) MINIX_BLOCK_SIZE of
             Inl rc \<Rightarrow> Inr (rc, fp)
           | Inr buf \<Rightarrow>
               if length buf < 32 * minix_itoo inumber + 32 then Inl Out_Of_Bounds
               else map_sum id (Pair 0)
                 (free_file_buffers (fp\<lparr>i_ic := inode_of (drop (32 * minix_itoo inumber) buf)\<rparr>))))"

section \<open>Blocks of a file\<close>

text \<open>The data of the index block at a level, from the cache or the device.\<close>

definition index_block :: "device \<Rightarrow> nat \<Rightarrow> nat \<Rightarrow> minix_file \<Rightarrow> (int + u8 list \<times> minix_file) outcome" where
  "index_block rd level ind fp =
     (if f_blkno fp ! level = ind
      then (case f_blk fp ! level of
              No_Buffer \<Rightarrow> Inl Null_Deref
            | Stale \<Rightarrow> Inl Use_After_Free
            | Buffer data \<Rightarrow> Inr (Inr (data, fp)))
      else (case rd (f_dev fp) (minix_fsbtodb ind) MINIX_BLOCK_SIZE of
              Inl rc \<Rightarrow> Inr (Inl rc)
            | Inr data \<Rightarrow>
                Inr (Inr (data, fp\<lparr>f_blkno := (f_blkno fp)[level := ind], f_blk := (f_blk fp)[level := Buffer data]\<rparr>))))"

definition index_entry :: "u8 list \<Rightarrow> nat \<Rightarrow> nat outcome" where
  "index_entry data idx = (if length data < 2 * idx + 2 then Inl Out_Of_Bounds else Inr (get16 (2 * idx) data))"

text \<open>The loop down the levels.\<close>

fun map_levels :: "device \<Rightarrow> nat \<Rightarrow> nat \<Rightarrow> nat \<Rightarrow> minix_file \<Rightarrow> (int \<times> nat \<times> minix_file) outcome" where
  "map_levels rd level file_block ind fp =
     (if ind = 0 then Inr (0, 0, fp)
      else (case index_block rd level ind fp of
              Inl e \<Rightarrow> Inl e
            | Inr (Inl rc) \<Rightarrow> Inr (rc, 0, fp)
            | Inr (Inr (data, fp')) \<Rightarrow>
                (case level of
                   0 \<Rightarrow>
                     (case index_entry data file_block of
                        Inl e \<Rightarrow> Inl e
                      | Inr ind' \<Rightarrow> Inr (0, ind', fp'))
                 | Suc l \<Rightarrow>
                     (case index_entry data (file_block div (f_nindir fp' ! l)) of
                        Inl e \<Rightarrow> Inl e
                      | Inr ind' \<Rightarrow> map_levels rd l (file_block mod (f_nindir fp' ! l)) ind' fp'))))"

text \<open>The level and the block within it.\<close>

fun find_level :: "nat list \<Rightarrow> nat \<Rightarrow> nat \<Rightarrow> (nat \<times> nat) option" where
  "find_level [] level file_block = None"
| "find_level (n # ns) level file_block =
     (if file_block < n then Some (level, file_block) else find_level ns (Suc level) (file_block - n))"

definition block_map :: "device \<Rightarrow> nat \<Rightarrow> minix_file \<Rightarrow> (int \<times> nat \<times> minix_file) outcome" where
  "block_map rd file_block fp =
     (if file_block < MINIX_NDADDR then Inr (0, i_zone (i_ic fp) ! file_block, fp)
      else (case find_level (take MINIX_NIADDR (f_nindir fp)) 0 (file_block - MINIX_NDADDR) of
              None \<Rightarrow> Inr (FS_NOT_IN_FILE, 0, fp)
            | Some (level, fb) \<Rightarrow> map_levels rd level fb (i_zone (i_ic fp) ! (level + MINIX_NDADDR)) fp))"

section \<open>Reading\<close>

text \<open>The block of the file that holds an offset, in the buffer of the file. When the device fails the old buffer is
  gone but still named as holding its block.\<close>

definition load_block :: "device \<Rightarrow> nat \<Rightarrow> minix_file \<Rightarrow> (int \<times> minix_file) outcome" where
  "load_block rd file_block fp =
     (if int file_block = f_buf_blkno fp then Inr (0, fp)
      else (case block_map rd file_block fp of
              Inl e \<Rightarrow> Inl e
            | Inr (rc, disk_block, fp1) \<Rightarrow>
                if rc \<noteq> 0 then Inr (rc, fp1)
                else if f_buf fp1 = Stale then Inl Double_Free
                else if disk_block = 0
                then Inr (0, fp1\<lparr>f_buf := Buffer (replicate MINIX_BLOCK_SIZE 0), f_buf_blkno := int file_block\<rparr>)
                else (case rd (f_dev fp) (minix_fsbtodb disk_block) MINIX_BLOCK_SIZE of
                        Inl rc \<Rightarrow> Inr (rc, fp1\<lparr>f_buf := (if f_buf fp1 = No_Buffer then No_Buffer else Stale)\<rparr>)
                      | Inr bs \<Rightarrow> Inr (0, fp1\<lparr>f_buf := Buffer bs, f_buf_blkno := int file_block\<rparr>))))"

text \<open>The bytes from the offset to the end of the buffer, and how many of them are the file's.\<close>

definition buf_read_file :: "device \<Rightarrow> nat \<Rightarrow> minix_file \<Rightarrow> (int \<times> u8 list \<times> nat \<times> minix_file) outcome" where
  "buf_read_file rd offset fp =
     (if i_size (i_ic fp) \<le> offset then Inr (FS_NOT_IN_FILE, [], 0, fp)
      else (case load_block rd (minix_daddr (minix_lblkno offset)) fp of
              Inl e \<Rightarrow> Inl e
            | Inr (rc, fp1) \<Rightarrow>
                if rc \<noteq> 0 then Inr (rc, [], 0, fp1)
                else (case f_buf fp1 of
                        No_Buffer \<Rightarrow> Inl Null_Deref
                      | Stale \<Rightarrow> Inl Use_After_Free
                      | Buffer bs \<Rightarrow>
                          Inr (0, drop (minix_blkoff offset) bs,
                               min (MINIX_BLOCK_SIZE - minix_blkoff offset) (i_size (i_ic fp) - offset), fp1))))"

text \<open>The bytes copied, and what is left to copy when the loop ends without an error.\<close>

function minix_read_file :: "device \<Rightarrow> nat \<Rightarrow> nat \<Rightarrow> minix_file \<Rightarrow> (int \<times> u8 list \<times> nat \<times> minix_file) outcome" where
  "minix_read_file rd offset sz fp =
     (if sz = 0 then Inr (0, [], 0, fp)
      else (case buf_read_file rd offset fp of
              Inl e \<Rightarrow> Inl e
            | Inr (rc, buf, buf_size, fp1) \<Rightarrow>
                if rc \<noteq> 0 then Inr (rc, [], sz, fp1)
                else (let csize = min sz buf_size in
                      if csize = 0 then Inr (0, [], sz, fp1)
                      else if length buf < csize then Inl Out_Of_Bounds
                      else (case minix_read_file rd (offset + csize) (sz - csize) fp1 of
                              Inl e \<Rightarrow> Inl e
                            | Inr (rc, bs, resid, fp2) \<Rightarrow> Inr (rc, take csize buf @ bs, resid, fp2)))))"
  by pat_completeness auto
termination
  by (relation "measure (\<lambda>(rd, offset, sz, fp). sz)") auto

declare minix_read_file.simps [simp del] map_levels.simps [simp del]

section \<open>Directories\<close>

definition entry_name :: "u8 list \<Rightarrow> string" where
  "entry_name dp = map (\<lambda>b. char_of (unat b)) (takeWhile (\<lambda>b. b \<noteq> 0) (take 14 (drop 2 dp)))"

text \<open>The offset is kept in 32 bits: where it would pass them the search begins again and does not end.\<close>

function search_entries :: "device \<Rightarrow> string \<Rightarrow> nat \<Rightarrow> nat \<Rightarrow> minix_file \<Rightarrow> (int \<times> nat \<times> minix_file) outcome" where
  "search_entries rd name limit offset fp =
     (if limit \<le> offset then Inr (FS_NO_ENTRY, 0, fp)
      else (case buf_read_file rd offset fp of
              Inl e \<Rightarrow> Inl e
            | Inr (rc, dp, buf_size, fp1) \<Rightarrow>
                if rc \<noteq> 0 then Inr (rc, 0, fp1)
                else if length dp < 16 then Inl Out_Of_Bounds
                else if get16 0 dp \<noteq> 0 \<and> entry_name dp = name then Inr (0, get16 0 dp, fp1)
                else if 2 ^ 32 \<le> offset + 16 then Inl Blocked
                else search_entries rd name limit (offset + 16) fp1))"
  by pat_completeness auto
termination
  by (relation "measure (\<lambda>(rd, name, limit, offset, fp). limit - offset)") auto

declare search_entries.simps [simp del]

definition search_directory :: "device \<Rightarrow> string \<Rightarrow> minix_file \<Rightarrow> (int \<times> nat \<times> minix_file) outcome" where
  "search_directory rd name fp = search_entries rd name (i_size (i_ic fp)) 0 fp"

section \<open>Opening and closing\<close>

definition read_fs :: "device \<Rightarrow> nat \<Rightarrow> (int + minix_super) outcome" where
  "read_fs rd dev =
     (case rd dev 2 MINIX_BLOCK_SIZE of
        Inl rc \<Rightarrow> Inr (Inl rc)
      | Inr buf \<Rightarrow>
          if length buf < 20 then Inl Out_Of_Bounds
          else if s_magic (super_of buf) \<noteq> 0x137F then Inr (Inl FS_INVALID_FS)
          else Inr (Inr (super_of buf)))"

definition mount_fs :: "device \<Rightarrow> minix_file \<Rightarrow> (int \<times> minix_file) outcome" where
  "mount_fs rd fp =
     (case read_fs rd (f_dev fp) of
        Inl e \<Rightarrow> Inl e
      | Inr (Inl rc) \<Rightarrow> Inr (rc, fp)
      | Inr (Inr fs) \<Rightarrow> Inr (0, fp\<lparr>f_fs := Some fs, f_nindir := [512, 512 * 512]\<rparr>))"

text \<open>The three kinds of file have the pointer to the super block in the same place, so whether a file is
  structured does not depend on its kind.\<close>

definition unmount_fs :: "minix_file \<Rightarrow> minix_file" where
  "unmount_fs fp = (if f_fs fp \<noteq> None then fp\<lparr>f_fs := None\<rparr> else fp)"

definition minix_close_file :: "minix_file \<Rightarrow> minix_file outcome" where
  "minix_close_file fp = free_file_buffers (unmount_fs fp)"

definition minix_file_is_directory :: "minix_file \<Rightarrow> bool" where
  "minix_file_is_directory fp \<longleftrightarrow> i_mode (i_ic fp) AND 61440 = 16384"

definition minix_file_is_regular :: "minix_file \<Rightarrow> bool" where
  "minix_file_is_regular fp \<longleftrightarrow> i_mode (i_ic fp) AND 61440 = 32768"

text \<open>The scan of a component: 0, or the code that ends it early.\<close>

fun scan_component :: "nat \<Rightarrow> string \<Rightarrow> int" where
  "scan_component len [] = 0"
| "scan_component len (c # cs) =
     (if 14 < len then FS_NAME_TOO_LONG
      else if 128 \<le> (of_char c :: nat) then FS_INVALID_PARAMETER
      else scan_component (Suc len) cs)"

definition close_with :: "int \<Rightarrow> minix_file \<Rightarrow> (int \<times> minix_file) outcome" where
  "close_with rc fp = map_sum id (Pair rc) (minix_close_file fp)"

definition next_component :: "string \<Rightarrow> string" where
  "next_component cp = takeWhile (\<lambda>c. c \<noteq> CHR ''/'') (dropWhile (\<lambda>c. c = CHR ''/'') cp)"

definition after_component :: "string \<Rightarrow> string" where
  "after_component cp = dropWhile (\<lambda>c. c \<noteq> CHR ''/'') (dropWhile (\<lambda>c. c = CHR ''/'') cp)"

lemma after_component_shorter: "cp \<noteq> [] \<Longrightarrow> length (after_component cp) < length cp"
  by (cases cp) (auto simp: after_component_def intro: le_less_trans [OF length_dropWhile_le] less_le_trans
    le_imp_less_Suc length_dropWhile_le order_trans)

function walk_path :: "device \<Rightarrow> string \<Rightarrow> minix_file \<Rightarrow> (int \<times> minix_file) outcome" where
  "walk_path rd cp fp =
     (if cp = [] then Inr (0, fp)
      else if \<not> minix_file_is_directory fp then close_with FS_NOT_DIRECTORY fp
      else if scan_component 0 (next_component cp) \<noteq> 0 then close_with (scan_component 0 (next_component cp)) fp
      else (case search_directory rd (next_component cp) fp of
              Inl e \<Rightarrow> Inl e
            | Inr (rc, inumber, fp1) \<Rightarrow>
                if rc \<noteq> 0 then close_with rc fp1
                else (case read_inode rd inumber fp1 of
                        Inl e \<Rightarrow> Inl e
                      | Inr (rc, fp2) \<Rightarrow>
                          if rc \<noteq> 0 then close_with rc fp2 else walk_path rd (after_component cp) fp2)))"
  by pat_completeness auto
termination
  by (relation "measure (\<lambda>(rd, cp, fp). length cp)") (auto simp: after_component_shorter)

declare walk_path.simps [simp del]

text \<open>A path begins with \<open>/dev/\<close> and the name of the device; it is copied to a buffer of 1025 characters.\<close>

definition minix_open_file ::
    "device \<Rightarrow> (string \<Rightarrow> int + nat) \<Rightarrow> string option \<Rightarrow> minix_file \<Rightarrow> (int \<times> minix_file) outcome" where
  "minix_open_file rd device_open path fp =
     (case path of
        None \<Rightarrow> Inr (FS_NO_ENTRY, fp)
      | Some namebuf \<Rightarrow>
          if namebuf = [] then Inr (FS_NO_ENTRY, fp)
          else if 1024 < length namebuf then Inl Out_Of_Bounds
          else if take 5 namebuf \<noteq> ''/dev/'' then Inr (FS_NO_ENTRY, fp)
          else (let cp = dropWhile (\<lambda>c. c \<noteq> CHR ''/'') (drop 5 namebuf) in
                case device_open (takeWhile (\<lambda>c. c \<noteq> CHR ''/'') (drop 5 namebuf)) of
                  Inl rc \<Rightarrow> Inr (rc, fp)
                | Inr dev \<Rightarrow>
                    if cp = [] then Inr (0, fp\<lparr>f_dev := dev, f_fs := None\<rparr>)
                    else (case mount_fs rd (fp\<lparr>f_dev := dev\<rparr>) of
                            Inl e \<Rightarrow> Inl e
                          | Inr (rc, fp1) \<Rightarrow>
                              if rc \<noteq> 0 then Inr (rc, fp1)
                              else (case read_inode rd 1 fp1 of
                                      Inl e \<Rightarrow> Inl e
                                    | Inr (rc, fp2) \<Rightarrow>
                                        if rc \<noteq> 0 then close_with rc fp2 else walk_path rd cp fp2))))"

section \<open>Files with their block map in memory\<close>

record file_direct =
  fd_dev :: nat
  fd_blocks :: "nat list option"
  fd_size :: nat
  fd_bsize :: nat
  fd_bshift :: nat
  fd_fsbtodb :: nat

text \<open>The exponent of a power of two; for 0 the loop does not end.\<close>

function log2_loop :: "nat \<Rightarrow> nat outcome" where
  "log2_loop n = (if n = 0 then Inl Blocked else if even n then map_sum id Suc (log2_loop (n div 2)) else Inr 0)"
  by pat_completeness auto
termination
  by (relation "measure (\<lambda>n. n)") auto

declare log2_loop.simps [simp del]

definition minix_open_file_direct ::
    "device \<Rightarrow> nat \<Rightarrow> nat \<Rightarrow> bool \<Rightarrow> file_direct \<Rightarrow> (int \<times> file_direct) outcome" where
  "minix_open_file_direct rd vm_page_size dev is_structured fdp =
     (if \<not> is_structured
      then map_sum id (\<lambda>k. (0, \<lparr>fd_dev = dev, fd_blocks = None, fd_size = 0, fd_bsize = vm_page_size, fd_bshift = k,
                              fd_fsbtodb = 0\<rparr>)) (log2_loop vm_page_size)
      else (case read_fs rd dev of
              Inl e \<Rightarrow> Inl e
            | Inr (Inl rc) \<Rightarrow> Inr (rc, fdp)
            | Inr (Inr fs) \<Rightarrow>
                (case (log2_loop MINIX_BLOCK_SIZE, log2_loop (MINIX_BLOCK_SIZE div 512)) of
                   (Inr k, Inr m) \<Rightarrow>
                     Inr (0, \<lparr>fd_dev = dev, fd_blocks = None, fd_size = 0, fd_bsize = MINIX_BLOCK_SIZE, fd_bshift = k,
                             fd_fsbtodb = m\<rparr>)
                 | _ \<Rightarrow> Inl Blocked)))"

text \<open>The block addresses from a block of the file on.\<close>

fun lookup_blocks :: "device \<Rightarrow> nat \<Rightarrow> nat \<Rightarrow> minix_file \<Rightarrow> (int \<times> nat list \<times> minix_file) outcome" where
  "lookup_blocks rd i 0 fp = Inr (0, [], fp)"
| "lookup_blocks rd i (Suc n) fp =
     (case block_map rd (minix_daddr i) fp of
        Inl e \<Rightarrow> Inl e
      | Inr (rc, disk_block, fp1) \<Rightarrow>
          if rc \<noteq> 0 then Inr (rc, [], fp1)
          else (case lookup_blocks rd (Suc i) n fp1 of
                  Inl e \<Rightarrow> Inl e
                | Inr (rc, bs, fp2) \<Rightarrow> Inr (rc, disk_block # bs, fp2)))"

text \<open>The size of a device in bytes and of its records, or an error code, is what \<open>get_status\<close> gives, and
  \<open>vm_allocate\<close> gives the code of an allocation of that many bytes.\<close>

definition minix_add_file_direct ::
    "device \<Rightarrow> (nat \<Rightarrow> int + nat \<times> nat) \<Rightarrow> (nat \<Rightarrow> int) \<Rightarrow> file_direct \<Rightarrow> minix_file
      \<Rightarrow> (int \<times> file_direct \<times> minix_file) outcome" where
  "minix_add_file_direct rd get_status vm_allocate fdp fp =
     (if fd_dev fdp \<noteq> f_dev fp then Inr (FS_INVALID_FS, fdp, fp)
      else if f_fs fp = None
      then (case get_status (fd_dev fdp) of
              Inl rc \<Rightarrow> Inr (rc, fdp, fp)
            | Inr (device_size, record_size) \<Rightarrow>
                if record_size = 0 then Inl Div_By_Zero
                else map_sum id
                  (\<lambda>k. (0, fdp\<lparr>fd_size := device_size div 2 ^ fd_bshift fdp, fd_fsbtodb := k\<rparr>, fp))
                  (log2_loop (fd_bsize fdp div record_size)))
      else if fd_bsize fdp \<noteq> MINIX_BLOCK_SIZE then Inr (FS_INVALID_FS, fdp, fp)
      else (let num_blocks = minix_lblkno (i_size (i_ic fp)); rc = vm_allocate ((num_blocks + fd_size fdp) * 2) in
            if rc \<noteq> 0 then Inr (rc, fdp, fp)
            else (case lookup_blocks rd 0 num_blocks fp of
                    Inl e \<Rightarrow> Inl e
                  | Inr (rc, bs, fp1) \<Rightarrow>
                      if rc \<noteq> 0 then Inr (rc, fdp, fp1)
                      else (let old = (case fd_blocks fdp of Some old \<Rightarrow> old | None \<Rightarrow> replicate (fd_size fdp) 0) in
                            map_sum id
                              (Pair 0 \<circ> Pair (fdp\<lparr>fd_blocks := Some (old @ bs), fd_size := fd_size fdp + num_blocks\<rparr>))
                              (free_file_buffers fp1)))))"

definition minix_remove_file_direct :: "file_direct \<Rightarrow> file_direct" where
  "minix_remove_file_direct fdp = fdp\<lparr>fd_blocks := None\<rparr>"

text \<open>Where an offset lies: the record of the device, or an error code.\<close>

definition direct_record :: "file_direct \<Rightarrow> nat \<Rightarrow> (int + nat) outcome" where
  "direct_record fdp offset =
     (if fd_size fdp * 2 ^ fd_bshift fdp \<le> offset then Inr (Inl FS_NOT_IN_FILE)
      else (let off = offset mod fd_bsize fdp; file_block = minix_daddr (offset div 2 ^ fd_bshift fdp) in
            case fd_blocks fdp of
              None \<Rightarrow> Inr (Inr (file_block * 2 ^ fd_fsbtodb fdp + off div 512))
            | Some bs \<Rightarrow>
                if length bs \<le> file_block then Inl Out_Of_Bounds
                else if bs ! file_block = 0 then Inr (Inl FS_NOT_IN_FILE)
                else Inr (Inr (bs ! file_block * 2 ^ fd_fsbtodb fdp + off div 512))))"

definition minix_page_read_file_direct :: "device \<Rightarrow> file_direct \<Rightarrow> nat \<Rightarrow> nat \<Rightarrow> (int + u8 list) outcome" where
  "minix_page_read_file_direct rd fdp offset sz =
     (if offset mod 512 \<noteq> 0 \<or> sz mod 512 \<noteq> 0 then Inl (Panics ''page_read_file_direct'')
      else (case direct_record fdp offset of
              Inl e \<Rightarrow> Inl e
            | Inr (Inl rc) \<Rightarrow> Inr (Inl rc)
            | Inr (Inr r) \<Rightarrow> Inr (rd (fd_dev fdp) r (min sz (fd_bsize fdp)))))"

text \<open>Writes go to the devices \<open>w\<close>: the code, the count that was written and the devices after.\<close>

definition minix_page_write_file_direct ::
    "(nat \<Rightarrow> nat \<Rightarrow> u8 list \<Rightarrow> 'w \<Rightarrow> int \<times> nat \<times> 'w) \<Rightarrow> file_direct \<Rightarrow> nat \<Rightarrow> u8 list \<Rightarrow> nat \<Rightarrow> 'w
      \<Rightarrow> (int \<times> nat option \<times> 'w) outcome" where
  "minix_page_write_file_direct wr fdp offset data sz w =
     (if offset mod 512 \<noteq> 0 \<or> sz mod 512 \<noteq> 0 then Inl (Panics ''page_write_file'')
      else (case direct_record fdp offset of
              Inl e \<Rightarrow> Inl e
            | Inr (Inl rc) \<Rightarrow> Inr (rc, None, w)
            | Inr (Inr r) \<Rightarrow>
                (case wr (fd_dev fdp) r (take (min sz (fd_bsize fdp)) data) w of
                   (rc, num_written, w1) \<Rightarrow> Inr (rc, Some num_written, w1))))"

end
