(* ===== verification/MinixFsOk.thy ===== *)
theory MinixFsOk
  imports MinixFs
begin

text \<open>
  The reader of Minix file systems against the file that an inode describes: the blocks found through the cached index
  blocks are those of the index read afresh, and the bytes that \<open>minix_read_file\<close> copies are the bytes of the file.
\<close>

unbundle bit_operations_syntax

section \<open>The file an inode describes\<close>

definition index_at :: "device \<Rightarrow> nat \<Rightarrow> nat \<Rightarrow> nat \<Rightarrow> nat" where
  "index_at rd dev b k =
     (if b = 0 then 0 else case rd dev (minix_fsbtodb b) 1024 of Inl rc \<Rightarrow> 0 | Inr data \<Rightarrow> get16 (2 * k) data)"

definition file_zone :: "device \<Rightarrow> nat \<Rightarrow> minix_inode \<Rightarrow> nat \<Rightarrow> nat" where
  "file_zone rd dev ino n =
     (if n < 7 then i_zone ino ! n
      else if n < 519 then index_at rd dev (i_zone ino ! 7) (n - 7)
      else index_at rd dev (index_at rd dev (i_zone ino ! 8) ((n - 519) div 512)) ((n - 519) mod 512))"

definition zone_bytes :: "device \<Rightarrow> nat \<Rightarrow> nat \<Rightarrow> u8 list" where
  "zone_bytes rd dev b =
     (if b = 0 then replicate 1024 0 else case rd dev (minix_fsbtodb b) 1024 of Inl rc \<Rightarrow> [] | Inr bs \<Rightarrow> bs)"

definition file_byte :: "device \<Rightarrow> nat \<Rightarrow> minix_inode \<Rightarrow> nat \<Rightarrow> u8" where
  "file_byte rd dev ino k = zone_bytes rd dev (file_zone rd dev ino (k div 1024)) ! (k mod 1024)"

section \<open>The invariant of an open file\<close>

text \<open>The device gives whole blocks, and no index block is block 65535, the number that marks an empty cache.\<close>

definition device_ok :: "device \<Rightarrow> nat \<Rightarrow> bool" where
  "device_ok rd dev \<longleftrightarrow> (\<forall>r. \<exists>bs. rd dev r 1024 = Inr bs \<and> length bs = 1024)"

definition index_ok :: "device \<Rightarrow> nat \<Rightarrow> minix_inode \<Rightarrow> bool" where
  "index_ok rd dev ino \<longleftrightarrow> length (i_zone ino) = 9 \<and> i_zone ino ! 7 \<noteq> 65535 \<and> i_zone ino ! 8 \<noteq> 65535 \<and>
     (\<forall>k < 512. index_at rd dev (i_zone ino ! 8) k \<noteq> 65535)"

definition level_ok :: "device \<Rightarrow> minix_file \<Rightarrow> nat \<Rightarrow> bool" where
  "level_ok rd fp level \<longleftrightarrow>
     (f_blkno fp ! level \<noteq> 65535 \<longrightarrow>
        (\<exists>data. f_blk fp ! level = Buffer data \<and> rd (f_dev fp) (minix_fsbtodb (f_blkno fp ! level)) 1024 = Inr data))"

definition cache_ok :: "device \<Rightarrow> minix_file \<Rightarrow> bool" where
  "cache_ok rd fp \<longleftrightarrow> f_nindir fp = [512, 262144] \<and> length (f_blk fp) = 2 \<and> length (f_blkno fp) = 2 \<and>
     level_ok rd fp 0 \<and> level_ok rd fp 1"

definition buf_ok :: "device \<Rightarrow> minix_file \<Rightarrow> bool" where
  "buf_ok rd fp \<longleftrightarrow>
     (if f_buf_blkno fp = - 1 then f_buf fp = No_Buffer
      else 0 \<le> f_buf_blkno fp \<and>
        f_buf fp = Buffer (zone_bytes rd (f_dev fp) (file_zone rd (f_dev fp) (i_ic fp) (nat (f_buf_blkno fp)))))"

definition file_ok :: "device \<Rightarrow> minix_file \<Rightarrow> bool" where
  "file_ok rd fp \<longleftrightarrow> device_ok rd (f_dev fp) \<and> index_ok rd (f_dev fp) (i_ic fp) \<and> cache_ok rd fp \<and> buf_ok rd fp"

text \<open>What the operations on an open file leave as it was.\<close>

definition same_file :: "minix_file \<Rightarrow> minix_file \<Rightarrow> bool" where
  "same_file fp fp' \<longleftrightarrow> f_dev fp' = f_dev fp \<and> i_ic fp' = i_ic fp \<and> f_fs fp' = f_fs fp"

lemma same_file_refl [simp]: "same_file fp fp"
  by (simp add: same_file_def)

lemma same_file_trans [trans]: "same_file a b \<Longrightarrow> same_file b c \<Longrightarrow> same_file a c"
  by (simp add: same_file_def)

lemma device_block:
  assumes "device_ok rd dev"
  obtains bs where "rd dev r 1024 = Inr bs" "length bs = 1024"
  using assms by (auto simp: device_ok_def)

section \<open>Index blocks\<close>

lemma index_block_reads:
  assumes dev: "device_ok rd (f_dev fp)" and cache: "cache_ok rd fp" and level: "level < 2" and ind: "ind \<noteq> 65535"
  obtains data fp' where "index_block rd level ind fp = Inr (Inr (data, fp'))"
    "rd (f_dev fp) (minix_fsbtodb ind) 1024 = Inr data" "length data = 1024" "cache_ok rd fp'" "same_file fp fp'"
    "f_buf fp' = f_buf fp" "f_buf_blkno fp' = f_buf_blkno fp"
proof -
  obtain data where data: "rd (f_dev fp) (minix_fsbtodb ind) 1024 = Inr data" "length data = 1024"
    by (rule device_block [OF dev])
  let ?fp' = "fp\<lparr>f_blkno := (f_blkno fp)[level := ind], f_blk := (f_blk fp)[level := Buffer data]\<rparr>"
  have lv: "level = 0 \<or> level = 1" using level by auto
  show thesis
  proof (cases "f_blkno fp ! level = ind")
    case True
    then have "f_blk fp ! level = Buffer data"
      using cache lv ind data(1) by (auto simp: cache_ok_def level_ok_def)
    then show thesis
      using True data cache by (intro that [of data fp]) (simp_all add: index_block_def)
  next
    case False
    have "cache_ok rd ?fp'"
      using cache lv data(1) by (auto simp: cache_ok_def level_ok_def)
    then show thesis
      using False data by (intro that [of data ?fp']) (simp_all add: index_block_def same_file_def)
  qed
qed

lemma index_entry_of_block: "length data = 1024 \<Longrightarrow> k < 512 \<Longrightarrow> index_entry data k = Inr (get16 (2 * k) data)"
  by (simp add: index_entry_def)

text \<open>What a search of the blocks of a file gives: the block number, and a file whose cache is still good.\<close>

definition maps_to :: "device \<Rightarrow> minix_file \<Rightarrow> (int \<times> nat \<times> minix_file) outcome \<Rightarrow> nat \<Rightarrow> bool" where
  "maps_to rd fp r b \<longleftrightarrow>
     (\<exists>fp'. r = Inr (0, b, fp') \<and> cache_ok rd fp' \<and> same_file fp fp' \<and> f_buf fp' = f_buf fp \<and>
        f_buf_blkno fp' = f_buf_blkno fp)"

lemma map_level_0:
  assumes "device_ok rd (f_dev fp)" "cache_ok rd fp" "ind \<noteq> 65535" "k < 512"
  shows "maps_to rd fp (map_levels rd 0 k ind fp) (index_at rd (f_dev fp) ind k)"
proof (cases "ind = 0")
  case True
  then show ?thesis using assms(2) by (simp add: maps_to_def map_levels.simps index_at_def)
next
  case False
  obtain data fp' where "index_block rd 0 ind fp = Inr (Inr (data, fp'))"
    "rd (f_dev fp) (minix_fsbtodb ind) 1024 = Inr data" "length data = 1024" "cache_ok rd fp'" "same_file fp fp'"
    "f_buf fp' = f_buf fp" "f_buf_blkno fp' = f_buf_blkno fp"
    by (rule index_block_reads [OF assms(1,2) _ assms(3), of 0]) simp_all
  then show ?thesis
    using False assms(4) by (simp add: maps_to_def map_levels.simps [of rd 0] index_at_def index_entry_of_block)
qed

lemma map_level_1:
  assumes "device_ok rd (f_dev fp)" "cache_ok rd fp" "ind \<noteq> 65535" "n < 262144"
    "index_at rd (f_dev fp) ind (n div 512) \<noteq> 65535"
  shows "maps_to rd fp (map_levels rd 1 n ind fp)
    (index_at rd (f_dev fp) (index_at rd (f_dev fp) ind (n div 512)) (n mod 512))"
proof (cases "ind = 0")
  case True
  then show ?thesis using assms(2) by (simp add: maps_to_def map_levels.simps index_at_def)
next
  case False
  obtain data fp' where step: "index_block rd 1 ind fp = Inr (Inr (data, fp'))"
    "rd (f_dev fp) (minix_fsbtodb ind) 1024 = Inr data" "length data = 1024" "cache_ok rd fp'" "same_file fp fp'"
    "f_buf fp' = f_buf fp" "f_buf_blkno fp' = f_buf_blkno fp"
    by (rule index_block_reads [OF assms(1,2) _ assms(3), of 1]) simp_all
  let ?ind = "index_at rd (f_dev fp) ind (n div 512)"
  have nindir: "f_nindir fp' ! 0 = 512"
    using step(4) by (simp add: cache_ok_def)
  have dev: "f_dev fp' = f_dev fp"
    using step(5) by (simp add: same_file_def)
  have entry: "index_entry data (n div 512) = Inr ?ind"
    using step(2,3) False assms(4) by (simp add: index_entry_of_block index_at_def)
  have "maps_to rd fp' (map_levels rd 0 (n mod 512) ?ind fp') (index_at rd (f_dev fp') ?ind (n mod 512))"
    using assms step by (intro map_level_0) (simp_all add: dev)
  then have "maps_to rd fp (map_levels rd 0 (n mod 512) ?ind fp') (index_at rd (f_dev fp) ?ind (n mod 512))"
    using step(5-7) same_file_trans by (fastforce simp: maps_to_def dev)
  moreover have "map_levels rd 1 n ind fp = map_levels rd 0 (n mod 512) ?ind fp'"
    using step(1) False entry nindir by (simp add: map_levels.simps [of rd "Suc 0"])
  ultimately show ?thesis by simp
qed

lemma block_map_maps:
  assumes "device_ok rd (f_dev fp)" "cache_ok rd fp" "index_ok rd (f_dev fp) (i_ic fp)" "n < 65536"
  shows "maps_to rd fp (block_map rd n fp) (file_zone rd (f_dev fp) (i_ic fp) n)"
proof -
  have nindir: "take 2 (f_nindir fp) = [512, 262144]"
    using assms(2) by (simp add: cache_ok_def)
  consider "n < 7" | "7 \<le> n" "n < 519" | "519 \<le> n" by linarith
  then show ?thesis
  proof cases
    case 1
    then show ?thesis using assms(2) by (simp add: block_map_def maps_to_def file_zone_def)
  next
    case 2
    then have "n - 7 < 512" by linarith
    with 2 show ?thesis
      using assms map_level_0 [of rd fp "i_zone (i_ic fp) ! 7" "n - 7"]
      by (simp add: block_map_def nindir file_zone_def index_ok_def)
  next
    case 3
    then have "\<not> n - 7 < 512" "n - 7 - 512 = n - 519" "n - 519 < 262144" "(n - 519) div 512 < 512"
      using assms(4) by linarith+
    with 3 show ?thesis
      using assms map_level_1 [of rd fp "i_zone (i_ic fp) ! 8" "n - 519"]
      by (simp add: block_map_def nindir file_zone_def index_ok_def)
  qed
qed

section \<open>Reading\<close>

text \<open>The buffer after a load holds the block that was asked for.\<close>

definition loaded :: "device \<Rightarrow> minix_file \<Rightarrow> nat \<Rightarrow> minix_file \<Rightarrow> bool" where
  "loaded rd fp n fp' \<longleftrightarrow> file_ok rd fp' \<and> same_file fp fp' \<and>
     f_buf fp' = Buffer (zone_bytes rd (f_dev fp) (file_zone rd (f_dev fp) (i_ic fp) n))"

lemma cache_ok_buf [simp]: "cache_ok rd (fp\<lparr>f_buf := b, f_buf_blkno := n\<rparr>) = cache_ok rd fp"
  by (simp add: cache_ok_def level_ok_def)

lemma load_block_loads:
  assumes ok: "file_ok rd fp" and n: "n < 65536"
  obtains fp' where "load_block rd n fp = Inr (0, fp')" "loaded rd fp n fp'"
proof (cases "int n = f_buf_blkno fp")
  case True
  then have "nat (f_buf_blkno fp) = n" "f_buf_blkno fp \<noteq> - 1" by linarith+
  with True show thesis
    using ok by (intro that [of fp]) (auto simp: load_block_def loaded_def file_ok_def buf_ok_def)
next
  case False
  let ?b = "file_zone rd (f_dev fp) (i_ic fp) n"
  obtain fp1 where fp1: "block_map rd n fp = Inr (0, ?b, fp1)" "cache_ok rd fp1" "same_file fp fp1"
    "f_buf fp1 = f_buf fp" "f_buf_blkno fp1 = f_buf_blkno fp"
    using ok n block_map_maps [of rd fp n] by (auto simp: file_ok_def maps_to_def)
  have nstale: "f_buf fp1 \<noteq> Stale"
    using ok fp1(4) by (auto simp: file_ok_def buf_ok_def split: if_splits)
  let ?fp' = "fp1\<lparr>f_buf := Buffer (zone_bytes rd (f_dev fp) ?b), f_buf_blkno := int n\<rparr>"
  obtain bs where bs: "rd (f_dev fp) (minix_fsbtodb ?b) 1024 = Inr bs"
    using ok device_block [of rd "f_dev fp"] unfolding file_ok_def by blast
  have "load_block rd n fp = Inr (0, ?fp')"
    using False fp1(1) nstale bs by (simp add: load_block_def zone_bytes_def)
  moreover have "loaded rd fp n ?fp'"
    using ok fp1 by (simp add: loaded_def file_ok_def same_file_def buf_ok_def)
  ultimately show thesis by (rule that)
qed

lemma zone_bytes_length [simp]: "device_ok rd dev \<Longrightarrow> length (zone_bytes rd dev b) = 1024"
  by (auto simp: zone_bytes_def elim: device_block [of rd dev "minix_fsbtodb b"])

text \<open>The bytes of the file in the block of an offset.\<close>

lemma block_bytes:
  assumes "device_ok rd dev" "off < 1024" "off + n \<le> 1024"
  shows "take n (drop off (zone_bytes rd dev (file_zone rd dev ino q))) =
    map (file_byte rd dev ino) [q * 1024 + off..<q * 1024 + off + n]"
proof (rule nth_equalityI)
  fix i assume "i < length (take n (drop off (zone_bytes rd dev (file_zone rd dev ino q))))"
  then have i: "i < n" and le: "off + i < 1024" using assms by auto
  have "(q * 1024 + off + i) div 1024 = q" "(q * 1024 + off + i) mod 1024 = off + i"
    using le by (simp_all add: add.assoc)
  then show "take n (drop off (zone_bytes rd dev (file_zone rd dev ino q))) ! i =
      map (file_byte rd dev ino) [q * 1024 + off..<q * 1024 + off + n] ! i"
    using i assms by (simp add: file_byte_def)
qed (use assms in simp)

lemma buf_read_file_reads:
  assumes ok: "file_ok rd fp" and off: "offset < i_size (i_ic fp)" "offset < 67108864"
  obtains fp' where
    "buf_read_file rd offset fp =
       Inr (0, map (file_byte rd (f_dev fp) (i_ic fp)) [offset..<offset + (1024 - offset mod 1024)],
            min (1024 - offset mod 1024) (i_size (i_ic fp) - offset), fp')"
    "file_ok rd fp'" "same_file fp fp'"
proof -
  have n: "minix_daddr (minix_lblkno offset) = offset div 1024" "offset div 1024 < 65536"
    using off(2) by (simp_all add: minix_daddr_def minix_lblkno_def)
  obtain fp' where fp': "load_block rd (offset div 1024) fp = Inr (0, fp')" "loaded rd fp (offset div 1024) fp'"
    using load_block_loads [OF ok n(2)] .
  have dev: "device_ok rd (f_dev fp)" using ok by (simp add: file_ok_def)
  have "drop (offset mod 1024) (zone_bytes rd (f_dev fp) (file_zone rd (f_dev fp) (i_ic fp) (offset div 1024))) =
    map (file_byte rd (f_dev fp) (i_ic fp)) [offset..<offset + (1024 - offset mod 1024)]"
    using block_bytes [OF dev, of "offset mod 1024" "1024 - offset mod 1024" "i_ic fp" "offset div 1024"] dev by simp
  then show thesis
    using off(1) n fp' by (intro that [of fp']) (simp_all add: buf_read_file_def minix_blkoff_def loaded_def)
qed

lemma upt_split: "i \<le> j \<Longrightarrow> j \<le> k \<Longrightarrow> [i..<j] @ [j..<k] = [i..<k]"
  using upt_add_eq_append [of i j "k - j"] by simp

text \<open>The bytes up to the end of the file or of the request, whichever comes first.\<close>

lemma minix_read_file_loop:
  "\<lbrakk>file_ok rd fp; offset \<le> i_size (i_ic fp); i_size (i_ic fp) \<le> 67108864\<rbrakk> \<Longrightarrow>
   \<exists>fp' resid. minix_read_file rd offset sz fp =
     Inr (if offset + sz \<le> i_size (i_ic fp) then 0 else FS_NOT_IN_FILE,
          map (file_byte rd (f_dev fp) (i_ic fp)) [offset..<min (offset + sz) (i_size (i_ic fp))],
          resid, fp') \<and> resid = offset + sz - min (offset + sz) (i_size (i_ic fp)) \<and>
     file_ok rd fp' \<and> same_file fp fp'"
proof (induction sz arbitrary: offset fp rule: less_induct)
  case (less sz)
  let ?byte = "file_byte rd (f_dev fp) (i_ic fp)" and ?eof = "i_size (i_ic fp)"
  consider "sz = 0" | "sz \<noteq> 0" "offset = ?eof" | "sz \<noteq> 0" "offset < ?eof" using less.prems(2) by linarith
  then show ?case
  proof cases
    case 1
    then show ?thesis using less.prems by (simp add: minix_read_file.simps)
  next
    case 2
    then show ?thesis
      using less.prems by (subst minix_read_file.simps) (simp add: buf_read_file_def)
  next
    case 3
    obtain fp1 where fp1: "buf_read_file rd offset fp =
        Inr (0, map ?byte [offset..<offset + (1024 - offset mod 1024)], min (1024 - offset mod 1024) (?eof - offset), fp1)"
      "file_ok rd fp1" "same_file fp fp1"
      by (rule buf_read_file_reads [OF less.prems(1) 3(2)]) (use less.prems(3) 3(2) in simp_all)
    define csize where "csize = min sz (min (1024 - offset mod 1024) (?eof - offset))"
    have c: "0 < csize" "csize \<le> sz" "offset + csize \<le> ?eof" "csize \<le> 1024 - offset mod 1024"
      using 3 by (auto simp: csize_def)
    have same: "f_dev fp1 = f_dev fp" "i_ic fp1 = i_ic fp" using fp1(3) by (simp_all add: same_file_def)
    have lt: "sz - csize < sz" and eq: "offset + csize + (sz - csize) = offset + sz" using c by linarith+
    obtain fp2 where fp2: "minix_read_file rd (offset + csize) (sz - csize) fp1 =
        Inr (if offset + sz \<le> ?eof then 0 else FS_NOT_IN_FILE,
             map ?byte [offset + csize..<min (offset + sz) ?eof], offset + sz - min (offset + sz) ?eof, fp2)"
      "file_ok rd fp2" "same_file fp1 fp2"
      using less.IH [OF lt fp1(2), of "offset + csize", unfolded same eq, OF c(3) less.prems(3)] by blast
    have take: "take csize (map ?byte [offset..<offset + (1024 - offset mod 1024)]) = map ?byte [offset..<offset + csize]"
      using c by (simp add: take_map)
    have split: "map ?byte [offset..<offset + csize] @ map ?byte [offset + csize..<min (offset + sz) ?eof] =
        map ?byte [offset..<min (offset + sz) ?eof]"
      using c upt_split [of offset "offset + csize" "min (offset + sz) ?eof"] by (simp flip: map_append)
    have "minix_read_file rd offset sz fp =
        Inr (if offset + sz \<le> ?eof then 0 else FS_NOT_IN_FILE, map ?byte [offset..<min (offset + sz) ?eof],
             offset + sz - min (offset + sz) ?eof, fp2)"
      using 3(1) fp1(1) c take
      by (subst minix_read_file.simps) (simp add: Let_def fp2(1) split flip: csize_def)
    then show ?thesis
      using fp2(2) same_file_trans [OF fp1(3) fp2(3)] by blast
  qed
qed

section \<open>Directories\<close>

text \<open>A directory is the sequence of its entries of 16 bytes; a name stands for the first entry in use that has it.\<close>

definition dir_entry :: "device \<Rightarrow> nat \<Rightarrow> minix_inode \<Rightarrow> nat \<Rightarrow> u8 list" where
  "dir_entry rd dev ino k = map (file_byte rd dev ino) [16 * k..<16 * k + 16]"

definition dir_entries :: "device \<Rightarrow> nat \<Rightarrow> minix_inode \<Rightarrow> u8 list list" where
  "dir_entries rd dev ino = map (dir_entry rd dev ino) [0..<(i_size ino + 15) div 16]"

definition entry_is :: "string \<Rightarrow> u8 list \<Rightarrow> bool" where
  "entry_is name e \<longleftrightarrow> get16 0 e \<noteq> 0 \<and> entry_name e = name"

definition dir_find :: "device \<Rightarrow> nat \<Rightarrow> minix_inode \<Rightarrow> string \<Rightarrow> nat option" where
  "dir_find rd dev ino name = map_option (get16 0) (find (entry_is name) (dir_entries rd dev ino))"

lemma get16_take [simp]: "k + 1 < n \<Longrightarrow> get16 k (take n bs) = get16 k bs"
  by (simp add: get16_def)

lemma entry_name_take [simp]: "entry_name (take 16 bs) = entry_name bs"
  by (simp add: entry_name_def drop_take)

lemma entry_in_block:
  "take 16 (map (file_byte rd dev ino) [16 * k..<16 * k + (1024 - 16 * k mod 1024)]) = dir_entry rd dev ino k"
  "16 \<le> 1024 - 16 * k mod 1024"
proof -
  have "16 * k mod 1024 = 16 * (k mod 64)" using mult_mod_right [of 16 k 64] by simp
  moreover have "k mod 64 < 64" by simp
  ultimately show "16 \<le> 1024 - 16 * k mod 1024" by linarith
  then show "take 16 (map (file_byte rd dev ino) [16 * k..<16 * k + (1024 - 16 * k mod 1024)]) = dir_entry rd dev ino k"
    by (simp add: dir_entry_def take_map)
qed

lemma search_entries_finds:
  "\<lbrakk>file_ok rd fp; i_size (i_ic fp) \<le> 67108864; k \<le> n; n = (i_size (i_ic fp) + 15) div 16\<rbrakk> \<Longrightarrow>
   \<exists>fp'. search_entries rd name (i_size (i_ic fp)) (16 * k) fp =
     Inr (case find (entry_is name) (map (dir_entry rd (f_dev fp) (i_ic fp)) [k..<n]) of
            None \<Rightarrow> (FS_NO_ENTRY, 0, fp') | Some e \<Rightarrow> (0, get16 0 e, fp')) \<and> file_ok rd fp' \<and> same_file fp fp'"
proof (induction "n - k" arbitrary: k fp)
  case 0
  then have "k = n" "i_size (i_ic fp) \<le> 16 * k" by linarith+
  then show ?case using 0 by (subst search_entries.simps) simp
next
  case (Suc d)
  let ?eof = "i_size (i_ic fp)" and ?entry = "dir_entry rd (f_dev fp) (i_ic fp)"
  have k: "k < n" "16 * k < ?eof" "16 * k < 67108864" "d = n - Suc k" "Suc k \<le> n" using Suc.hyps(2) Suc.prems by linarith+
  obtain fp1 where fp1: "buf_read_file rd (16 * k) fp =
      Inr (0, map (file_byte rd (f_dev fp) (i_ic fp)) [16 * k..<16 * k + (1024 - 16 * k mod 1024)],
           min (1024 - 16 * k mod 1024) (?eof - 16 * k), fp1)" "file_ok rd fp1" "same_file fp fp1"
    by (rule buf_read_file_reads [OF Suc.prems(1) k(2,3)])
  have same: "f_dev fp1 = f_dev fp" "i_ic fp1 = i_ic fp" using fp1(3) by (simp_all add: same_file_def)
  define dp where "dp = map (file_byte rd (f_dev fp) (i_ic fp)) [16 * k..<16 * k + (1024 - 16 * k mod 1024)]"
  have len: "16 \<le> length dp" using entry_in_block(2) [of k] by (simp add: dp_def)
  have e: "take 16 dp = ?entry k" unfolding dp_def by (rule entry_in_block(1))
  have dp: "get16 0 dp = get16 0 (?entry k)" "entry_name dp = entry_name (?entry k)"
    using e get16_take [of 0 16 dp] entry_name_take [of dp] by simp_all
  have step: "search_entries rd name ?eof (16 * k) fp =
      (if entry_is name (?entry k) then Inr (0, get16 0 (?entry k), fp1)
       else search_entries rd name ?eof (16 * Suc k) fp1)"
    using k len by (subst search_entries.simps) (simp add: fp1(1) [folded dp_def] dp entry_is_def add.commute)
  have upt: "[k..<n] = k # [Suc k..<n]" using k(1) by (rule upt_conv_Cons)
  show ?case
  proof (cases "entry_is name (?entry k)")
    case True
    then show ?thesis using step upt fp1(2,3) by simp
  next
    case False
    obtain fp2 where "search_entries rd name ?eof (16 * Suc k) fp1 =
        Inr (case find (entry_is name) (map ?entry [Suc k..<n]) of
               None \<Rightarrow> (FS_NO_ENTRY, 0, fp2) | Some e \<Rightarrow> (0, get16 0 e, fp2))" "file_ok rd fp2" "same_file fp1 fp2"
      using Suc.hyps(1) [OF k(4) fp1(2), unfolded same, OF Suc.prems(2) k(5) Suc.prems(4)] by blast
    then show ?thesis using False step upt same_file_trans [OF fp1(3)] by auto
  qed
qed

lemma search_directory_finds:
  assumes "file_ok rd fp" "i_size (i_ic fp) \<le> 67108864"
  obtains fp' where "search_directory rd name fp =
      Inr (case dir_find rd (f_dev fp) (i_ic fp) name of None \<Rightarrow> (FS_NO_ENTRY, 0, fp') | Some n \<Rightarrow> (0, n, fp'))"
    "file_ok rd fp'" "same_file fp fp'"
  using search_entries_finds [OF assms le0 refl, of name]
  by (auto simp: search_directory_def dir_find_def dir_entries_def option.case_eq_if option.map_sel split: if_splits)

section \<open>Paths\<close>

definition inode_at :: "device \<Rightarrow> nat \<Rightarrow> minix_super \<Rightarrow> nat \<Rightarrow> minix_inode" where
  "inode_at rd dev fs n =
     (case rd dev (minix_fsbtodb (minix_daddr (minix_ino2blk fs n))) 1024 of
        Inl rc \<Rightarrow> inode_of (replicate 32 0)
      | Inr buf \<Rightarrow> inode_of (drop (32 * minix_itoo n) buf))"

definition inode_ok :: "device \<Rightarrow> nat \<Rightarrow> minix_inode \<Rightarrow> bool" where
  "inode_ok rd dev ino \<longleftrightarrow> index_ok rd dev ino \<and> i_size ino \<le> 67108864"

function path_components :: "string \<Rightarrow> string list" where
  "path_components cp = (if cp = [] then [] else next_component cp # path_components (after_component cp))"
  by pat_completeness auto
termination
  by (relation "measure length") (auto simp: after_component_shorter)

declare path_components.simps [simp del]

fun resolve :: "device \<Rightarrow> nat \<Rightarrow> minix_super \<Rightarrow> minix_inode \<Rightarrow> string list \<Rightarrow> int + minix_inode" where
  "resolve rd dev fs ino [] = Inr ino"
| "resolve rd dev fs ino (name # names) =
     (if i_mode ino AND 61440 \<noteq> 16384 then Inl FS_NOT_DIRECTORY
      else if scan_component 0 name \<noteq> 0 then Inl (scan_component 0 name)
      else (case dir_find rd dev ino name of
              None \<Rightarrow> Inl FS_NO_ENTRY
            | Some n \<Rightarrow> resolve rd dev fs (inode_at rd dev fs n) names))"

text \<open>The inodes on the way are sound.\<close>

fun walk_ok :: "device \<Rightarrow> nat \<Rightarrow> minix_super \<Rightarrow> minix_inode \<Rightarrow> string list \<Rightarrow> bool" where
  "walk_ok rd dev fs ino [] \<longleftrightarrow> inode_ok rd dev ino"
| "walk_ok rd dev fs ino (name # names) \<longleftrightarrow> inode_ok rd dev ino \<and>
     (case dir_find rd dev ino name of None \<Rightarrow> True | Some n \<Rightarrow> walk_ok rd dev fs (inode_at rd dev fs n) names)"

text \<open>A file at the end of a walk: open on an inode, or closed.\<close>

definition file_closed :: "minix_file \<Rightarrow> bool" where
  "file_closed fp \<longleftrightarrow> f_fs fp = None \<and> f_buf fp = No_Buffer \<and> f_blk fp = [No_Buffer, No_Buffer]"

definition walked :: "device \<Rightarrow> nat \<Rightarrow> minix_super \<Rightarrow> int + minix_inode \<Rightarrow> (int \<times> minix_file) outcome \<Rightarrow> bool" where
  "walked rd dev fs r out \<longleftrightarrow>
     (case r of
        Inl rc \<Rightarrow> \<exists>fp. out = Inr (rc, fp) \<and> file_closed fp
      | Inr ino \<Rightarrow> \<exists>fp. out = Inr (0, fp) \<and> file_ok rd fp \<and> f_dev fp = dev \<and> f_fs fp = Some fs \<and> i_ic fp = ino)"

lemma buf_ok_not_stale: "buf_ok rd fp \<Longrightarrow> f_buf fp \<noteq> Stale"
  by (auto simp: buf_ok_def split: if_splits)

lemma close_with_closes: "file_ok rd fp \<Longrightarrow> walked rd dev fs (Inl rc) (close_with rc fp)"
  using buf_ok_not_stale [of rd fp]
  by (simp add: walked_def close_with_def minix_close_file_def unmount_fs_def free_file_buffers_def file_closed_def
      file_ok_def numeral_2_eq_2)

lemma read_inode_reads:
  assumes dev: "device_ok rd (f_dev fp)" and fs: "f_fs fp = Some fs" and nindir: "f_nindir fp = [512, 262144]"
    and buf: "f_buf fp \<noteq> Stale" and ino: "index_ok rd (f_dev fp) (inode_at rd (f_dev fp) fs n)"
  shows "walked rd (f_dev fp) fs (Inr (inode_at rd (f_dev fp) fs n)) (read_inode rd n fp)"
proof -
  obtain bs where bs: "rd (f_dev fp) (minix_fsbtodb (minix_daddr (minix_ino2blk fs n))) 1024 = Inr bs" "length bs = 1024"
    by (rule device_block [OF dev])
  have "minix_itoo n < 32" by (simp add: minix_itoo_def)
  then have "\<not> length bs < 32 * minix_itoo n + 32" using bs(2) by linarith
  then show ?thesis
    using bs(1) fs dev nindir buf ino
    by (simp add: walked_def read_inode_def free_file_buffers_def inode_at_def file_ok_def cache_ok_def level_ok_def
        buf_ok_def numeral_2_eq_2)
qed

lemma walk_path_resolves:
  "\<lbrakk>file_ok rd fp; f_fs fp = Some fs; walk_ok rd (f_dev fp) fs (i_ic fp) (path_components cp)\<rbrakk> \<Longrightarrow>
   walked rd (f_dev fp) fs (resolve rd (f_dev fp) fs (i_ic fp) (path_components cp)) (walk_path rd cp fp)"
proof (induction "length cp" arbitrary: cp fp rule: less_induct)
  case less
  note close = close_with_closes [OF less.prems(1)]
  let ?dev = "f_dev fp" and ?ino = "i_ic fp" and ?name = "next_component cp"
  show ?case
  proof (cases "cp = [] \<or> \<not> minix_file_is_directory fp \<or> scan_component 0 ?name \<noteq> 0")
    case True
    then show ?thesis
      using less.prems close
      by (subst walk_path.simps) (auto simp: path_components.simps [of cp] minix_file_is_directory_def walked_def)
  next
    case False
    then have comps: "path_components cp = ?name # path_components (after_component cp)"
      by (simp add: path_components.simps [of cp])
    have ok: "i_size ?ino \<le> 67108864" using less.prems(3) by (simp add: comps inode_ok_def)
    obtain fp1 where fp1: "search_directory rd ?name fp =
        Inr (case dir_find rd ?dev ?ino ?name of None \<Rightarrow> (FS_NO_ENTRY, 0, fp1) | Some n \<Rightarrow> (0, n, fp1))"
      "file_ok rd fp1" "same_file fp fp1"
      by (rule search_directory_finds [OF less.prems(1) ok])
    have same: "f_dev fp1 = ?dev" "i_ic fp1 = ?ino" "f_fs fp1 = Some fs"
      using fp1(3) less.prems(2) by (simp_all add: same_file_def)
    show ?thesis
    proof (cases "dir_find rd ?dev ?ino ?name")
      case None
      then show ?thesis
        using False fp1(1) close_with_closes [OF fp1(2)]
        by (subst walk_path.simps) (simp add: comps minix_file_is_directory_def)
    next
      case (Some n)
      let ?next = "inode_at rd ?dev fs n"
      have nxt: "walk_ok rd ?dev fs ?next (path_components (after_component cp))"
        using less.prems(3) Some by (simp add: comps)
      then have "index_ok rd ?dev ?next"
        by (cases "path_components (after_component cp)") (simp_all add: inode_ok_def)
      then obtain fp2 where fp2: "read_inode rd n fp1 = Inr (0, fp2)" "file_ok rd fp2" "f_dev fp2 = ?dev"
        "f_fs fp2 = Some fs" "i_ic fp2 = ?next"
        using read_inode_reads [of rd fp1 fs n] fp1(2) same buf_ok_not_stale [of rd fp1]
        by (auto simp: walked_def file_ok_def cache_ok_def)
      have "walked rd ?dev fs (resolve rd ?dev fs ?next (path_components (after_component cp)))
          (walk_path rd (after_component cp) fp2)"
        using less.hyps [of "after_component cp" fp2] fp2 nxt False by (simp add: after_component_shorter)
      moreover have "walk_path rd cp fp = walk_path rd (after_component cp) fp2"
        using False fp1(1) Some fp2(1) by (subst walk_path.simps) simp
      ultimately show ?thesis
        using False Some by (simp add: comps minix_file_is_directory_def)
    qed
  qed
qed

lemma resolve_ok: "walk_ok rd dev fs ino names \<Longrightarrow> resolve rd dev fs ino names = Inr ino' \<Longrightarrow> inode_ok rd dev ino'"
  by (induction rd dev fs ino names rule: resolve.induct) (auto split: if_splits option.splits)

lemma walk_ok_inode: "walk_ok rd dev fs ino names \<Longrightarrow> inode_ok rd dev ino"
  by (cases names) simp_all

lemma minix_open_file_walks:
  assumes "device_ok rd dev" "device_open name = Inr dev" "CHR ''/'' \<notin> set name" "length name + length cs \<le> 1018"
    "f_buf fp \<noteq> Stale" "read_fs rd dev = Inr (Inr fs)"
    and walk: "walk_ok rd dev fs (inode_at rd dev fs 1) (path_components (CHR ''/'' # cs))"
  shows "walked rd dev fs (resolve rd dev fs (inode_at rd dev fs 1) (path_components (CHR ''/'' # cs)))
    (minix_open_file rd device_open (Some (''/dev/'' @ name @ CHR ''/'' # cs)) fp)"
proof -
  let ?fp1 = "fp\<lparr>f_dev := dev, f_fs := Some fs, f_nindir := [512, 262144]\<rparr>"
  have name: "takeWhile (\<lambda>c. c \<noteq> CHR ''/'') (name @ CHR ''/'' # cs) = name"
    "dropWhile (\<lambda>c. c \<noteq> CHR ''/'') (name @ CHR ''/'' # cs) = CHR ''/'' # cs"
    using assms(3) by (auto simp: takeWhile_append dropWhile_append)
  have mount: "mount_fs rd (fp\<lparr>f_dev := dev\<rparr>) = Inr (0, ?fp1)"
    by (simp add: mount_fs_def assms(6))
  obtain fp2 where fp2: "read_inode rd 1 ?fp1 = Inr (0, fp2)" "file_ok rd fp2" "f_dev fp2 = dev" "f_fs fp2 = Some fs"
    "i_ic fp2 = inode_at rd dev fs 1"
    using read_inode_reads [of rd ?fp1 fs 1] assms(1,5) walk_ok_inode [OF walk] by (auto simp: walked_def inode_ok_def)
  have "minix_open_file rd device_open (Some (''/dev/'' @ name @ CHR ''/'' # cs)) fp = walk_path rd (CHR ''/'' # cs) fp2"
    using assms(2,4) fp2(1) mount by (simp add: minix_open_file_def name)
  then show ?thesis
    using walk_path_resolves [OF fp2(2,4), unfolded fp2(3,5), OF walk] by simp
qed

text \<open>C10: opening a path of the form \<open>/dev/device/path\<close> gives the file that the names of the path lead to through
  the directories on the device, or the error of the first name that does not, with the file closed; reading the open
  file copies exactly its bytes, up to the end of the file, and is an error when the request goes past the end. The
  device gives whole blocks, the super block has the right number, and the inodes on the way have at most 64 MB and no
  index block numbered 65535.\<close>

theorem minix_open_reads_file:
  assumes "device_ok rd dev" "device_open name = Inr dev" "CHR ''/'' \<notin> set name" "length name + length cs \<le> 1018"
    "f_buf fp \<noteq> Stale" "read_fs rd dev = Inr (Inr fs)"
    "walk_ok rd dev fs (inode_at rd dev fs 1) (path_components (CHR ''/'' # cs))"
  shows "case resolve rd dev fs (inode_at rd dev fs 1) (path_components (CHR ''/'' # cs)) of
      Inl rc \<Rightarrow>
        (\<exists>fp1. minix_open_file rd device_open (Some (''/dev/'' @ name @ CHR ''/'' # cs)) fp = Inr (rc, fp1) \<and> file_closed fp1)
    | Inr ino \<Rightarrow>
        (\<exists>fp1. minix_open_file rd device_open (Some (''/dev/'' @ name @ CHR ''/'' # cs)) fp = Inr (0, fp1) \<and>
           (\<forall>offset sz. offset \<le> i_size ino \<longrightarrow>
              (\<exists>fp2. minix_read_file rd offset sz fp1 =
                 Inr (if offset + sz \<le> i_size ino then 0 else FS_NOT_IN_FILE,
                      map (file_byte rd dev ino) [offset..<min (offset + sz) (i_size ino)],
                      offset + sz - min (offset + sz) (i_size ino), fp2))))"
proof (cases "resolve rd dev fs (inode_at rd dev fs 1) (path_components (CHR ''/'' # cs))")
  case (Inl rc)
  then show ?thesis
    using minix_open_file_walks [where device_open = device_open and name = name, OF assms] by (simp add: walked_def)
next
  case (Inr ino)
  have len: "i_size ino \<le> 67108864" using resolve_ok [OF assms(7) Inr] by (simp add: inode_ok_def)
  obtain fp1 where fp1: "minix_open_file rd device_open (Some (''/dev/'' @ name @ CHR ''/'' # cs)) fp = Inr (0, fp1)"
    "file_ok rd fp1" "f_dev fp1 = dev" "i_ic fp1 = ino"
    using minix_open_file_walks [where device_open = device_open and name = name, OF assms] Inr by (auto simp: walked_def)
  have "\<forall>offset sz. offset \<le> i_size ino \<longrightarrow>
      (\<exists>fp2. minix_read_file rd offset sz fp1 =
         Inr (if offset + sz \<le> i_size ino then 0 else FS_NOT_IN_FILE,
              map (file_byte rd dev ino) [offset..<min (offset + sz) (i_size ino)],
              offset + sz - min (offset + sz) (i_size ino), fp2))"
    using minix_read_file_loop [OF fp1(2), unfolded fp1(3,4)] len by blast
  then show ?thesis
    unfolding Inr sum.case using fp1(1) by blast
qed

section \<open>Files with their block map in memory\<close>

lemma lookup_blocks_maps:
  "\<lbrakk>device_ok rd (f_dev fp); cache_ok rd fp; index_ok rd (f_dev fp) (i_ic fp); i + n \<le> 65536\<rbrakk> \<Longrightarrow>
   \<exists>fp'. lookup_blocks rd i n fp = Inr (0, map (file_zone rd (f_dev fp) (i_ic fp)) [i..<i + n], fp') \<and>
     f_buf fp' = f_buf fp"
proof (induction n arbitrary: i fp)
  case (Suc n)
  have i: "minix_daddr i = i" using Suc.prems(4) by (simp add: minix_daddr_def)
  obtain fp1 where fp1: "block_map rd i fp = Inr (0, file_zone rd (f_dev fp) (i_ic fp) i, fp1)" "cache_ok rd fp1"
    "same_file fp fp1" "f_buf fp1 = f_buf fp"
    using block_map_maps [OF Suc.prems(1-3), of i] Suc.prems(4) by (auto simp: maps_to_def)
  have same: "f_dev fp1 = f_dev fp" "i_ic fp1 = i_ic fp" using fp1(3) by (simp_all add: same_file_def)
  have "\<exists>fp2. lookup_blocks rd (Suc i) n fp1 =
      Inr (0, map (file_zone rd (f_dev fp) (i_ic fp)) [Suc i..<Suc i + n], fp2) \<and> f_buf fp2 = f_buf fp"
    using Suc.IH [of fp1 "Suc i"] Suc.prems fp1 by (simp add: same)
  moreover have "[i..<i + Suc n] = i # [Suc i..<Suc i + n]" by (simp add: upt_conv_Cons)
  ultimately show ?case using fp1(1) i by auto
qed simp

lemma log2_block: "log2_loop 1024 = Inr 10" "log2_loop 2 = Inr 1"
  by (simp_all add: log2_loop.simps)

lemma open_direct_fields:
  assumes "device_ok rd dev" "minix_open_file_direct rd page_size dev True fdp0 = Inr (0, fdp)"
  shows "fdp = \<lparr>fd_dev = dev, fd_blocks = None, fd_size = 0, fd_bsize = 1024, fd_bshift = 10, fd_fsbtodb = 1\<rparr>"
proof -
  obtain bs where "rd dev 2 1024 = Inr bs" "length bs = 1024"
    by (rule device_block [OF assms(1)])
  then show ?thesis
    using assms(2) by (simp add: minix_open_file_direct_def read_fs_def log2_block split: if_splits)
qed

text \<open>C27: a file added to an empty in-memory block map has its whole blocks there, and a page read through the map gives
  the bytes of the file, as a read through the file does; a page of a hole is reported as not in the file.\<close>

theorem minix_direct_pages:
  assumes ok: "file_ok rd fp" "f_fs fp \<noteq> None" "i_size (i_ic fp) \<le> 67108864" and alloc: "\<And>n. vm_allocate n = 0"
    and page: "offset mod 1024 = 0" "offset + 1024 \<le> i_size (i_ic fp)" "sz mod 512 = 0" "1024 \<le> sz"
    and fdp: "minix_open_file_direct rd page_size (f_dev fp) True fdp0 = Inr (0, fdp)"
  shows "\<exists>fdp' fp'. minix_add_file_direct rd get_status vm_allocate fdp fp = Inr (0, fdp', fp') \<and>
    minix_page_read_file_direct rd fdp' offset sz =
      Inr (if file_zone rd (f_dev fp) (i_ic fp) (offset div 1024) = 0 then Inl FS_NOT_IN_FILE
           else Inr (map (file_byte rd (f_dev fp) (i_ic fp)) [offset..<offset + 1024]))"
proof -
  let ?zone = "file_zone rd (f_dev fp) (i_ic fp)" and ?n = "i_size (i_ic fp) div 1024" and ?q = "offset div 1024"
  have fd: "fdp = \<lparr>fd_dev = f_dev fp, fd_blocks = None, fd_size = 0, fd_bsize = 1024, fd_bshift = 10, fd_fsbtodb = 1\<rparr>"
    using ok(1) by (intro open_direct_fields [OF _ fdp]) (simp add: file_ok_def)
  let ?fdp' = "fdp\<lparr>fd_blocks := Some (map ?zone [0..<?n]), fd_size := ?n\<rparr>"
  have n: "0 + ?n \<le> 65536" using ok(3) by linarith
  obtain fp1 where "lookup_blocks rd 0 ?n fp = Inr (0, map ?zone [0..<?n], fp1)" "f_buf fp1 = f_buf fp"
    using lookup_blocks_maps [OF _ _ _ n, of rd fp] ok by (auto simp: file_ok_def)
  then have "\<exists>fp'. minix_add_file_direct rd get_status vm_allocate fdp fp = Inr (0, ?fdp', fp')"
    using ok(1,2) alloc buf_ok_not_stale [of rd fp]
    by (auto simp: minix_add_file_direct_def fd minix_lblkno_def Let_def free_file_buffers_def file_ok_def)
  moreover have "minix_page_read_file_direct rd ?fdp' offset sz =
      Inr (if ?zone ?q = 0 then Inl FS_NOT_IN_FILE else Inr (map (file_byte rd (f_dev fp) (i_ic fp)) [offset..<offset + 1024]))"
  proof -
    have off: "?q * 1024 = offset" using page(1) by (metis add.right_neutral div_mult_mod_eq)
    then have "Suc ?q * 1024 \<le> i_size (i_ic fp)" using page(2) by simp
    then have "Suc ?q \<le> ?n" by (simp only: less_eq_div_iff_mult_less_eq zero_less_numeral)
    moreover have "offset mod 512 = 0"
    proof -
      have "offset = ?q * 2 * 512" using off by linarith
      then show ?thesis by (metis mod_mult_self2_is_0)
    qed
    ultimately have q: "?q < ?n" "offset < ?n * 1024" "minix_daddr ?q = ?q" "?q * 1024 = offset" "offset mod 512 = 0"
      using off page(2) ok(3) by (simp_all add: minix_daddr_def)
    have dev: "device_ok rd (f_dev fp)" using ok(1) by (simp add: file_ok_def)
    obtain bs where bs: "rd (f_dev fp) (?zone ?q * 2) 1024 = Inr bs" "length bs = 1024"
      by (rule device_block [OF dev])
    have "?zone ?q \<noteq> 0 \<Longrightarrow> bs = map (file_byte rd (f_dev fp) (i_ic fp)) [offset..<offset + 1024]"
      using block_bytes [OF dev, of 0 1024 "i_ic fp" ?q] bs q(4) by (simp add: zone_bytes_def minix_fsbtodb_def mult.commute)
    then show ?thesis
      using q page bs(1) by (simp add: minix_page_read_file_direct_def direct_record_def fd Let_def min_def)
  qed
  ultimately show ?thesis by blast
qed

section \<open>A small disk\<close>

text \<open>A root directory with the entries \<open>.\<close> and \<open>f\<close>, and the file \<open>f\<close> of 1026 bytes in blocks 6 and 7.\<close>

definition minix_demo_block :: "nat \<Rightarrow> u8 list" where
  "minix_demo_block r =
     (if r = 2 then [32, 0, 64, 0, 1, 0, 1, 0, 5, 0, 0, 0, 0, 0, 0, 0, 0x7F, 0x13, 1, 0]
      else if r = 8
      then [0, 64, 0, 0, 32, 0, 0, 0, 0, 0, 0, 0, 0, 1, 5, 0, 0, 0, 0, 0, 0, 0, 0, 0, 0, 0, 0, 0, 0, 0, 0, 0,
            0, 128, 0, 0, 2, 4, 0, 0, 0, 0, 0, 0, 0, 1, 6, 0, 7, 0, 0, 0, 0, 0, 0, 0, 0, 0, 0, 0, 0, 0, 0, 0]
      else if r = 10
      then [1, 0, 46, 0, 0, 0, 0, 0, 0, 0, 0, 0, 0, 0, 0, 0, 2, 0, 102, 0, 0, 0, 0, 0, 0, 0, 0, 0, 0, 0, 0, 0]
      else if r = 14 then [65, 66] else [])"

definition minix_disk :: device where
  "minix_disk dev r n = Inr (take n (minix_demo_block r @ replicate (n - length (minix_demo_block r)) 0))"

definition demo_file :: minix_file where
  "demo_file = \<lparr>f_dev = 0, f_fs = None, i_ic = inode_of (replicate 32 0), f_nindir = [], f_blk = [No_Buffer, No_Buffer],
     f_blkno = [65535, 65535], f_buf = No_Buffer, f_buf_blkno = - 1\<rparr>"

definition demo_super :: minix_super where
  "demo_super = super_of (minix_demo_block 2)"

definition demo_inode :: "nat \<Rightarrow> nat \<Rightarrow> nat \<Rightarrow> nat \<Rightarrow> minix_inode" where
  "demo_inode mode n z0 z1 = \<lparr>i_mode = mode, i_uid = 0, i_size = n, i_time = 0, i_gid = 0, i_nlinks = 1,
     i_zone = [z0, z1, 0, 0, 0, 0, 0, 0, 0]\<rparr>"

lemma minix_disk_ok: "device_ok minix_disk dev"
  by (simp add: device_ok_def minix_disk_def minix_demo_block_def)

lemma demo_read_fs: "read_fs minix_disk dev = Inr (Inr demo_super)"
  by (simp add: read_fs_def minix_disk_def demo_super_def minix_demo_block_def super_of_def get16_def get_long_def)

lemma upt_9: "[0..<9] = [0, 1, 2, 3, 4, 5, 6, 7, 8 :: nat]"
  by (simp add: upt_rec)

lemmas demo_defs = inode_at_def minix_disk_def demo_super_def minix_demo_block_def super_of_def get16_def get_long_def inode_of_def
  demo_inode_def minix_ino2blk_def minix_daddr_def minix_fsbtodb_def minix_itoo_def upt_9

lemma demo_root: "inode_at minix_disk dev demo_super 1 = demo_inode 16384 32 5 0"
  by (simp add: demo_defs)

lemma demo_f: "inode_at minix_disk dev demo_super 2 = demo_inode 32768 1026 6 7"
  by (simp add: demo_defs)

lemma demo_inode_ok: "n \<le> 67108864 \<Longrightarrow> inode_ok minix_disk dev (demo_inode mode n z0 z1)"
  by (simp add: inode_ok_def index_ok_def index_at_def demo_inode_def)

lemma demo_bytes:
  assumes "q < 2" "off + n \<le> 1024" "off < 1024"
  shows "map (file_byte minix_disk dev (demo_inode mode sz z0 z1)) [q * 1024 + off..<q * 1024 + off + n] =
    take n (drop off (zone_bytes minix_disk dev (if q = 0 then z0 else z1)))"
proof -
  have "q = 0 \<or> q = 1" using assms(1) by auto
  then have "file_zone minix_disk dev (demo_inode mode sz z0 z1) q = (if q = 0 then z0 else z1)"
    by (auto simp: file_zone_def demo_inode_def)
  then show ?thesis using block_bytes [OF minix_disk_ok, of off n dev "demo_inode mode sz z0 z1" q] assms by simp
qed

lemma demo_entries:
  "dir_entries minix_disk dev (demo_inode 16384 32 5 0) = [take 16 (minix_demo_block 10), take 16 (drop 16 (minix_demo_block 10))]"
proof -
  have "[0..<2] = [0, 1 :: nat]" by (simp add: upt_rec)
  then show ?thesis
    using demo_bytes [of 0 0 16 dev 16384 32 5 0] demo_bytes [of 0 16 16 dev 16384 32 5 0]
    by (simp add: dir_entries_def dir_entry_def demo_inode_def zone_bytes_def minix_disk_def minix_demo_block_def
        minix_fsbtodb_def)
qed

lemma demo_find: "dir_find minix_disk dev (demo_inode 16384 32 5 0) ''f'' = Some 2"
  by (simp add: dir_find_def demo_entries minix_demo_block_def entry_is_def entry_name_def get16_def char_of_def bit_0)

lemma demo_path: "path_components ''/f'' = [''f'']"
  by (simp add: path_components.simps next_component_def after_component_def)

lemma demo_resolve:
  "walk_ok minix_disk dev demo_super (inode_at minix_disk dev demo_super 1) (path_components ''/f'')"
  "resolve minix_disk dev demo_super (inode_at minix_disk dev demo_super 1) (path_components ''/f'') =
     Inr (demo_inode 32768 1026 6 7)"
proof -
  have "i_mode (demo_inode 16384 32 5 0) AND 61440 = 16384" by (simp add: demo_inode_def)
  then show "resolve minix_disk dev demo_super (inode_at minix_disk dev demo_super 1) (path_components ''/f'') =
      Inr (demo_inode 32768 1026 6 7)"
    by (simp only: demo_path demo_root resolve.simps demo_find demo_f option.case) simp
  show "walk_ok minix_disk dev demo_super (inode_at minix_disk dev demo_super 1) (path_components ''/f'')"
    by (simp only: demo_path demo_root walk_ok.simps demo_find demo_f option.case) (simp add: demo_inode_ok)
qed

lemma demo_tail:
  "map (file_byte minix_disk dev (demo_inode 32768 1026 6 7)) [1022..<1026] = [0, 0, 65, 66]"
  using demo_bytes [of 0 1022 2 dev 32768 1026 6 7] demo_bytes [of 1 0 2 dev 32768 1026 6 7]
    upt_split [of 1022 1024 1026]
  by (simp add: zone_bytes_def minix_disk_def minix_demo_block_def minix_fsbtodb_def numeral_2_eq_2 upt_rec)

theorem minix_open_reads_file_witness:
  "\<exists>fp1 fp2. minix_open_file minix_disk (\<lambda>name. Inr 3) (Some ''/dev/hd/f'') demo_file = Inr (0, fp1) \<and>
     minix_read_file minix_disk 1022 4 fp1 = Inr (0, [0, 0, 65, 66], 0, fp2)"
proof -
  have "f_buf demo_file \<noteq> Stale" by (simp add: demo_file_def)
  then obtain fp1 where open_ok:
      "minix_open_file minix_disk (\<lambda>name. Inr 3) (Some (''/dev/'' @ ''hd'' @ CHR ''/'' # ''f'')) demo_file = Inr (0, fp1)"
    and reads: "\<forall>offset sz. offset \<le> i_size (demo_inode 32768 1026 6 7) \<longrightarrow>
      (\<exists>fp2. minix_read_file minix_disk offset sz fp1 =
         Inr (if offset + sz \<le> i_size (demo_inode 32768 1026 6 7) then 0 else FS_NOT_IN_FILE,
              map (file_byte minix_disk 3 (demo_inode 32768 1026 6 7))
                [offset..<min (offset + sz) (i_size (demo_inode 32768 1026 6 7))],
              offset + sz - min (offset + sz) (i_size (demo_inode 32768 1026 6 7)), fp2))"
    using minix_open_reads_file [OF minix_disk_ok, where device_open = "\<lambda>name. Inr 3" and name = "''hd''" and cs = "''f''"
        and dev = 3 and fp = demo_file and fs = demo_super, OF refl _ _ _ demo_read_fs demo_resolve(1)]
    unfolding demo_resolve(2) sum.case by (simp) blast
  have "i_size (demo_inode 32768 1026 6 7) = 1026" by (simp add: demo_inode_def)
  then have "\<exists>fp2. minix_read_file minix_disk 1022 4 fp1 = Inr (0, [0, 0, 65, 66], 0, fp2)"
    using reads [rule_format, of 1022 4] demo_tail [of 3] by simp
  then show ?thesis using open_ok by auto
qed

definition demo_sparse :: minix_file where
  "demo_sparse = demo_file\<lparr>f_dev := 3, f_fs := Some demo_super, i_ic := demo_inode 32768 2048 7 0, f_nindir := [512, 262144]\<rparr>"

lemma demo_sparse_ok: "file_ok minix_disk demo_sparse"
  using demo_inode_ok [of 2048 3 32768 7 0] minix_disk_ok [of 3]
  by (simp add: file_ok_def demo_sparse_def demo_file_def inode_ok_def cache_ok_def level_ok_def buf_ok_def)

definition demo_direct :: file_direct where
  "demo_direct = \<lparr>fd_dev = 3, fd_blocks = None, fd_size = 0, fd_bsize = 1024, fd_bshift = 10, fd_fsbtodb = 1\<rparr>"

lemma demo_open_direct: "minix_open_file_direct minix_disk 4096 3 True demo_direct = Inr (0, demo_direct)"
  by (simp add: minix_open_file_direct_def demo_read_fs log2_block demo_direct_def)

theorem minix_direct_pages_witness:
  "\<exists>fdp' fp'. minix_add_file_direct minix_disk (\<lambda>d. Inl 0) (\<lambda>n. 0) demo_direct demo_sparse = Inr (0, fdp', fp') \<and>
     minix_page_read_file_direct minix_disk fdp' 0 4096 = Inr (Inr ([65, 66] @ replicate 1022 0)) \<and>
     minix_page_read_file_direct minix_disk fdp' 1024 4096 = Inr (Inl FS_NOT_IN_FILE)"
proof -
  have sparse: "f_dev demo_sparse = 3" "i_ic demo_sparse = demo_inode 32768 2048 7 0" "f_fs demo_sparse \<noteq> None"
    "i_size (demo_inode 32768 2048 7 0) = 2048"
    by (simp_all add: demo_sparse_def demo_inode_def)
  note pages = minix_direct_pages [OF demo_sparse_ok sparse(3), unfolded sparse, where vm_allocate = "\<lambda>n. 0"
      and get_status = "\<lambda>d. Inl 0" and sz = 4096, OF _ _ _ _ _ _ demo_open_direct]
  have zones: "file_zone minix_disk 3 (demo_inode 32768 2048 7 0) 0 = 7" "file_zone minix_disk 3 (demo_inode 32768 2048 7 0) 1 = 0"
    by (simp_all add: file_zone_def demo_inode_def)
  have "map (file_byte minix_disk 3 (demo_inode 32768 2048 7 0)) [0..<1024] = [65, 66] @ replicate 1022 0"
    using demo_bytes [of 0 0 1024 3 32768 2048 7 0] by (simp add: zone_bytes_def minix_disk_def minix_demo_block_def minix_fsbtodb_def)
  then show ?thesis
    using pages [of 0] pages [of 1024] zones by auto
qed

section \<open>What the invariant excludes\<close>

text \<open>A read that fails leaves the file with a buffer that is gone: reading the block that was in it again uses it.\<close>

lemma failed_read_leaves_stale_buffer:
  assumes "f_buf_blkno fp = 0" "f_buf fp = Buffer bs" "i_size (i_ic fp) = 2048" "length (i_zone (i_ic fp)) = 9"
    "i_zone (i_ic fp) ! 1 = b" "b \<noteq> 0" "rd (f_dev fp) (minix_fsbtodb b) 1024 = Inl rc" "rc \<noteq> 0"
  shows "\<exists>fp1. minix_read_file rd 1024 1 fp = Inr (rc, [], 1, fp1) \<and> minix_read_file rd 0 1 fp1 = Inl Use_After_Free"
  using assms
  by (simp add: minix_read_file.simps buf_read_file_def load_block_def block_map_def minix_daddr_def minix_lblkno_def)

text \<open>The block number is kept in 16 bits: past 64 MB the file starts over.\<close>

lemma large_file_starts_over:
  assumes "67108864 + offset < i_size (i_ic fp)" "buf_read_file rd offset fp = Inr (0, buf, n, fp')"
  shows "\<exists>n'. buf_read_file rd (67108864 + offset) fp = Inr (0, buf, n', fp')"
proof -
  have "(67108864 + offset) div 1024 = 65536 + offset div 1024" "(67108864 + offset) mod 1024 = offset mod 1024"
    using div_mult_self1 [of 1024 offset 65536] mod_mult_self1 [of offset 65536 1024] by (simp_all add: add.commute)
  then show ?thesis
    using assms
    by (auto simp: buf_read_file_def minix_daddr_def minix_lblkno_def minix_blkoff_def split: sum.splits if_splits buffer.splits)
qed

text \<open>An index block numbered 65535 is taken to be in the empty cache.\<close>

lemma index_block_65535: "f_blkno fp ! level = 65535 \<Longrightarrow> f_blk fp ! level = No_Buffer \<Longrightarrow> index_block rd level 65535 fp = Inl Null_Deref"
  by (simp add: index_block_def)

end
