(* ===== verification/Memory.thy ===== *)
theory Memory
  imports Prelude
begin

text \<open>
  Memory byte by byte, with the 32 bit words that the allocators keep in it in little endian order.
\<close>

type_synonym memory = "nat \<Rightarrow> u8"

definition load_word :: "memory \<Rightarrow> nat \<Rightarrow> nat" where
  "load_word mem a = unat (of_le_bytes (map mem [a, a + 1, a + 2, a + 3]))"

definition store_word :: "memory \<Rightarrow> nat \<Rightarrow> nat \<Rightarrow> memory" where
  "store_word mem a v =
     (let bs = le_bytes (of_nat v) in mem(a := bs ! 0, a + 1 := bs ! 1, a + 2 := bs ! 2, a + 3 := bs ! 3))"

definition block :: "nat \<Rightarrow> nat \<Rightarrow> nat set" where
  "block a n = {a..<a + n}"

lemma load_store_word [simp]: "v < 2 ^ 32 \<Longrightarrow> load_word (store_word mem a v) a = v"
proof -
  assume v: "v < 2 ^ 32"
  have "[bs ! 0, bs ! 1, bs ! 2, bs ! 3] = bs" if "length bs = 4" for bs :: "u8 list"
    using that by (auto simp: length_Suc_conv numeral_eq_Suc)
  then show ?thesis
    using v by (simp add: load_word_def store_word_def Let_def unsigned_of_nat take_bit_nat_eq_self)
qed

lemma load_word_cong:
  assumes "\<And>x. x \<in> block a 4 \<Longrightarrow> mem' x = mem x"
  shows "load_word mem' a = load_word mem a"
  using assms by (simp add: load_word_def block_def)

lemma store_word_other: "x \<notin> block a 4 \<Longrightarrow> store_word mem a v x = mem x"
  by (auto simp: store_word_def block_def Let_def)

end
