(* ===== verification/Kalloc.thy ===== *)
theory Kalloc
  imports Memory
begin

text \<open>
  The memory allocator of the bootstrap task (\<^verbatim>\<open>src/mach/bootstrap/kalloc.c\<close>, with the wired \<open>vm_allocate\<close> of
  \<^verbatim>\<open>wiring.c\<close>): blocks below a page come from free lists by powers of two, which are chained through the free blocks
  themselves, or from the end of a contiguous space; larger blocks come from the system. Memory is byte by byte, so that
  a write of the client through a block it has given back would be seen. The spin locks are left out: the model is one
  thread. Addresses are natural numbers below \<open>2 ^ 32\<close>.
\<close>

section \<open>State\<close>

record kalloc_state =
  kalloc_max :: nat
  kfree_list :: "nat list"
  kfree_count :: "int list"
  kalloc_next_space :: nat
  kalloc_end_of_space :: nat
  kalloc_wasted_space :: nat
  kalloc_initialized :: bool
  kmem :: memory
  mapped :: "nat set"

text \<open>The system: the page size, whether there is a privileged host port, the address that \<open>vm_map\<close> gives for a hint, a
  size and the memory in use, and the code of \<open>vm_wire\<close> for an address and a size.\<close>

record vm_system =
  vm_page_size :: nat
  has_host_port :: bool
  vm_map :: "nat \<Rightarrow> nat \<Rightarrow> nat set \<Rightarrow> nat option"
  vm_wire :: "nat \<Rightarrow> nat \<Rightarrow> int"

abbreviation (input) KLIST_MAX :: nat where "KLIST_MAX \<equiv> 13"
abbreviation (input) MINSIZE :: nat where "MINSIZE \<equiv> 4"

definition kalloc_state0 :: kalloc_state where
  "kalloc_state0 = \<lparr>kalloc_max = 0, kfree_list = replicate KLIST_MAX 0, kfree_count = replicate KLIST_MAX 0,
     kalloc_next_space = 0, kalloc_end_of_space = 0, kalloc_wasted_space = 0, kalloc_initialized = False,
     kmem = (\<lambda>a. 0), mapped = {}\<rparr>"

definition round_page :: "vm_system \<Rightarrow> nat \<Rightarrow> nat" where
  "round_page sys n = (n + vm_page_size sys - 1) div vm_page_size sys * vm_page_size sys"

section \<open>Operations\<close>

definition wire_memory :: "vm_system \<Rightarrow> nat \<Rightarrow> nat \<Rightarrow> unit outcome" where
  "wire_memory sys start n =
     (if \<not> has_host_port sys then Inr ()
      else if vm_wire sys start n \<noteq> 0 then Inl (Panics ''mem_wire'') else Inr ())"

text \<open>\<open>vm_allocate\<close> of \<^verbatim>\<open>wiring.c\<close> with any address; what \<open>vm_wire\<close> answers is ignored there.\<close>

definition vm_allocate_wired :: "vm_system \<Rightarrow> nat \<Rightarrow> kalloc_state \<Rightarrow> nat option \<times> kalloc_state" where
  "vm_allocate_wired sys n st =
     (case vm_map sys 0 n (mapped st) of
        None \<Rightarrow> (None, st)
      | Some a \<Rightarrow> (Some a, st\<lparr>mapped := mapped st \<union> block a n\<rparr>))"

definition kalloc_init :: "vm_system \<Rightarrow> kalloc_state \<Rightarrow> kalloc_state" where
  "kalloc_init sys st =
     st\<lparr>kalloc_max := (if 16 * 1024 < vm_page_size sys then 16 * 1024 else vm_page_size sys),
        kfree_list := replicate KLIST_MAX 0, kalloc_next_space := vm_page_size sys,
        kalloc_end_of_space := vm_page_size sys\<rparr>"

text \<open>The loop that makes room; \<open>new_space\<close> is the memory that the iteration before has allocated, or 0.\<close>

partial_function (option) kget_loop ::
    "vm_system \<Rightarrow> nat \<Rightarrow> nat \<Rightarrow> kalloc_state \<Rightarrow> (nat \<times> kalloc_state) outcome option" where
  "kget_loop sys n new_space st =
     (if kalloc_next_space st + n \<le> kalloc_end_of_space st
      then Some (Inr (kalloc_next_space st,
        st\<lparr>kalloc_next_space := kalloc_next_space st + n,
           mapped := (if new_space = 0 then mapped st else mapped st - block new_space (round_page sys n))\<rparr>))
      else if new_space = 0
      then (case vm_map sys (kalloc_end_of_space st) (round_page sys n) (mapped st) of
              None \<Rightarrow> Some (Inr (0, st))
            | Some a \<Rightarrow>
                (case wire_memory sys a (round_page sys n) of
                   Inl e \<Rightarrow> Some (Inl e)
                 | Inr u \<Rightarrow> kget_loop sys n a (st\<lparr>mapped := mapped st \<union> block a (round_page sys n)\<rparr>)))
      else kget_loop sys n 0
        (if new_space \<noteq> kalloc_end_of_space st
         then st\<lparr>kalloc_wasted_space := kalloc_wasted_space st + (kalloc_end_of_space st - kalloc_next_space st),
                 kalloc_next_space := new_space, kalloc_end_of_space := new_space + round_page sys n\<rparr>
         else st\<lparr>kalloc_end_of_space := new_space + round_page sys n\<rparr>))"

definition kget_space :: "vm_system \<Rightarrow> nat \<Rightarrow> kalloc_state \<Rightarrow> (nat \<times> kalloc_state) outcome option" where
  "kget_space sys n st = kget_loop sys n 0 st"

text \<open>The loop over the sizes: the free list for a size and the size of its blocks.\<close>

function size_index :: "nat \<Rightarrow> nat \<Rightarrow> nat" where
  "size_index n k = (if MINSIZE * 2 ^ k < n then size_index n (Suc k) else k)"
  by pat_completeness auto
termination
  by (relation "measure (\<lambda>(n, k). n - MINSIZE * 2 ^ k)") (auto intro: diff_less_mono2)

declare size_index.simps [simp del]

definition alloc_size :: "kalloc_state \<Rightarrow> nat \<Rightarrow> nat" where
  "alloc_size st n = (if n < kalloc_max st then MINSIZE * 2 ^ size_index n 0 else n)"

definition kalloc_ready :: "vm_system \<Rightarrow> kalloc_state \<Rightarrow> kalloc_state" where
  "kalloc_ready sys st = (if kalloc_initialized st then st else (kalloc_init sys st)\<lparr>kalloc_initialized := True\<rparr>)"

definition kalloc :: "vm_system \<Rightarrow> nat \<Rightarrow> kalloc_state \<Rightarrow> (nat \<times> kalloc_state) outcome option" where
  "kalloc sys n st0 =
     (let st = kalloc_ready sys st0; fl = size_index n 0 in
      if alloc_size st n < kalloc_max st
      then (if kfree_list st ! fl \<noteq> 0
            then Some (Inr (kfree_list st ! fl,
              st\<lparr>kfree_list := (kfree_list st)[fl := load_word (kmem st) (kfree_list st ! fl)],
                 kfree_count := (kfree_count st)[fl := kfree_count st ! fl - 1]\<rparr>))
            else kget_space sys (alloc_size st n) st)
      else (case vm_allocate_wired sys (alloc_size st n) st of
              (None, st1) \<Rightarrow> Some (Inr (0, st1))
            | (Some a, st1) \<Rightarrow> Some (Inr (a, st1))))"

definition kfree :: "nat \<Rightarrow> nat \<Rightarrow> kalloc_state \<Rightarrow> kalloc_state outcome" where
  "kfree data n st =
     (let fl = size_index n 0 in
      if alloc_size st n < kalloc_max st
      then (if data = 0 then Inl Null_Deref
            else Inr (st\<lparr>kmem := store_word (kmem st) data (kfree_list st ! fl), kfree_list := (kfree_list st)[fl := data],
                         kfree_count := (kfree_count st)[fl := kfree_count st ! fl + 1]\<rparr>))
      else Inr (st\<lparr>mapped := mapped st - block data (alloc_size st n)\<rparr>))"

text \<open>The C library's names: \<open>malloc\<close> is \<open>kalloc\<close>, and blocks from it can neither be resized nor given back.\<close>

definition bootstrap_malloc :: "vm_system \<Rightarrow> nat \<Rightarrow> kalloc_state \<Rightarrow> (nat \<times> kalloc_state) outcome option" where
  "bootstrap_malloc sys n st = kalloc sys n st"

definition bootstrap_realloc :: "nat \<Rightarrow> nat \<Rightarrow> kalloc_state \<Rightarrow> (nat \<times> kalloc_state) outcome" where
  "bootstrap_realloc a n st = Inl (Panics ''realloc not implemented'')"

definition bootstrap_free :: "nat \<Rightarrow> kalloc_state \<Rightarrow> kalloc_state outcome" where
  "bootstrap_free a st = Inl (Panics ''free not implemented'')"

section \<open>Regions\<close>

text \<open>How many of some regions hold a byte; they are apart when no byte is held twice.\<close>

definition cover :: "(nat \<times> nat) list \<Rightarrow> nat \<Rightarrow> nat" where
  "cover rs x = (\<Sum>(a, n) \<leftarrow> rs. of_bool (x \<in> block a n))"

lemma cover_simps [simp]:
  "cover [] x = 0" "cover ((a, n) # rs) x = of_bool (x \<in> block a n) + cover rs x" "cover (rs @ rs') x = cover rs x + cover rs' x"
  by (simp_all add: cover_def)

lemma cover_member: "(a, n) \<in> set rs \<Longrightarrow> x \<in> block a n \<Longrightarrow> 0 < cover rs x"
  by (induction rs) auto

lemma cover_remove_nth: "i < length rs \<Longrightarrow> cover (remove_nth i rs) x + of_bool (x \<in> block (fst (rs ! i)) (snd (rs ! i))) = cover rs x"
proof -
  assume i: "i < length rs"
  have "rs = take i rs @ rs ! i # drop (Suc i) rs" using i by (rule id_take_nth_drop)
  then have "cover rs x = cover (take i rs) x + (of_bool (x \<in> block (fst (rs ! i)) (snd (rs ! i))) + cover (drop (Suc i) rs) x)"
    by (metis cover_simps(2,3) prod.collapse)
  then show ?thesis by (simp add: remove_nth_def)
qed

lemma cover_disjoint:
  assumes "\<And>x. cover rs x \<le> 1" "i < j" "j < length rs"
  shows "block (fst (rs ! i)) (snd (rs ! i)) \<inter> block (fst (rs ! j)) (snd (rs ! j)) = {}"
proof (rule ccontr)
  assume "\<not> ?thesis"
  then obtain x where x: "x \<in> block (fst (rs ! i)) (snd (rs ! i))" "x \<in> block (fst (rs ! j)) (snd (rs ! j))" by auto
  have "j - 1 < length rs - 1" "\<not> j - 1 < i" "Suc (j - 1) = j" using assms(2,3) by linarith+
  then have "rs ! j \<in> set (remove_nth i rs)"
    using assms(2,3) nth_mem [of "j - 1" "remove_nth i rs"] by (simp add: remove_nth_nth)
  then have "0 < cover (remove_nth i rs) x"
    using cover_member [of "fst (rs ! j)" "snd (rs ! j)"] x(2) by simp
  then show False
    using cover_remove_nth [of i rs x] assms(1) [of x] assms(2,3) x(1) by simp
qed

section \<open>The invariant\<close>

text \<open>What the code relies on of the system: new memory is outside the memory in use, not at 0 and within the address
  space, and wiring it does not fail.\<close>

definition vm_ok :: "vm_system \<Rightarrow> bool" where
  "vm_ok sys \<longleftrightarrow> 4 \<le> vm_page_size sys \<and> vm_page_size sys < 2 ^ 32 \<and> (\<forall>a n. vm_wire sys a n = 0) \<and>
     (\<forall>hint n m a. vm_map sys hint n m = Some a \<longrightarrow> 0 < a \<and> a + n \<le> 2 ^ 32 \<and> block a n \<inter> m = {})"

text \<open>A free list in memory.\<close>

fun chain :: "memory \<Rightarrow> nat \<Rightarrow> nat list \<Rightarrow> bool" where
  "chain mem h [] \<longleftrightarrow> h = 0"
| "chain mem h (b # bs) \<longleftrightarrow> h = b \<and> b \<noteq> 0 \<and> chain mem (load_word mem b) bs"

lemma chain_cong: "(\<And>b x. b \<in> set bs \<Longrightarrow> x \<in> block b 4 \<Longrightarrow> mem' x = mem x) \<Longrightarrow> chain mem' h bs = chain mem h bs"
proof (induction bs arbitrary: h)
  case (Cons b bs)
  have "load_word mem' b = load_word mem b" by (rule load_word_cong) (use Cons.prems in auto)
  moreover have "chain mem' h' bs = chain mem h' bs" for h' by (rule Cons.IH) (use Cons.prems in auto)
  ultimately show ?case by simp
qed simp

definition class_regions :: "nat \<Rightarrow> nat list \<Rightarrow> (nat \<times> nat) list" where
  "class_regions k bs = map (\<lambda>b. (b, MINSIZE * 2 ^ k)) bs"

definition kfree_regions :: "(nat \<Rightarrow> nat list) \<Rightarrow> (nat \<times> nat) list" where
  "kfree_regions frees = concat (map (\<lambda>k. class_regions k (frees k)) [0..<KLIST_MAX])"

definition live_regions :: "kalloc_state \<Rightarrow> (nat \<times> nat) list \<Rightarrow> (nat \<times> nat) list" where
  "live_regions st live = map (\<lambda>(a, n). (a, alloc_size st n)) live"

definition all_regions :: "kalloc_state \<Rightarrow> (nat \<times> nat) list \<Rightarrow> (nat \<Rightarrow> nat list) \<Rightarrow> (nat \<times> nat) list" where
  "all_regions st live frees =
     (kalloc_next_space st, kalloc_end_of_space st - kalloc_next_space st) # live_regions st live @ kfree_regions frees"

text \<open>The blocks held by the client with the sizes it asked for, the free blocks and what is left of the space are
  apart and lie in the memory in use.\<close>

definition kalloc_inv :: "vm_system \<Rightarrow> kalloc_state \<Rightarrow> (nat \<times> nat) list \<Rightarrow> (nat \<Rightarrow> nat list) \<Rightarrow> bool" where
  "kalloc_inv sys st live frees \<longleftrightarrow>
     kalloc_initialized st \<and> kalloc_max st = min (16 * 1024) (vm_page_size sys) \<and> length (kfree_list st) = KLIST_MAX \<and>
     (\<forall>k < KLIST_MAX. chain (kmem st) (kfree_list st ! k) (frees k)) \<and>
     kalloc_next_space st \<le> kalloc_end_of_space st \<and> 0 < kalloc_next_space st \<and>
     0 \<notin> mapped st \<and> mapped st \<subseteq> {..<2 ^ 32} \<and> (\<forall>(a, n) \<in> set live. a \<noteq> 0) \<and>
     (\<forall>x. cover (all_regions st live frees) x \<le> of_bool (x \<in> mapped st))"

lemma cover_free_update:
  assumes "k < KLIST_MAX"
  shows "cover (kfree_regions (frees(k := bs))) x + cover (class_regions k (frees k)) x =
    cover (kfree_regions frees) x + cover (class_regions k bs) x"
proof -
  have sum: "cover (kfree_regions f) x = (\<Sum>i < KLIST_MAX. cover (class_regions i (f i)) x)" for f :: "nat \<Rightarrow> nat list"
  proof -
    have "cover (concat (map g ks)) x = (\<Sum>i \<leftarrow> ks. cover (g i) x)" for g :: "nat \<Rightarrow> (nat \<times> nat) list" and ks
      by (induction ks) simp_all
    then show ?thesis by (simp add: kfree_regions_def interv_sum_list_conv_sum_set_nat atLeast0LessThan)
  qed
  show ?thesis
    unfolding sum using assms
      sum.remove [of "{..<KLIST_MAX}" k "\<lambda>i. cover (class_regions i ((frees(k := bs)) i)) x"]
      sum.remove [of "{..<KLIST_MAX}" k "\<lambda>i. cover (class_regions i (frees i)) x"]
      sum.cong [of "{..<KLIST_MAX} - {k}" "{..<KLIST_MAX} - {k}" "\<lambda>i. cover (class_regions i ((frees(k := bs)) i)) x"
        "\<lambda>i. cover (class_regions i (frees i)) x"]
    by simp
qed

lemma class_regions_simps [simp]: "class_regions k [] = []" "class_regions k (b # bs) = (b, MINSIZE * 2 ^ k) # class_regions k bs"
  by (simp_all add: class_regions_def)

lemma cover_class: "b \<in> set bs \<Longrightarrow> x \<in> block b 4 \<Longrightarrow> 0 < cover (class_regions k bs) x"
proof (rule cover_member)
  assume "x \<in> block b 4"
  then show "x \<in> block b (MINSIZE * 2 ^ k)" by (auto simp: block_def intro: less_le_trans)
qed (auto simp: class_regions_def)

lemma cover_free: "k < KLIST_MAX \<Longrightarrow> b \<in> set (frees k) \<Longrightarrow> x \<in> block b 4 \<Longrightarrow> 0 < cover (kfree_regions frees) x"
  using cover_free_update [of k frees "[]" x] cover_class [of b "frees k" x k] by simp

lemma alloc_size_ge: "n \<le> alloc_size st n"
proof -
  have "n \<le> MINSIZE * 2 ^ size_index n k" for k
    by (induction n k rule: size_index.induct) (subst size_index.simps, simp)
  then show ?thesis by (simp add: alloc_size_def)
qed

lemma alloc_size_pos: "4 \<le> kalloc_max st \<Longrightarrow> 4 \<le> alloc_size st n"
  by (simp add: alloc_size_def)

lemma size_index_bound:
  assumes "alloc_size st n < kalloc_max st" "kalloc_max st \<le> 16384"
  shows "size_index n 0 < KLIST_MAX" "alloc_size st n = MINSIZE * 2 ^ size_index n 0"
proof -
  show eq: "alloc_size st n = MINSIZE * 2 ^ size_index n 0" using assms(1) by (auto simp: alloc_size_def split: if_splits)
  have "(2 :: nat) ^ size_index n 0 < 2 ^ 13" using assms eq by simp
  then show "size_index n 0 < KLIST_MAX" by (simp only: power_strict_increasing_iff one_less_numeral_iff semiring_norm)
qed

section \<open>The operations keep the invariant\<close>

lemma round_page_ge: "vm_ok sys \<Longrightarrow> n \<le> round_page sys n"
proof -
  assume "vm_ok sys"
  then have p: "0 < vm_page_size sys" by (simp add: vm_ok_def)
  have "n < ((n - 1) div vm_page_size sys + 1) * vm_page_size sys + 1" if "0 < n"
    using dividend_less_div_times [OF p, of "n - 1"] that by (simp add: algebra_simps)
  moreover have "(n + vm_page_size sys - 1) div vm_page_size sys = (n - 1) div vm_page_size sys + 1" if "0 < n"
    using div_add_self2 [of "vm_page_size sys" "n - 1"] p that by simp
  ultimately show ?thesis by (cases "n = 0") (auto simp: round_page_def)
qed

text \<open>Cutting a block off the front of a space.\<close>

lemma cut_space:
  assumes "next + m \<le> stop"
  shows "of_bool (x \<in> block (next + m) (stop - (next + m))) + of_bool (x \<in> block next m) =
    (of_bool (x \<in> block next (stop - next)) :: nat)"
  using assms by (auto simp: block_def)

lemma grow_space:
  assumes "lo \<le> hi"
  shows "of_bool (x \<in> block lo (hi + m - lo)) = of_bool (x \<in> block lo (hi - lo)) + (of_bool (x \<in> block hi m) :: nat)"
  using assms by (auto simp: block_def)

lemma vm_map_fresh:
  assumes "vm_ok sys" "vm_map sys hint n m = Some a"
  shows "0 < a" "a + n \<le> 2 ^ 32" "of_bool (x \<in> m \<union> block a n) = of_bool (x \<in> m) + (of_bool (x \<in> block a n) :: nat)"
proof -
  have "0 < a \<and> a + n \<le> 2 ^ 32 \<and> block a n \<inter> m = {}" using assms unfolding vm_ok_def by blast
  then show "0 < a" "a + n \<le> 2 ^ 32" "of_bool (x \<in> m \<union> block a n) = of_bool (x \<in> m) + (of_bool (x \<in> block a n) :: nat)"
    by auto
qed

text \<open>What a space allocation gives: room of the size asked for, apart from all other regions.\<close>

definition space_ok :: "kalloc_state \<Rightarrow> (nat \<times> nat) list \<Rightarrow> bool" where
  "space_ok st rs \<longleftrightarrow> kalloc_next_space st \<le> kalloc_end_of_space st \<and> 0 < kalloc_next_space st \<and> 0 \<notin> mapped st \<and>
     mapped st \<subseteq> {..<2 ^ 32} \<and>
     (\<forall>x. cover ((kalloc_next_space st, kalloc_end_of_space st - kalloc_next_space st) # rs) x \<le> of_bool (x \<in> mapped st))"

definition same_lists :: "kalloc_state \<Rightarrow> kalloc_state \<Rightarrow> bool" where
  "same_lists st st' \<longleftrightarrow> kalloc_max st' = kalloc_max st \<and> kfree_list st' = kfree_list st \<and>
     kalloc_initialized st' = kalloc_initialized st \<and> kmem st' = kmem st"

lemma take_space:
  assumes "space_ok st rs" "kalloc_next_space st + m \<le> kalloc_end_of_space st"
  shows "kget_loop sys m 0 st = Some (Inr (kalloc_next_space st, st\<lparr>kalloc_next_space := kalloc_next_space st + m\<rparr>))"
    "space_ok (st\<lparr>kalloc_next_space := kalloc_next_space st + m\<rparr>) ((kalloc_next_space st, m) # rs)"
proof -
  show "kget_loop sys m 0 st = Some (Inr (kalloc_next_space st, st\<lparr>kalloc_next_space := kalloc_next_space st + m\<rparr>))"
    using assms(2) by (simp add: kget_loop.simps)
  show "space_ok (st\<lparr>kalloc_next_space := kalloc_next_space st + m\<rparr>) ((kalloc_next_space st, m) # rs)"
    using assms cut_space [OF assms(2)] by (simp add: space_ok_def flip: add.assoc)
qed

lemma add_space:
  assumes vm: "vm_ok sys" and st: "space_ok st rs" and short: "\<not> kalloc_next_space st + m \<le> kalloc_end_of_space st"
    and map: "vm_map sys (kalloc_end_of_space st) (round_page sys m) (mapped st) = Some a"
  obtains st' where "kget_loop sys m 0 st = kget_loop sys m 0 st'" "space_ok st' rs" "same_lists st st'"
    "kalloc_next_space st' + m \<le> kalloc_end_of_space st'"
proof -
  let ?st1 = "st\<lparr>mapped := mapped st \<union> block a (round_page sys m)\<rparr>"
  let ?st' = "if a = kalloc_end_of_space st then ?st1\<lparr>kalloc_end_of_space := a + round_page sys m\<rparr>
    else ?st1\<lparr>kalloc_wasted_space := kalloc_wasted_space st + (kalloc_end_of_space st - kalloc_next_space st),
              kalloc_next_space := a, kalloc_end_of_space := a + round_page sys m\<rparr>"
  note fresh = vm_map_fresh [OF vm map]
  have ge: "m \<le> round_page sys m" by (rule round_page_ge [OF vm])
  have "wire_memory sys a (round_page sys m) = Inr ()" using vm by (simp add: wire_memory_def vm_ok_def)
  then have "kget_loop sys m 0 st = kget_loop sys m a ?st1"
    using short map by (subst kget_loop.simps) simp
  also have "\<dots> = kget_loop sys m 0 ?st'"
    using short fresh(1) by (subst kget_loop.simps) simp
  finally have loop: "kget_loop sys m 0 st = kget_loop sys m 0 ?st'" .
  have le: "of_bool (x \<in> block (kalloc_next_space st) (kalloc_end_of_space st - kalloc_next_space st)) + cover rs x \<le>
      of_bool (x \<in> mapped st)" for x
    using st by (simp add: space_ok_def)
  have region: "0 \<notin> mapped st \<union> block a (round_page sys m)" "mapped st \<union> block a (round_page sys m) \<subseteq> {..<2 ^ 32}"
    using st fresh(1,2) by (auto simp: space_ok_def block_def)
  have "space_ok ?st' rs"
  proof (cases "a = kalloc_end_of_space st")
    case True
    have "of_bool (x \<in> block (kalloc_next_space st) (a + round_page sys m - kalloc_next_space st)) + cover rs x \<le>
        of_bool (x \<in> mapped st \<union> block a (round_page sys m))" for x
      using grow_space [of "kalloc_next_space st" a x "round_page sys m"] le [of x] fresh(3) [of x] st
      unfolding True space_ok_def by linarith
    then show ?thesis using True st region by (simp add: space_ok_def)
  next
    case False
    have "of_bool (x \<in> block a (round_page sys m)) + cover rs x \<le> of_bool (x \<in> mapped st \<union> block a (round_page sys m))" for x
      using le [of x] fresh(3) [of x] by linarith
    then show ?thesis using False st region fresh(1) by (simp add: space_ok_def)
  qed
  then show thesis
    using loop ge st by (intro that [of ?st']) (auto simp: same_lists_def space_ok_def)
qed

lemma kget_space_ok:
  assumes vm: "vm_ok sys" and st: "space_ok st rs"
  shows "kget_space sys m st = Some (Inr (0, st)) \<or>
    (\<exists>a st'. kget_space sys m st = Some (Inr (a, st')) \<and> a \<noteq> 0 \<and> space_ok st' ((a, m) # rs) \<and> same_lists st st')"
proof -
  consider "kalloc_next_space st + m \<le> kalloc_end_of_space st"
    | "\<not> kalloc_next_space st + m \<le> kalloc_end_of_space st"
      "vm_map sys (kalloc_end_of_space st) (round_page sys m) (mapped st) = None"
    | a where "\<not> kalloc_next_space st + m \<le> kalloc_end_of_space st"
      "vm_map sys (kalloc_end_of_space st) (round_page sys m) (mapped st) = Some a"
    by fastforce
  then show ?thesis
  proof cases
    case 1
    then show ?thesis using take_space [OF st 1] st by (auto simp: kget_space_def same_lists_def space_ok_def)
  next
    case 2
    then show ?thesis by (simp add: kget_space_def kget_loop.simps)
  next
    case 3
    obtain st1 where st1: "kget_loop sys m 0 st = kget_loop sys m 0 st1" "space_ok st1 rs" "same_lists st st1"
      "kalloc_next_space st1 + m \<le> kalloc_end_of_space st1"
      by (rule add_space [OF vm st 3])
    have "same_lists st (st1\<lparr>kalloc_next_space := kalloc_next_space st1 + m\<rparr>)" "kalloc_next_space st1 \<noteq> 0"
      using st1(2,3) by (simp_all add: same_lists_def space_ok_def)
    then show ?thesis using take_space(1) [OF st1(2,4), of sys] take_space(2) [OF st1(2,4)] by (simp add: kget_space_def st1(1))
  qed
qed

lemma kalloc_inv_space: "kalloc_inv sys st live frees \<Longrightarrow> space_ok st (live_regions st live @ kfree_regions frees)"
  by (simp add: kalloc_inv_def space_ok_def all_regions_def)

lemma same_lists_regions: "kalloc_max st' = kalloc_max st \<Longrightarrow> live_regions st' live = live_regions st live"
  "kalloc_max st' = kalloc_max st \<Longrightarrow> alloc_size st' n = alloc_size st n"
  by (simp_all add: live_regions_def alloc_size_def)

lemma kalloc_inv_alloc:
  assumes "kalloc_inv sys st live frees" "same_lists st st'" "a \<noteq> 0"
    "space_ok st' ((a, alloc_size st n) # live_regions st live @ kfree_regions frees)"
  shows "kalloc_inv sys st' ((a, n) # live) frees"
  using assms same_lists_regions [of st' st]
  by (simp add: kalloc_inv_def space_ok_def all_regions_def same_lists_def live_regions_def add.assoc)

lemma kalloc_from_list:
  assumes inv: "kalloc_inv sys st live frees" and small: "alloc_size st n < kalloc_max st"
    and head: "kfree_list st ! size_index n 0 = b" "b \<noteq> 0"
  obtains frees' where
    "kalloc_inv sys (st\<lparr>kfree_list := (kfree_list st)[size_index n 0 := load_word (kmem st) b], kfree_count := c\<rparr>)
       ((b, n) # live) frees'"
proof -
  let ?k = "size_index n 0"
  have k: "?k < KLIST_MAX" "alloc_size st n = MINSIZE * 2 ^ ?k"
    using size_index_bound [OF small] inv by (simp_all add: kalloc_inv_def)
  then obtain bs where bs: "frees ?k = b # bs" "chain (kmem st) (load_word (kmem st) b) bs"
    using inv head by (cases "frees ?k") (auto simp: kalloc_inv_def)
  have cover: "cover (kfree_regions (frees(?k := bs))) x + of_bool (x \<in> block b (alloc_size st n)) = cover (kfree_regions frees) x" for x
    using cover_free_update [OF k(1), of frees bs x] by (simp add: bs(1) k(2))
  show thesis
  proof (rule that [of "frees(?k := bs)"])
    let ?st' = "st\<lparr>kfree_list := (kfree_list st)[?k := load_word (kmem st) b], kfree_count := c\<rparr>"
    have "cover (all_regions ?st' ((b, n) # live) (frees(?k := bs))) x = cover (all_regions st live frees) x" for x
      using cover [of x] by (simp add: all_regions_def live_regions_def alloc_size_def case_prod_beta)
    then show "kalloc_inv sys ?st' ((b, n) # live) (frees(?k := bs))"
      using inv head(2) bs(2) by (auto simp: kalloc_inv_def nth_list_update)
  qed
qed

lemma kalloc_ok:
  assumes vm: "vm_ok sys" and inv: "kalloc_inv sys st live frees"
  shows "\<exists>a st' frees'. kalloc sys n st = Some (Inr (a, st')) \<and> kmem st' = kmem st \<and>
    kalloc_inv sys st' (if a = 0 then live else (a, n) # live) frees'"
proof -
  have ready: "kalloc_ready sys st = st" using inv by (simp add: kalloc_ready_def kalloc_inv_def)
  note space = kalloc_inv_space [OF inv]
  let ?m = "alloc_size st n" and ?b = "kfree_list st ! size_index n 0"
  consider "?m < kalloc_max st" "?b \<noteq> 0" | "?m < kalloc_max st" "?b = 0" | "\<not> ?m < kalloc_max st" by blast
  then show ?thesis
  proof cases
    case 1
    obtain frees' where "kalloc_inv sys (st\<lparr>kfree_list := (kfree_list st)[size_index n 0 := load_word (kmem st) ?b],
        kfree_count := (kfree_count st)[size_index n 0 := kfree_count st ! size_index n 0 - 1]\<rparr>) ((?b, n) # live) frees'"
      by (rule kalloc_from_list [OF inv 1(1) refl 1(2)])
    then show ?thesis using 1 by (auto simp: kalloc_def Let_def ready)
  next
    case 2
    have "kalloc sys n st = kget_space sys ?m st" using 2 by (simp add: kalloc_def Let_def ready)
    moreover have "kalloc_inv sys st' ((a, n) # live) frees \<and> kmem st' = kmem st"
      if "a \<noteq> 0" "space_ok st' ((a, ?m) # live_regions st live @ kfree_regions frees)" "same_lists st st'" for a st'
      using kalloc_inv_alloc [OF inv that(3,1,2)] that(3) by (simp add: same_lists_def)
    ultimately show ?thesis
      using kget_space_ok [OF vm space, of ?m] inv by (elim disjE exE conjE) (simp, blast)+
  next
    case 3
    show ?thesis
    proof (cases "vm_map sys 0 ?m (mapped st)")
      case None
      then show ?thesis using 3 inv by (auto simp: kalloc_def Let_def ready vm_allocate_wired_def)
    next
      case (Some a)
      let ?st' = "st\<lparr>mapped := mapped st \<union> block a ?m\<rparr>"
      note fresh = vm_map_fresh [OF vm Some]
      have "cover ((kalloc_next_space st, kalloc_end_of_space st - kalloc_next_space st) # (a, ?m) #
          live_regions st live @ kfree_regions frees) x \<le> of_bool (x \<in> mapped st \<union> block a ?m)" for x
        using space fresh(3) [of x] by (simp add: space_ok_def add.left_commute)
      moreover have "0 \<notin> mapped st \<union> block a ?m" "mapped st \<union> block a ?m \<subseteq> {..<2 ^ 32}"
        using space fresh(1,2) by (auto simp: space_ok_def block_def)
      ultimately have "space_ok ?st' ((a, ?m) # live_regions st live @ kfree_regions frees)"
        using space by (simp add: space_ok_def)
      then have "kalloc_inv sys ?st' ((a, n) # live) frees"
        using fresh(1) by (intro kalloc_inv_alloc [OF inv]) (simp_all add: same_lists_def)
      moreover have "kalloc sys n st = Some (Inr (a, ?st'))"
        using 3 Some by (simp add: kalloc_def Let_def ready vm_allocate_wired_def)
      ultimately show ?thesis using fresh(1) by auto
    qed
  qed
qed

text \<open>Writes outside the free blocks leave the free lists alone.\<close>

lemma chains_frame:
  assumes "\<forall>k < KLIST_MAX. chain mem (heads ! k) (frees k)" "\<And>x. mem' x \<noteq> mem x \<Longrightarrow> cover (kfree_regions frees) x = 0"
  shows "\<forall>k < KLIST_MAX. chain mem' (heads ! k) (frees k)"
proof (intro allI impI)
  fix k assume k: "k < KLIST_MAX"
  have "mem' x = mem x" if "b \<in> set (frees k)" "x \<in> block b 4" for b x
    using assms(2) [of x] cover_free [OF k, of b frees x] that by auto
  then show "chain mem' (heads ! k) (frees k)"
    using chain_cong [of "frees k" mem' mem] assms(1) k by simp
qed

lemma cover_live:
  assumes "i < length live" "live ! i = (a, n)"
  shows "cover (all_regions st (remove_nth i live) frees) x + of_bool (x \<in> block a (alloc_size st n)) =
    cover (all_regions st live frees) x"
proof -
  have "live_regions st (remove_nth i live) = remove_nth i (live_regions st live)"
    by (simp add: live_regions_def remove_nth_def take_map drop_map)
  moreover have "live_regions st live ! i = (a, alloc_size st n)" "i < length (live_regions st live)"
    using assms by (simp_all add: live_regions_def)
  ultimately show ?thesis
    using cover_remove_nth [of i "live_regions st live" x] by (simp add: all_regions_def)
qed

lemma kalloc_inv_cover:
  assumes "kalloc_inv sys st live frees" "i < length live" "live ! i = (a, n)"
  shows "cover (all_regions st (remove_nth i live) frees) x + of_bool (x \<in> block a (alloc_size st n)) \<le> of_bool (x \<in> mapped st)"
  using cover_live [OF assms(2,3)] assms(1) by (simp add: kalloc_inv_def)

lemma live_not_free:
  assumes "kalloc_inv sys st live frees" "i < length live" "live ! i = (a, n)" "x \<in> block a (alloc_size st n)"
  shows "cover (kfree_regions frees) x = 0"
  using kalloc_inv_cover [OF assms(1-3), of x] assms(4) by (cases "x \<in> mapped st") (simp_all add: all_regions_def)

lemma head_bound:
  assumes inv: "kalloc_inv sys st live frees" and k: "k < KLIST_MAX"
  shows "kfree_list st ! k < 2 ^ 32"
proof (cases "frees k")
  case Nil
  then show ?thesis using inv k by (auto simp: kalloc_inv_def)
next
  case (Cons b bs)
  then have b: "kfree_list st ! k = b" "b \<in> set (frees k)" using inv k by (auto simp: kalloc_inv_def)
  have "0 < cover (kfree_regions frees) b" by (rule cover_free [where frees = frees and k = k, OF k b(2)]) (simp add: block_def)
  moreover have "cover (all_regions st live frees) b \<le> of_bool (b \<in> mapped st)" using inv by (simp add: kalloc_inv_def)
  ultimately have "b \<in> mapped st" by (cases "b \<in> mapped st") (simp_all add: all_regions_def)
  then show ?thesis using inv b(1) by (auto simp: kalloc_inv_def)
qed

lemma kfree_small_ok:
  assumes inv: "kalloc_inv sys st live frees" and i: "i < length live" "live ! i = (a, n)"
    and small: "alloc_size st n < kalloc_max st"
  obtains frees' where
    "kalloc_inv sys (st\<lparr>kmem := store_word (kmem st) a (kfree_list st ! size_index n 0),
       kfree_list := (kfree_list st)[size_index n 0 := a], kfree_count := c\<rparr>) (remove_nth i live) frees'"
proof -
  let ?k = "size_index n 0" and ?mem = "store_word (kmem st) a (kfree_list st ! size_index n 0)"
  have k: "?k < KLIST_MAX" "alloc_size st n = MINSIZE * 2 ^ ?k" and a: "a \<noteq> 0"
    using size_index_bound [OF small] inv i nth_mem [OF i(1)] by (auto simp: kalloc_inv_def)
  have sub: "block a 4 \<subseteq> block a (alloc_size st n)" by (auto simp: block_def k(2) intro: less_le_trans)
  have changed: "cover (kfree_regions frees) x = 0" if "?mem x \<noteq> kmem st x" for x
  proof -
    have "x \<in> block a 4" using that by (rule contrapos_np) (rule store_word_other)
    then show ?thesis using sub by (intro live_not_free [OF inv i]) blast
  qed
  have "\<forall>j < KLIST_MAX. chain (kmem st) (kfree_list st ! j) (frees j)"
    using inv by (simp add: kalloc_inv_def)
  then have chains: "\<forall>j < KLIST_MAX. chain ?mem (kfree_list st ! j) (frees j)"
    by (rule chains_frame) (rule changed)
  have head: "load_word ?mem a = kfree_list st ! ?k" using head_bound [OF inv k(1)] by simp
  show thesis
  proof (rule that [of "frees(?k := a # frees ?k)"])
    let ?st' = "st\<lparr>kmem := ?mem, kfree_list := (kfree_list st)[?k := a], kfree_count := c\<rparr>"
    have "cover (all_regions ?st' (remove_nth i live) (frees(?k := a # frees ?k))) x =
        cover (all_regions st (remove_nth i live) frees) x + of_bool (x \<in> block a (alloc_size st n))" for x
      using cover_free_update [OF k(1), of frees "a # frees ?k" x]
      by (simp add: all_regions_def live_regions_def alloc_size_def k(2) [unfolded alloc_size_def])
    then show "kalloc_inv sys ?st' (remove_nth i live) (frees(?k := a # frees ?k))"
      using inv a chains head k(1) kalloc_inv_cover [OF inv i] set_remove_nth_subset [of i live]
      by (auto simp: kalloc_inv_def nth_list_update)
  qed
qed

lemma kfree_ok:
  assumes inv: "kalloc_inv sys st live frees" and i: "i < length live" "live ! i = (a, n)"
  shows "\<exists>st' frees'. kfree a n st = Inr st' \<and> kalloc_inv sys st' (remove_nth i live) frees' \<and>
    (\<forall>x. kmem st' x \<noteq> kmem st x \<longrightarrow> x \<in> block a (alloc_size st n))"
proof (cases "alloc_size st n < kalloc_max st")
  case True
  have a: "a \<noteq> 0" using inv i nth_mem [OF i(1)] by (auto simp: kalloc_inv_def)
  have "block a 4 \<subseteq> block a (alloc_size st n)"
    using True by (auto simp: block_def alloc_size_def intro: less_le_trans split: if_splits)
  then have mem: "\<forall>x. store_word (kmem st) a v x \<noteq> kmem st x \<longrightarrow> x \<in> block a (alloc_size st n)" for v
    using store_word_other by blast
  obtain frees' where "kalloc_inv sys (st\<lparr>kmem := store_word (kmem st) a (kfree_list st ! size_index n 0),
      kfree_list := (kfree_list st)[size_index n 0 := a],
      kfree_count := (kfree_count st)[size_index n 0 := kfree_count st ! size_index n 0 + 1]\<rparr>) (remove_nth i live) frees'"
    by (rule kfree_small_ok [OF inv i True])
  then show ?thesis using True a mem by (auto simp: kfree_def Let_def)
next
  case False
  let ?st' = "st\<lparr>mapped := mapped st - block a (alloc_size st n)\<rparr>"
  have "cover (all_regions ?st' (remove_nth i live) frees) x = cover (all_regions st (remove_nth i live) frees) x" for x
    by (simp add: all_regions_def live_regions_def alloc_size_def)
  then have "cover (all_regions ?st' (remove_nth i live) frees) x \<le> of_bool (x \<in> mapped st - block a (alloc_size st n))" for x
    using kalloc_inv_cover [OF inv i, of x] by (cases "x \<in> block a (alloc_size st n)"; cases "x \<in> mapped st") simp_all
  then have "kalloc_inv sys ?st' (remove_nth i live) frees"
    using inv set_remove_nth_subset [of i live] by (auto simp: kalloc_inv_def)
  then show ?thesis using False by (auto simp: kfree_def Let_def)
qed

section \<open>Runs of the allocator and its client\<close>

text \<open>The client allocates, frees a block it holds, or writes a byte of a block it holds; the blocks are kept with the
  sizes asked for, the newest first. An operation on a block that is not held does nothing.\<close>

datatype kalloc_op = Op_Alloc nat | Op_Free nat | Op_Write nat nat u8

definition kalloc_do ::
    "vm_system \<Rightarrow> kalloc_op \<Rightarrow> kalloc_state \<times> (nat \<times> nat) list \<Rightarrow> (kalloc_state \<times> (nat \<times> nat) list) outcome option" where
  "kalloc_do sys oper s =
     (case s of
        (st, live) \<Rightarrow>
          (case oper of
             Op_Alloc n \<Rightarrow>
               map_option (map_sum id (\<lambda>(a, st'). (st', if a = 0 then live else (a, n) # live))) (kalloc sys n st)
           | Op_Free i \<Rightarrow>
               if i < length live
               then Some (map_sum id (\<lambda>st'. (st', remove_nth i live)) (kfree (fst (live ! i)) (snd (live ! i)) st))
               else Some (Inr s)
           | Op_Write i k v \<Rightarrow>
               if i < length live \<and> k < snd (live ! i)
               then Some (Inr (st\<lparr>kmem := (kmem st)(fst (live ! i) + k := v)\<rparr>, live))
               else Some (Inr s)))"

fun kalloc_run ::
    "vm_system \<Rightarrow> kalloc_op list \<Rightarrow> kalloc_state \<times> (nat \<times> nat) list \<Rightarrow> (kalloc_state \<times> (nat \<times> nat) list) outcome option" where
  "kalloc_run sys [] s = Some (Inr s)"
| "kalloc_run sys (oper # opers) s =
     (case kalloc_do sys oper s of
        None \<Rightarrow> None
      | Some (Inl e) \<Rightarrow> Some (Inl e)
      | Some (Inr s') \<Rightarrow> kalloc_run sys opers s')"

text \<open>Before the first allocation the state is not set up yet and nothing is held.\<close>

definition kalloc_good :: "vm_system \<Rightarrow> kalloc_state \<Rightarrow> (nat \<times> nat) list \<Rightarrow> bool" where
  "kalloc_good sys st live \<longleftrightarrow> st = kalloc_state0 \<and> live = [] \<or> (\<exists>frees. kalloc_inv sys st live frees)"

lemma kalloc_ready_inv: "vm_ok sys \<Longrightarrow> kalloc_inv sys (kalloc_ready sys kalloc_state0) [] (\<lambda>k. [])"
  by (simp add: kalloc_inv_def kalloc_ready_def kalloc_state0_def kalloc_init_def all_regions_def live_regions_def
      kfree_regions_def vm_ok_def block_def cover_def)

lemma kalloc_good_alloc:
  assumes "vm_ok sys" "kalloc_good sys st live"
  shows "\<exists>a st'. kalloc sys n st = Some (Inr (a, st')) \<and> kmem st' = kmem st \<and>
    kalloc_good sys st' (if a = 0 then live else (a, n) # live)"
proof (cases "st = kalloc_state0 \<and> live = []")
  case True
  have "kalloc sys n st = kalloc sys n (kalloc_ready sys st)"
    by (simp add: kalloc_def kalloc_ready_def)
  moreover have "kmem (kalloc_ready sys st) = kmem st" by (simp add: kalloc_ready_def kalloc_init_def)
  ultimately show ?thesis
    using kalloc_ok [OF assms(1) kalloc_ready_inv [OF assms(1)], of n] True unfolding kalloc_good_def by metis
next
  case False
  then show ?thesis using kalloc_ok [OF assms(1)] assms(2) unfolding kalloc_good_def by metis
qed

lemma kalloc_good_inv: "kalloc_good sys st live \<Longrightarrow> i < length live \<Longrightarrow> \<exists>frees. kalloc_inv sys st live frees"
  by (auto simp: kalloc_good_def)

lemma held_in_region: "k < n \<Longrightarrow> a + k \<in> block a (alloc_size st n)"
  using alloc_size_ge [of n st] by (simp add: block_def)

lemma kalloc_write_ok:
  assumes inv: "kalloc_inv sys st live frees" and i: "i < length live" "live ! i = (a, n)" "k < n"
  shows "kalloc_inv sys (st\<lparr>kmem := (kmem st)(a + k := v)\<rparr>) live frees"
proof -
  have changed: "cover (kfree_regions frees) x = 0" if "((kmem st)(a + k := v)) x \<noteq> kmem st x" for x
    using that held_in_region [OF i(3)] by (intro live_not_free [OF inv i(1,2)]) (auto split: if_splits)
  have "\<forall>j < KLIST_MAX. chain (kmem st) (kfree_list st ! j) (frees j)" using inv by (simp add: kalloc_inv_def)
  then have "\<forall>j < KLIST_MAX. chain ((kmem st)(a + k := v)) (kfree_list st ! j) (frees j)"
    by (rule chains_frame) (rule changed)
  moreover have "all_regions (st\<lparr>kmem := (kmem st)(a + k := v)\<rparr>) live frees = all_regions st live frees"
    by (simp add: all_regions_def live_regions_def alloc_size_def)
  ultimately show ?thesis using inv by (simp add: kalloc_inv_def)
qed

lemma kalloc_do_good:
  assumes vm: "vm_ok sys" and good: "kalloc_good sys st live"
  shows "\<exists>st' live'. kalloc_do sys oper (st, live) = Some (Inr (st', live')) \<and> kalloc_good sys st' live'"
proof (cases oper)
  case (Op_Alloc n)
  then show ?thesis using kalloc_good_alloc [OF vm good, of n] by (auto simp: kalloc_do_def)
next
  case (Op_Free i)
  then show ?thesis
    using good kalloc_good_inv [OF good, of i] kfree_ok [of sys st live _ i "fst (live ! i)" "snd (live ! i)"]
    by (fastforce simp: kalloc_do_def kalloc_good_def)
next
  case (Op_Write i k v)
  then show ?thesis
    using good kalloc_good_inv [OF good, of i] kalloc_write_ok [of sys st live _ i "fst (live ! i)" "snd (live ! i)" k v]
    by (fastforce simp: kalloc_do_def kalloc_good_def)
qed

lemma kalloc_run_good:
  "vm_ok sys \<Longrightarrow> kalloc_good sys st live \<Longrightarrow>
   \<exists>st' live'. kalloc_run sys opers (st, live) = Some (Inr (st', live')) \<and> kalloc_good sys st' live'"
proof (induction opers arbitrary: st live)
  case (Cons oper opers)
  then show ?case using kalloc_do_good [of sys st live oper] by fastforce
qed simp

text \<open>What the invariant says of the blocks held.\<close>

definition blocks_apart :: "(nat \<times> nat) list \<Rightarrow> bool" where
  "blocks_apart live \<longleftrightarrow>
     (\<forall>j < length live. \<forall>i < j. block (fst (live ! i)) (snd (live ! i)) \<inter> block (fst (live ! j)) (snd (live ! j)) = {})"

lemma kalloc_inv_apart:
  assumes "kalloc_inv sys st live frees"
  shows "blocks_apart live" "\<forall>(a, n) \<in> set live. a \<noteq> 0 \<and> block a n \<subseteq> mapped st"
proof -
  let ?rs = "live_regions st live"
  have sub: "block a n \<subseteq> block a (alloc_size st n)" for a n
    using alloc_size_ge [of n st] by (auto simp: block_def)
  have le: "cover ?rs x \<le> of_bool (x \<in> mapped st)" for x
  proof -
    have "cover ?rs x \<le> cover (all_regions st live frees) x" by (simp add: all_regions_def)
    also have "\<dots> \<le> of_bool (x \<in> mapped st)" using assms by (simp add: kalloc_inv_def)
    finally show ?thesis .
  qed
  have "block (fst (live ! i)) (snd (live ! i)) \<inter> block (fst (live ! j)) (snd (live ! j)) = {}"
    if "i < j" "j < length live" for i j
  proof -
    have "cover ?rs x \<le> 1" for x using le [of x] by (cases "x \<in> mapped st") simp_all
    then show ?thesis
      using cover_disjoint [of ?rs i j] that sub by (fastforce simp: live_regions_def case_prod_beta)
  qed
  then show "blocks_apart live" by (simp add: blocks_apart_def)
  have "block a n \<subseteq> mapped st" if "(a, n) \<in> set live" for a n
  proof
    fix x assume "x \<in> block a n"
    then have "0 < cover ?rs x"
      using that sub by (intro cover_member [of a "alloc_size st n"]) (force simp: live_regions_def)+
    then show "x \<in> mapped st" using le [of x] by (cases "x \<in> mapped st") simp_all
  qed
  then show "\<forall>(a, n) \<in> set live. a \<noteq> 0 \<and> block a n \<subseteq> mapped st"
    using assms by (auto simp: kalloc_inv_def)
qed

lemma kfree_keeps_others:
  assumes inv: "kalloc_inv sys st live frees" and i: "i < length live"
  shows "\<exists>st'. kfree (fst (live ! i)) (snd (live ! i)) st = Inr st' \<and>
    (\<forall>j < length live. j \<noteq> i \<longrightarrow> (\<forall>x \<in> block (fst (live ! j)) (snd (live ! j)). kmem st' x = kmem st x))"
proof -
  obtain a n where an: "live ! i = (a, n)" by fastforce
  obtain st' where st': "kfree a n st = Inr st'" "\<forall>x. kmem st' x \<noteq> kmem st x \<longrightarrow> x \<in> block a (alloc_size st n)"
    using kfree_ok [OF inv i an] by blast
  have "kmem st' x = kmem st x" if j: "j < length live" "j \<noteq> i" and x: "x \<in> block (fst (live ! j)) (snd (live ! j))" for j x
  proof (rule ccontr)
    assume "kmem st' x \<noteq> kmem st x"
    then have "cover (live_regions st (remove_nth i live)) x = 0"
      using st'(2) kalloc_inv_cover [OF inv i an, of x] by (cases "x \<in> mapped st") (simp_all add: all_regions_def)
    moreover have "live ! j \<in> set (remove_nth i live)"
    proof (cases "j < i")
      case True
      then show ?thesis using nth_mem [of j "remove_nth i live"] i by (simp add: remove_nth_nth)
    next
      case False
      then have "j - 1 < length live - 1" "\<not> j - 1 < i" "Suc (j - 1) = j" using j by linarith+
      then show ?thesis using nth_mem [of "j - 1" "remove_nth i live"] i by (simp add: remove_nth_nth)
    qed
    then have "(fst (live ! j), alloc_size st (snd (live ! j))) \<in> set (live_regions st (remove_nth i live))"
      by (force simp: live_regions_def)
    moreover have "x \<in> block (fst (live ! j)) (alloc_size st (snd (live ! j)))"
      using x alloc_size_ge [of "snd (live ! j)" st] by (simp add: block_def)
    ultimately show False using cover_member by fastforce
  qed
  then show ?thesis using st'(1) by (auto simp: an)
qed

text \<open>C11: on a system whose new memory is outside the memory in use, any sequence of allocations, releases and writes of a
  client that keeps to the blocks it holds runs without a fault and comes to an end. The blocks held then lie in mapped
  memory and are apart from each other; a further allocation gives either no block or one that is apart from all of
  them, and neither it nor a release changes a byte of the blocks that stay held, although the free lists are kept in the
  free blocks themselves.\<close>

theorem kalloc_blocks_apart:
  assumes "vm_ok sys"
  shows "\<exists>st live. kalloc_run sys opers (kalloc_state0, []) = Some (Inr (st, live)) \<and> blocks_apart live \<and>
    (\<forall>(a, n) \<in> set live. a \<noteq> 0 \<and> block a n \<subseteq> mapped st) \<and>
    (\<forall>n. \<exists>a st'. kalloc sys n st = Some (Inr (a, st')) \<and> kmem st' = kmem st \<and> (a \<noteq> 0 \<longrightarrow> blocks_apart ((a, n) # live))) \<and>
    (\<forall>i < length live. \<exists>st'. kfree (fst (live ! i)) (snd (live ! i)) st = Inr st' \<and>
       (\<forall>j < length live. j \<noteq> i \<longrightarrow> (\<forall>x \<in> block (fst (live ! j)) (snd (live ! j)). kmem st' x = kmem st x)))"
proof -
  have "kalloc_good sys kalloc_state0 []" by (simp add: kalloc_good_def)
  then obtain st live where run: "kalloc_run sys opers (kalloc_state0, []) = Some (Inr (st, live))"
    and good: "kalloc_good sys st live"
    using kalloc_run_good [OF assms] by blast
  have apart: "blocks_apart l \<and> (\<forall>(a, n) \<in> set l. a \<noteq> 0 \<and> block a n \<subseteq> mapped s)" if "kalloc_good sys s l" for s l
    using that unfolding kalloc_good_def
  proof (elim disjE exE)
    fix frees assume "kalloc_inv sys s l frees"
    then show ?thesis using kalloc_inv_apart by blast
  qed (simp add: blocks_apart_def)
  have allocs: "\<exists>a st'. kalloc sys n st = Some (Inr (a, st')) \<and> kmem st' = kmem st \<and> (a \<noteq> 0 \<longrightarrow> blocks_apart ((a, n) # live))" for n
    using kalloc_good_alloc [OF assms good, of n] apart by fastforce
  have frees: "\<exists>st'. kfree (fst (live ! i)) (snd (live ! i)) st = Inr st' \<and>
      (\<forall>j < length live. j \<noteq> i \<longrightarrow> (\<forall>x \<in> block (fst (live ! j)) (snd (live ! j)). kmem st' x = kmem st x))"
    if i: "i < length live" for i
  proof -
    obtain frees where "kalloc_inv sys st live frees" using kalloc_good_inv [OF good i] ..
    then show ?thesis using i by (rule kfree_keeps_others)
  qed
  show ?thesis
    by (rule exI [of _ st], rule exI [of _ live]) (intro conjI allI impI run allocs frees; use apart [OF good] in blast)
qed

definition demo_vm :: vm_system where
  "demo_vm = \<lparr>vm_page_size = 4096, has_host_port = True,
     vm_map = (\<lambda>hint n m. let a = if hint = 0 then 65536 else hint in
       if a + n \<le> 2 ^ 32 \<and> block a n \<inter> m = {} then Some a else None),
     vm_wire = (\<lambda>a n. 0)\<rparr>"

lemma demo_vm_ok: "vm_ok demo_vm"
  by (auto simp: vm_ok_def demo_vm_def Let_def split: if_splits)

theorem kalloc_blocks_apart_witness:
  "vm_ok demo_vm \<and>
   (\<exists>st. kalloc_run demo_vm [Op_Alloc 10, Op_Alloc 20, Op_Write 0 19 7, Op_Free 1, Op_Alloc 12] (kalloc_state0, []) =
      Some (Inr (st, [(4096, 12), (4112, 20)])) \<and> blocks_apart [(4096, 12), (4112, 20)])"
proof -
  obtain st live where run: "kalloc_run demo_vm [Op_Alloc 10, Op_Alloc 20, Op_Write 0 19 7, Op_Free 1, Op_Alloc 12]
      (kalloc_state0, []) = Some (Inr (st, live))" "blocks_apart live"
    using kalloc_blocks_apart [OF demo_vm_ok] by blast
  moreover have "live = [(4096, 12), (4112, 20)]"
    using run(1)
    by (simp add: kalloc_do_def kalloc_def kalloc_ready_def kalloc_init_def kalloc_state0_def demo_vm_def alloc_size_def
        size_index.simps kget_space_def kget_loop.simps round_page_def wire_memory_def block_def kfree_def remove_nth_def
        split: if_splits)
  ultimately show ?thesis using demo_vm_ok by blast
qed

end
