(* ===== verification/Malloc.thy ===== *)
theory Malloc
  imports Lmm Memory
begin

text \<open>
  The C library's allocator of \<^verbatim>\<open>src/mach/libmach/c\<close> (\<^verbatim>\<open>malloc/malloc.c\<close>, \<^verbatim>\<open>free.c\<close>, \<^verbatim>\<open>realloc.c\<close>, \<^verbatim>\<open>morecore.c\<close> and
  \<^verbatim>\<open>calloc.c\<close>) on the list memory manager: every block has its size in the word before it. The free blocks of the
  memory manager are chained through the free memory, so each of its operations is followed by the memory image of its
  free list; the headers of the regions lie outside the blocks and are left out.
\<close>

section \<open>Operations\<close>

record malloc_state =
  malloc_lmm :: lmm
  heap_mem :: memory

text \<open>The free blocks of the memory manager as they stand in memory: the next block and the size.\<close>

fun put_nodes :: "lmm_node list \<Rightarrow> memory \<Rightarrow> memory" where
  "put_nodes [] mem = mem"
| "put_nodes (n # ns) mem =
     put_nodes ns (store_word (store_word mem (unat (n_addr n)) (case ns of [] \<Rightarrow> 0 | m # ms \<Rightarrow> unat (n_addr m)))
       (unat (n_addr n) + 4) (unat (n_size n)))"

definition put_lmm :: "lmm \<Rightarrow> memory \<Rightarrow> memory" where
  "put_lmm lmm mem = fold (\<lambda>r. put_nodes (r_nodes r)) lmm mem"

definition set_lmm :: "lmm \<Rightarrow> malloc_state \<Rightarrow> malloc_state" where
  "set_lmm lmm st = st\<lparr>malloc_lmm := lmm, heap_mem := put_lmm lmm (heap_mem st)\<rparr>"

definition morecore :: "u32 \<Rightarrow> int" where
  "morecore n = 0"

text \<open>The loop around the allocation ends at once, since \<open>morecore\<close> never finds memory.\<close>

definition get_chunk :: "u32 \<Rightarrow> malloc_state \<Rightarrow> u32 \<times> malloc_state" where
  "get_chunk n st = (case lmm_alloc (malloc_lmm st) n 0 of (chunk, lmm) \<Rightarrow> if chunk = 0 \<and> morecore n = 0 then (0, st) else (chunk, set_lmm lmm st))"

definition malloc :: "u32 \<Rightarrow> malloc_state \<Rightarrow> u32 \<times> malloc_state" where
  "malloc n st =
     (case get_chunk (n + 4) st of
        (chunk, st1) \<Rightarrow>
          if chunk = 0 then (0, st1)
          else (chunk + 4, st1\<lparr>heap_mem := store_word (heap_mem st1) (unat chunk) (unat (n + 4))\<rparr>))"

definition chunk_size :: "malloc_state \<Rightarrow> u32 \<Rightarrow> u32" where
  "chunk_size st chunk = of_nat (load_word (heap_mem st) (unat chunk))"

definition free :: "u32 \<Rightarrow> malloc_state \<Rightarrow> malloc_state outcome" where
  "free p st =
     (if p = 0 then Inl Null_Deref
      else (case lmm_free (malloc_lmm st) (p - 4) (chunk_size st (p - 4)) of
              Inl e \<Rightarrow> Inl e
            | Inr lmm \<Rightarrow> Inr (set_lmm lmm st)))"

definition memcpy :: "nat \<Rightarrow> nat \<Rightarrow> nat \<Rightarrow> memory \<Rightarrow> memory" where
  "memcpy dst src n mem = (\<lambda>x. if x \<in> block dst n then mem (src + (x - dst)) else mem x)"

definition realloc :: "u32 \<Rightarrow> u32 \<Rightarrow> malloc_state \<Rightarrow> (u32 \<times> malloc_state) outcome" where
  "realloc buf n st =
     (if buf = 0 then Inr (malloc n st)
      else (let old = chunk_size st (buf - 4) in
            case get_chunk (n + 4) st of
              (np, st1) \<Rightarrow>
                if np = 0 then Inr (0, st1)
                else (let st2 = st1\<lparr>heap_mem := memcpy (unat np) (unat (buf - 4)) (unat (min old (n + 4))) (heap_mem st1)\<rparr> in
                      case lmm_free (malloc_lmm st2) (buf - 4) old of
                        Inl e \<Rightarrow> Inl e
                      | Inr lmm \<Rightarrow>
                          let st3 = set_lmm lmm st2 in
                          Inr (np + 4, st3\<lparr>heap_mem := store_word (heap_mem st3) (unat np) (unat (n + 4))\<rparr>))))"

definition bzero :: "nat \<Rightarrow> nat \<Rightarrow> memory \<Rightarrow> memory" where
  "bzero dst n mem = (\<lambda>x. if x \<in> block dst n then 0 else mem x)"

definition calloc :: "u32 \<Rightarrow> u32 \<Rightarrow> malloc_state \<Rightarrow> u32 \<times> malloc_state" where
  "calloc nelt eltsize st =
     (case malloc (nelt * eltsize) st of
        (p, st1) \<Rightarrow>
          if p = 0 then (0, st1)
          else (p, st1\<lparr>heap_mem := bzero (unat p) (unat (nelt * eltsize)) (heap_mem st1)\<rparr>))"

section \<open>The free list in memory\<close>

lemma put_nodes_other:
  "nodes_ok l h ns \<Longrightarrow> x \<notin> free_bytes ns \<Longrightarrow> put_nodes ns mem x = mem x"
proof (induction ns arbitrary: l mem)
  case (Cons n ns)
  have "8 \<le> unat (n_size n)" using Cons.prems(1) by (auto elim!: dvdE)
  then have "x \<notin> block (unat (n_addr n)) 4" "x \<notin> block (unat (n_addr n) + 4) 4"
    using Cons.prems(2) by (auto simp: block_def)
  then show ?case
    using Cons.IH [of "unat (n_addr n) + unat (n_size n)"] Cons.prems by (simp add: store_word_other)
qed simp

lemma put_lmm_other: "lmm_ok lmm \<Longrightarrow> x \<notin> lmm_bytes lmm \<Longrightarrow> put_lmm lmm mem x = mem x"
proof (induction lmm arbitrary: mem)
  case (Cons r lmm)
  have "put_nodes (r_nodes r) mem x = mem x" for mem
    using Cons.prems by (intro put_nodes_other [of "unat (r_addr r) + 24" "unat (r_addr r) + unat (r_size r)"])
      (simp_all add: region_ok_def)
  then show ?case using Cons by (simp add: put_lmm_def)
qed (simp add: put_lmm_def)

section \<open>The heap of a client\<close>

text \<open>A block of the client is its chunk with the bytes the client should find behind the size word.\<close>

type_synonym held = "(u32 \<times> u8 list) list"

definition bytes_at :: "memory \<Rightarrow> nat \<Rightarrow> nat \<Rightarrow> u8 list" where
  "bytes_at mem a n = map mem [a..<a + n]"

definition chunk_of :: "u32 \<times> u8 list \<Rightarrow> u32 \<times> u32" where
  "chunk_of b = (fst b, of_nat (length (snd b) + 4))"

definition block_good :: "malloc_state \<Rightarrow> u32 \<times> u8 list \<Rightarrow> bool" where
  "block_good st b \<longleftrightarrow> length (snd b) + 4 \<le> 2 ^ 32 - 8 \<and> load_word (heap_mem st) (unat (fst b)) = length (snd b) + 4 \<and>
     bytes_at (heap_mem st) (unat (fst b) + 4) (length (snd b)) = snd b"

definition heap_ok :: "malloc_state \<Rightarrow> held \<Rightarrow> bool" where
  "heap_ok st live \<longleftrightarrow> lmmA.consistent (map chunk_of live) (malloc_lmm st) \<and> (\<forall>b \<in> set live. block_good st b)"

lemma chunk_bytes:
  assumes "length bs + 4 \<le> 2 ^ 32 - 8"
  shows "unat (snd (chunk_of (a, bs))) = length bs + 4" "block (unat a) (length bs + 4) \<subseteq> block_bytes (chunk_of (a, bs))"
proof -
  show eq: "unat (snd (chunk_of (a, bs))) = length bs + 4"
    using assms by (simp add: chunk_of_def unsigned_of_nat take_bit_nat_eq_self del: of_nat_add)
  have "length bs + 4 \<le> unat (align_up (snd (chunk_of (a, bs))))"
    using align_up_ge [of "snd (chunk_of (a, bs))"] assms eq by simp
  then show "block (unat a) (length bs + 4) \<subseteq> block_bytes (chunk_of (a, bs))"
    by (auto simp: block_def block_bytes_def chunk_of_def)
qed

text \<open>A block stays good when its bytes stay as they are.\<close>

lemma block_good_frame:
  assumes "block_good st b" "\<And>x. x \<in> block_bytes (chunk_of b) \<Longrightarrow> heap_mem st' x = heap_mem st x"
  shows "block_good st' b"
proof -
  obtain a bs where b: "b = (a, bs)" by fastforce
  have "block (unat a) (length bs + 4) \<subseteq> block_bytes (chunk_of b)"
    using assms(1) unfolding b by (intro chunk_bytes(2)) (simp add: block_good_def)
  then have same: "heap_mem st' x = heap_mem st x" if "unat a \<le> x" "x < unat a + (length bs + 4)" for x
    using assms(2) [of x] that by (auto simp: block_def)
  have "load_word (heap_mem st') (unat a) = load_word (heap_mem st) (unat a)"
    by (rule load_word_cong) (auto simp: block_def intro!: same)
  moreover have "bytes_at (heap_mem st') (unat a + 4) (length bs) = bytes_at (heap_mem st) (unat a + 4) (length bs)"
    by (auto simp: bytes_at_def intro!: same)
  ultimately show ?thesis using assms(1) by (simp add: block_good_def b)
qed

section \<open>The operations on the heap\<close>

lemma lmm_outside:
  assumes "lmmA.consistent bs lmm" "b \<in> set bs" "x \<in> block_bytes b"
  shows "x \<notin> lmm_bytes lmm" "put_lmm lmm mem x = mem x"
proof -
  show out: "x \<notin> lmm_bytes lmm" using assms by (auto simp: lmmA.consistent_def lmmA.held_def)
  show "put_lmm lmm mem x = mem x" using put_lmm_other [OF _ out] assms(1) by (simp add: lmmA.consistent_def)
qed

lemma get_chunk_ok:
  assumes ok: "lmmA.consistent bs (malloc_lmm st)" and n: "0 < unat n" "unat n \<le> 2 ^ 32 - 8"
    and get: "get_chunk n st = (a, st')" "a \<noteq> 0"
  shows "lmmA.consistent ((a, n) # bs) (malloc_lmm st')"
    "\<And>x b. b \<in> set bs \<Longrightarrow> x \<in> block_bytes b \<Longrightarrow> heap_mem st' x = heap_mem st x"
proof -
  obtain lmm where alloc: "lmm_alloc (malloc_lmm st) n 0 = (a, lmm)" and st': "st' = set_lmm lmm st"
    using get by (auto simp: get_chunk_def split: prod.splits if_splits)
  have "lmm_get (n, 0) (malloc_lmm st) = Some ((a, n), lmm)" using alloc get(2) by (simp add: lmm_get_def)
  then show c: "lmmA.consistent ((a, n) # bs) (malloc_lmm st')"
    using lmmA.consistent_get(1) [OF ok, of "(n, 0)"] n by (simp add: request_ok_def st' set_lmm_def)
  show "heap_mem st' x = heap_mem st x" if "b \<in> set bs" "x \<in> block_bytes b" for x b
    using lmm_outside(2) [OF c, of b x] that by (simp add: st' set_lmm_def)
qed

text \<open>The new chunk is apart from the blocks held.\<close>

lemma consistent_head:
  "lmmA.consistent (b # bs) lmm \<Longrightarrow> c \<in> set bs \<Longrightarrow> x \<in> block_bytes b \<Longrightarrow> x \<notin> block_bytes c"
  by (auto simp: lmmA.consistent_def)

lemma unat_plus_4: "unat n \<le> 2 ^ 32 - 12 \<Longrightarrow> unat (n + 4 :: u32) = unat n + 4"
  by (subst unat_add_no_wrap) simp_all

lemma malloc_ok:
  assumes ok: "heap_ok st live" and n: "unat n \<le> 2 ^ 32 - 12" and m: "malloc n st = (p, st')" "p \<noteq> 0"
  shows "heap_ok st' ((p - 4, bytes_at (heap_mem st') (unat (p - 4) + 4) (unat n)) # live)"
proof -
  note n4 = unat_plus_4 [OF n]
  obtain st1 where get: "get_chunk (n + 4) st = (p - 4, st1)" "p - 4 \<noteq> 0"
    and st': "st' = st1\<lparr>heap_mem := store_word (heap_mem st1) (unat (p - 4)) (unat (n + 4))\<rparr>"
    using m by (auto simp: malloc_def split: prod.splits if_splits)
  let ?a = "p - 4" let ?bs = "bytes_at (heap_mem st') (unat ?a + 4) (unat n)"
  have len: "length ?bs = unat n" by (simp add: bytes_at_def)
  have chunk: "chunk_of (?a, ?bs) = (?a, n + 4)"
    by (simp add: chunk_of_def len)
  have c: "lmmA.consistent ((?a, n + 4) # map chunk_of live) (malloc_lmm st1)"
    "\<And>x b. b \<in> set (map chunk_of live) \<Longrightarrow> x \<in> block_bytes b \<Longrightarrow> heap_mem st1 x = heap_mem st x"
    using get_chunk_ok [OF _ _ _ get, of "map chunk_of live"] ok n n4 by (auto simp: heap_ok_def)
  have word: "block (unat ?a) 4 \<subseteq> block_bytes (?a, n + 4)"
    using chunk_bytes(2) [of ?bs ?a] n by (auto simp: len chunk block_def)
  have "block_good st' b" if b: "b \<in> set live" for b
  proof (rule block_good_frame)
    show "block_good st b" using ok b by (simp add: heap_ok_def)
    fix x assume x: "x \<in> block_bytes (chunk_of b)"
    then have "x \<notin> block_bytes (?a, n + 4)" using consistent_head [OF c(1), of "chunk_of b" x] b by auto
    then have "x \<notin> block (unat ?a) 4" using word by blast
    then show "heap_mem st' x = heap_mem st x" using c(2) [of "chunk_of b" x] b x by (simp add: st' store_word_other)
  qed
  moreover have "block_good st' (?a, ?bs)"
    using n n4 by (simp add: block_good_def len st') (simp add: bytes_at_def)
  ultimately show ?thesis using c(1) by (simp add: heap_ok_def chunk) (simp add: st')
qed

text \<open>The pointer the client has and what the operations find behind it.\<close>

lemma chunk_plus_4:
  assumes "lmmA.consistent bs lmm" "(a, n) \<in> set bs"
  shows "unat (a + 4) = unat a + 4" "a + 4 \<noteq> 0"
proof -
  have blk: "block_ok lmm (a, n)" using assms by (auto simp: lmmA.consistent_def)
  then obtain r where "r \<in> set lmm" "unat a + unat (align_up n) \<le> unat (r_addr r) + unat (r_size r)"
    by (auto simp: block_ok_def in_region_def)
  moreover have "0 < unat (align_up n)" "8 dvd unat (align_up n)" using blk by (simp_all add: block_ok_def in_region_def)
  moreover have "\<forall>r \<in> set lmm. unat (r_addr r) + unat (r_size r) < 2 ^ 32"
    using assms(1) by (simp add: lmmA.consistent_def lmm_ok_def region_ok_def)
  ultimately have "unat a + 8 < 2 ^ 32" by (auto elim!: dvdE)
  then show plus: "unat (a + 4) = unat a + 4" by (subst unat_add_no_wrap) simp_all
  then show "a + 4 \<noteq> 0" by (metis add_is_0 unat_0 zero_neq_numeral)
qed

lemma held_pointer:
  assumes ok: "heap_ok st live" and b: "(a, bs) \<in> set live"
  shows "unat (a + 4) = unat a + 4" "a + 4 \<noteq> 0" "chunk_size st a = snd (chunk_of (a, bs))"
proof -
  have "lmmA.consistent (map chunk_of live) (malloc_lmm st)" "(a, snd (chunk_of (a, bs))) \<in> set (map chunk_of live)"
    using ok b by (force simp: heap_ok_def chunk_of_def)+
  from chunk_plus_4 [OF this] show "unat (a + 4) = unat a + 4" "a + 4 \<noteq> 0" by simp_all
  have "load_word (heap_mem st) (unat a) = length bs + 4" using ok b by (auto simp: heap_ok_def block_good_def)
  then show "chunk_size st a = snd (chunk_of (a, bs))" by (simp add: chunk_size_def chunk_of_def)
qed

text \<open>A release succeeds exactly when a free block lies above the chunk in its region.\<close>

definition free_above :: "lmm \<Rightarrow> u32 \<Rightarrow> bool" where
  "free_above lmm a \<longleftrightarrow>
     (\<exists>r \<in> set lmm. unat (r_addr r) \<le> unat a \<and> unat a < unat (r_addr r) + unat (r_size r) \<and>
        (\<exists>m \<in> set (r_nodes r). unat a \<le> unat (n_addr m)))"

lemma chunk_release:
  assumes "lmmA.consistent bs lmm" "(a, n) \<in> set bs"
  shows "if free_above lmm a then \<exists>lmm'. lmm_free lmm a n = Inr lmm' else lmm_free lmm a n = Inl Null_Deref"
proof -
  have "lmm_ok lmm" "block_ok lmm (a, n)" "block_bytes (a, n) \<inter> lmm_bytes lmm = {}"
    using assms by (auto simp: lmmA.consistent_def lmmA.held_def)
  from lmm_free_ok [OF this] show ?thesis by (auto simp: free_above_def split: if_splits)
qed

lemma heap_release:
  assumes good: "\<forall>b \<in> set live. block_good st b" and c: "lmmA.consistent (map chunk_of live) lmm"
    and other: "\<And>x b. b \<in> set live \<Longrightarrow> x \<in> block_bytes (chunk_of b) \<Longrightarrow> heap_mem st' x = heap_mem st x"
  shows "heap_ok (set_lmm lmm st') live"
proof -
  have "block_good (set_lmm lmm st') b" if b: "b \<in> set live" for b
  proof (rule block_good_frame)
    show "block_good st b" using good b by simp
    fix x assume x: "x \<in> block_bytes (chunk_of b)"
    then show "heap_mem (set_lmm lmm st') x = heap_mem st x"
      using lmm_outside(2) [OF c, of "chunk_of b" x] other [OF b x] b by (simp add: set_lmm_def)
  qed
  then show ?thesis using c by (simp add: heap_ok_def set_lmm_def)
qed

lemma map_remove_nth_chunk: "map chunk_of (remove_nth i live) = remove_nth i (map chunk_of live)"
  by (simp add: remove_nth_def take_map drop_map)

lemma free_ok:
  assumes ok: "heap_ok st live" and i: "i < length live" "live ! i = (a, bs)"
  shows "if free_above (malloc_lmm st) a then \<exists>st'. free (a + 4) st = Inr st' \<and> heap_ok st' (remove_nth i live)
    else free (a + 4) st = Inl Null_Deref"
proof -
  have b: "(a, bs) \<in> set live" using i nth_mem by metis
  note ptr = held_pointer [OF ok b]
  have c: "lmmA.consistent (map chunk_of live) (malloc_lmm st)" using ok by (simp add: heap_ok_def)
  have free: "free (a + 4) st =
      (case lmm_free (malloc_lmm st) a (snd (chunk_of (a, bs))) of Inl e \<Rightarrow> Inl e | Inr lmm \<Rightarrow> Inr (set_lmm lmm st))"
    using ptr(2,3) by (simp add: free_def)
  have mem: "(a, snd (chunk_of (a, bs))) \<in> set (map chunk_of live)" using b by (force simp: chunk_of_def)
  show ?thesis
  proof (cases "free_above (malloc_lmm st) a")
    case True
    then obtain lmm where lmm: "lmm_free (malloc_lmm st) a (snd (chunk_of (a, bs))) = Inr lmm"
      using chunk_release [OF c mem] by auto
    then have "lmm_give (map chunk_of live ! i) (malloc_lmm st) = Inr lmm" using i by (simp add: lmm_give_def chunk_of_def)
    then have "lmmA.consistent (map chunk_of (remove_nth i live)) lmm"
      using lmmA.consistent_give(1) [OF c] i by (simp add: map_remove_nth_chunk)
    moreover have "\<forall>b \<in> set (remove_nth i live). block_good st b"
      using ok set_remove_nth_subset [of i live] by (auto simp: heap_ok_def)
    ultimately have "heap_ok (set_lmm lmm st) (remove_nth i live)" by (intro heap_release) simp_all
    then show ?thesis using True lmm free by simp
  next
    case False
    then show ?thesis using chunk_release [OF c mem] free by simp
  qed
qed

lemma new_bytes:
  assumes "\<And>k. k < n \<Longrightarrow> k < length bs \<Longrightarrow> mem (a + k) = bs ! k"
  shows "bytes_at mem a n = take n bs @ drop (length bs) (bytes_at mem a n)"
proof (rule nth_equalityI)
  fix k assume "k < length (bytes_at mem a n)"
  then show "bytes_at mem a n ! k = (take n bs @ drop (length bs) (bytes_at mem a n)) ! k"
    using assms [of k] by (auto simp: bytes_at_def nth_append min_def)
qed (auto simp: bytes_at_def)

lemma min_unat: "unat (min x y) = min (unat x) (unat (y :: u32))"
  by (simp add: min_def word_le_nat_alt)

text \<open>The part of \<open>realloc\<close> after the new chunk has been found.\<close>

lemma realloc_moves:
  assumes ok: "heap_ok st live" and i: "i < length live" "live ! i = (a, bs)" and n: "unat n \<le> 2 ^ 32 - 12"
    and get: "get_chunk (n + 4) st = (np, st1)" "np \<noteq> 0"
    and st2: "st2 = st1\<lparr>heap_mem := memcpy (unat np) (unat a) (min (length bs + 4) (unat n + 4)) (heap_mem st1)\<rparr>"
    and lmm: "lmm_free (malloc_lmm st1) a (snd (chunk_of (a, bs))) = Inr lmm"
    and st': "st' = (set_lmm lmm st2)\<lparr>heap_mem := store_word (heap_mem (set_lmm lmm st2)) (unat np) (unat (n + 4))\<rparr>"
  shows "heap_ok st' ((np, take (unat n) bs @ drop (length bs) (bytes_at (heap_mem st') (unat np + 4) (unat n))) # remove_nth i live)"
proof -
  note n4 = unat_plus_4 [OF n]
  have b: "(a, bs) \<in> set live" using i nth_mem by metis
  have len_bs: "length bs + 4 \<le> 2 ^ 32 - 8" using ok b by (auto simp: heap_ok_def block_good_def)
  let ?new = "(np, n + 4)"
  have c1: "lmmA.consistent (?new # map chunk_of live) (malloc_lmm st1)"
    and same: "\<And>x c. c \<in> set (map chunk_of live) \<Longrightarrow> x \<in> block_bytes c \<Longrightarrow> heap_mem st1 x = heap_mem st x"
    using get_chunk_ok [OF _ _ _ get, of "map chunk_of live"] ok n n4 by (auto simp: heap_ok_def)
  have "lmm_give ((?new # map chunk_of live) ! Suc i) (malloc_lmm st1) = Inr lmm"
    using lmm i by (simp add: lmm_give_def chunk_of_def)
  then have c2: "lmmA.consistent (?new # map chunk_of (remove_nth i live)) lmm"
    using lmmA.consistent_give(1) [OF c1, of "Suc i"] i by (simp add: map_remove_nth_chunk) (simp add: remove_nth_def)
  have inside: "block (unat np) (unat n + 4) \<subseteq> block_bytes ?new"
    using align_up_ge [of "n + 4"] n n4 by (auto simp: block_def block_bytes_def)
  have mem': "heap_mem st' x = put_lmm lmm (heap_mem st2) x" if "x \<notin> block (unat np) 4" for x
    using that by (simp add: st' set_lmm_def store_word_other)
  have others: "block_good st' c" if c: "c \<in> set (remove_nth i live)" for c
  proof (rule block_good_frame)
    have live: "c \<in> set live" using c set_remove_nth_subset [of i live] by (rule subsetD [rotated])
    then show "block_good st c" using ok by (simp add: heap_ok_def)
    fix x assume x: "x \<in> block_bytes (chunk_of c)"
    have "chunk_of c \<in> set (map chunk_of (remove_nth i live))" using c by simp
    then have "x \<notin> block_bytes ?new" using consistent_head [OF c2] x by blast
    then have out: "x \<notin> block (unat np) (unat n + 4)" using inside by blast
    have "x \<notin> block (unat np) 4" "x \<notin> block (unat np) (min (length bs + 4) (unat n + 4))"
      using out by (auto simp: block_def)
    moreover have "put_lmm lmm (heap_mem st2) x = heap_mem st2 x"
      using lmm_outside(2) [OF c2, of "chunk_of c" x] c x by simp
    moreover have "heap_mem st1 x = heap_mem st x" using same [of "chunk_of c" x] live x by simp
    ultimately show "heap_mem st' x = heap_mem st x"
      using mem' [of x] by (simp add: st2 memcpy_def)
  qed
  have copied: "heap_mem st' (unat np + 4 + k) = bs ! k" if k: "k < unat n" "k < length bs" for k
  proof -
    have "unat np + 4 + k \<in> block (unat np) (min (length bs + 4) (unat n + 4))" "unat np + 4 + k \<notin> block (unat np) 4"
      using k by (auto simp: block_def)
    moreover have "unat np + 4 + k \<in> block_bytes ?new" using k inside by (auto simp: block_def)
    then have "put_lmm lmm (heap_mem st2) (unat np + 4 + k) = heap_mem st2 (unat np + 4 + k)"
      using lmm_outside(2) [OF c2, of ?new] by simp
    ultimately have "heap_mem st' (unat np + 4 + k) = heap_mem st1 (unat a + 4 + k)"
      using mem' [of "unat np + 4 + k"] by (simp add: st2 memcpy_def add.assoc)
    also have "\<dots> = heap_mem st (unat a + 4 + k)"
      using chunk_bytes(2) [OF len_bs, of a] b k by (intro same [of "chunk_of (a, bs)"]) (auto simp: block_def)
    also have "\<dots> = bytes_at (heap_mem st) (unat a + 4) (length bs) ! k" using k by (simp add: bytes_at_def)
    also have "\<dots> = bs ! k" using ok b by (auto simp: heap_ok_def block_good_def)
    finally show ?thesis .
  qed
  let ?bs' = "take (unat n) bs @ drop (length bs) (bytes_at (heap_mem st') (unat np + 4) (unat n))"
  have eq: "bytes_at (heap_mem st') (unat np + 4) (unat n) = ?bs'" by (rule new_bytes) (rule copied)
  then have len: "length ?bs' = unat n" by (metis bytes_at_def diff_add_inverse length_map length_upt)
  have "block_good st' (np, ?bs')"
    unfolding block_good_def fst_conv snd_conv len using n n4 eq by (simp add: st')
  moreover have "chunk_of (np, ?bs') = ?new" unfolding chunk_of_def fst_conv snd_conv len by simp
  ultimately show ?thesis using others c2 by (simp add: heap_ok_def) (simp add: st' set_lmm_def)
qed

lemma realloc_ok:
  assumes ok: "heap_ok st live" and i: "i < length live" "live ! i = (a, bs)" and n: "unat n \<le> 2 ^ 32 - 12"
  shows "case realloc (a + 4) n st of
      Inl e \<Rightarrow> e = Null_Deref
    | Inr (p, st') \<Rightarrow>
        if p = 0 then st' = st
        else heap_ok st' ((p - 4, take (unat n) bs @ drop (length bs) (bytes_at (heap_mem st') (unat (p - 4) + 4) (unat n)))
          # remove_nth i live)"
proof -
  have b: "(a, bs) \<in> set live" using i nth_mem by metis
  note ptr = held_pointer [OF ok b]
  have len: "unat (snd (chunk_of (a, bs))) = length bs + 4"
    using ok b by (intro chunk_bytes(1)) (auto simp: heap_ok_def block_good_def)
  obtain np st1 where get: "get_chunk (n + 4) st = (np, st1)" by fastforce
  let ?st2 = "st1\<lparr>heap_mem := memcpy (unat np) (unat a) (min (length bs + 4) (unat n + 4)) (heap_mem st1)\<rparr>"
  have realloc: "realloc (a + 4) n st =
      (if np = 0 then Inr (0, st1)
       else case lmm_free (malloc_lmm st1) a (snd (chunk_of (a, bs))) of
         Inl e \<Rightarrow> Inl e
       | Inr lmm \<Rightarrow> Inr (np + 4, (set_lmm lmm ?st2)\<lparr>heap_mem := store_word (heap_mem (set_lmm lmm ?st2)) (unat np) (unat (n + 4))\<rparr>))"
    using ptr(2,3) get len unat_plus_4 [OF n] by (simp add: realloc_def Let_def min_unat split: sum.split)
  show ?thesis
  proof (cases "np = 0")
    case True
    then have "st1 = st" using get by (auto simp: get_chunk_def morecore_def split: prod.splits if_splits)
    then show ?thesis using True realloc by simp
  next
    case False
    have c: "lmmA.consistent ((np, n + 4) # map chunk_of live) (malloc_lmm st1)"
      using get_chunk_ok(1) [OF _ _ _ get False, of "map chunk_of live"] ok n unat_plus_4 [OF n] by (simp add: heap_ok_def)
    have "(a, snd (chunk_of (a, bs))) \<in> set ((np, n + 4) # map chunk_of live)" using b by (force simp: chunk_of_def)
    then have "lmm_free (malloc_lmm st1) a (snd (chunk_of (a, bs))) = Inl Null_Deref \<or>
        (\<exists>lmm. lmm_free (malloc_lmm st1) a (snd (chunk_of (a, bs))) = Inr lmm)"
      using chunk_release [OF c] by (metis (full_types))
    moreover have "np + 4 \<noteq> 0" using chunk_plus_4(2) [OF c, of np "n + 4"] by simp
    ultimately show ?thesis
      using False realloc realloc_moves [OF ok i n get False refl _ refl] by auto
  qed
qed

text \<open>Writes of the client inside a block it holds.\<close>

lemma held_apart:
  assumes "heap_ok st live" "i < length live" "j < length live" "i \<noteq> j"
  shows "block_bytes (chunk_of (live ! i)) \<inter> block_bytes (chunk_of (live ! j)) = {}"
proof -
  have sorted: "block_bytes (chunk_of (live ! k)) \<inter> block_bytes (chunk_of (live ! l)) = {}" if "k < l" "l < length live" for k l
    using assms(1) that by (simp add: heap_ok_def lmmA.consistent_def sorted_wrt_iff_nth_less)
  show ?thesis using assms(2-4) sorted [of i j] sorted [of j i] by (cases "i < j") auto
qed

lemma heap_fill:
  assumes ok: "heap_ok st live" and i: "i < length live" "live ! i = (a, bs)"
    and other: "\<And>x. x \<notin> block (unat a + 4) (length bs) \<Longrightarrow> mem x = heap_mem st x"
    and bs': "bytes_at mem (unat a + 4) (length bs) = bs'"
  shows "heap_ok (st\<lparr>heap_mem := mem\<rparr>) (live[i := (a, bs')])"
proof -
  have b: "(a, bs) \<in> set live" using i nth_mem by metis
  have len: "length bs' = length bs" using bs' by (auto simp: bytes_at_def)
  have bytes: "length bs + 4 \<le> 2 ^ 32 - 8" using ok b by (auto simp: heap_ok_def block_good_def)
  have chunks: "map chunk_of (live[i := (a, bs')]) = map chunk_of live"
    using i len by (auto simp: map_update chunk_of_def intro!: list_update_same_conv [THEN iffD2])
  have "block_good (st\<lparr>heap_mem := mem\<rparr>) (live[i := (a, bs')] ! j)" if j: "j < length live" for j
  proof (cases "j = i")
    case True
    have "load_word mem (unat a) = load_word (heap_mem st) (unat a)"
      by (rule load_word_cong) (auto simp: block_def intro!: other)
    then show ?thesis
      using True i ok b bytes bs' by (auto simp: heap_ok_def block_good_def len)
  next
    case False
    have "block_good (st\<lparr>heap_mem := mem\<rparr>) (live ! j)"
    proof (rule block_good_frame)
      show "block_good st (live ! j)" using ok j by (simp add: heap_ok_def)
      fix x assume x: "x \<in> block_bytes (chunk_of (live ! j))"
      have "block_bytes (chunk_of (live ! i)) \<inter> block_bytes (chunk_of (live ! j)) = {}"
        by (rule held_apart [OF ok i(1) j]) (use False in simp)
      then have "x \<notin> block (unat a) (length bs + 4)"
        using x chunk_bytes(2) [OF bytes, of a] unfolding i(2) by blast
      then have "x \<notin> block (unat a + 4) (length bs)" by (auto simp: block_def)
      then show "heap_mem (st\<lparr>heap_mem := mem\<rparr>) x = heap_mem st x" using other by simp
    qed
    then show ?thesis using False by simp
  qed
  then show ?thesis using ok chunks by (simp add: heap_ok_def all_set_conv_all_nth del: map_update)
qed

lemma write_ok:
  assumes "heap_ok st live" "i < length live" "live ! i = (a, bs)" "k < length bs"
  shows "heap_ok (st\<lparr>heap_mem := (heap_mem st)(unat a + 4 + k := v)\<rparr>) (live[i := (a, bs[k := v])])"
proof (rule heap_fill [OF assms(1-3)])
  have "(a, bs) \<in> set live" using assms(2,3) nth_mem by metis
  then have "bytes_at (heap_mem st) (unat a + 4) (length bs) = bs" using assms(1) by (auto simp: heap_ok_def block_good_def)
  moreover have "bytes_at ((heap_mem st)(unat a + 4 + k := v)) (unat a + 4) (length bs) =
      (bytes_at (heap_mem st) (unat a + 4) (length bs))[k := v]"
    using assms(4) by (intro nth_equalityI) (auto simp: bytes_at_def nth_list_update)
  ultimately show "bytes_at ((heap_mem st)(unat a + 4 + k := v)) (unat a + 4) (length bs) = bs[k := v]" by simp
qed (use assms(4) in \<open>auto simp: block_def\<close>)

lemma calloc_ok:
  assumes ok: "heap_ok st live" and n: "unat (nelt * eltsize) \<le> 2 ^ 32 - 12" and m: "calloc nelt eltsize st = (p, st')" "p \<noteq> 0"
  shows "heap_ok st' ((p - 4, replicate (unat (nelt * eltsize)) 0) # live)"
proof -
  let ?n = "unat (nelt * eltsize)"
  obtain st1 where st1: "malloc (nelt * eltsize) st = (p, st1)" and st': "st' = st1\<lparr>heap_mem := bzero (unat p) ?n (heap_mem st1)\<rparr>"
    using m by (auto simp: calloc_def split: prod.splits if_splits)
  let ?bs = "bytes_at (heap_mem st1) (unat (p - 4) + 4) ?n"
  have ok1: "heap_ok st1 ((p - 4, ?bs) # live)" by (rule malloc_ok [OF ok n st1 m(2)])
  have p: "unat p = unat (p - 4) + 4" using held_pointer(1) [OF ok1, of "p - 4" ?bs] by simp
  have len: "length ?bs = ?n" by (simp add: bytes_at_def)
  have "heap_ok (st1\<lparr>heap_mem := bzero (unat p) ?n (heap_mem st1)\<rparr>) (((p - 4, ?bs) # live)[0 := (p - 4, replicate ?n 0)])"
    by (rule heap_fill [OF ok1, of 0 "p - 4" ?bs])
      (auto simp: len p bzero_def bytes_at_def block_def intro!: nth_equalityI)
  then show ?thesis by (simp add: st')
qed

section \<open>Runs of a client\<close>

datatype heap_op = H_Malloc u32 | H_Calloc u32 u32 | H_Free nat | H_Realloc nat u32 | H_Write nat nat u8

text \<open>The sizes are so small that the size word and the rounding do not wrap.\<close>

fun heap_legal :: "heap_op \<Rightarrow> bool" where
  "heap_legal (H_Malloc n) \<longleftrightarrow> unat n \<le> 2 ^ 32 - 12"
| "heap_legal (H_Calloc nelt eltsize) \<longleftrightarrow> unat (nelt * eltsize) \<le> 2 ^ 32 - 12"
| "heap_legal (H_Realloc i n) \<longleftrightarrow> unat n \<le> 2 ^ 32 - 12"
| "heap_legal _ \<longleftrightarrow> True"

text \<open>The contents a block should have: what memory holds when it is allocated, zeros from \<open>calloc\<close>, the old contents as
  far as they fit after \<open>realloc\<close>, and what the client writes. An operation on a block that is not held does nothing.\<close>

fun heap_do :: "heap_op \<Rightarrow> malloc_state \<times> held \<Rightarrow> (malloc_state \<times> held) outcome" where
  "heap_do (H_Malloc n) (st, live) =
     (case malloc n st of
        (p, st') \<Rightarrow> Inr (st', if p = 0 then live else (p - 4, bytes_at (heap_mem st') (unat (p - 4) + 4) (unat n)) # live))"
| "heap_do (H_Calloc nelt eltsize) (st, live) =
     (case calloc nelt eltsize st of
        (p, st') \<Rightarrow> Inr (st', if p = 0 then live else (p - 4, replicate (unat (nelt * eltsize)) 0) # live))"
| "heap_do (H_Free i) (st, live) =
     (if i < length live then map_sum id (\<lambda>st'. (st', remove_nth i live)) (free (fst (live ! i) + 4) st) else Inr (st, live))"
| "heap_do (H_Realloc i n) (st, live) =
     (if i < length live
      then (case realloc (fst (live ! i) + 4) n st of
              Inl e \<Rightarrow> Inl e
            | Inr (p, st') \<Rightarrow>
                Inr (st', if p = 0 then live
                  else (p - 4, take (unat n) (snd (live ! i)) @
                      drop (length (snd (live ! i))) (bytes_at (heap_mem st') (unat (p - 4) + 4) (unat n)))
                    # remove_nth i live))
      else Inr (st, live))"
| "heap_do (H_Write i k v) (st, live) =
     (if i < length live \<and> k < length (snd (live ! i))
      then Inr (st\<lparr>heap_mem := (heap_mem st)(unat (fst (live ! i)) + 4 + k := v)\<rparr>,
                live[i := (fst (live ! i), (snd (live ! i))[k := v])])
      else Inr (st, live))"

fun heap_run :: "heap_op list \<Rightarrow> malloc_state \<times> held \<Rightarrow> (malloc_state \<times> held) outcome" where
  "heap_run [] s = Inr s"
| "heap_run (oper # opers) s = (case heap_do oper s of Inl e \<Rightarrow> Inl e | Inr s' \<Rightarrow> heap_run opers s')"

definition heap_result :: "(malloc_state \<times> held) outcome \<Rightarrow> bool" where
  "heap_result r \<longleftrightarrow> (case r of Inl e \<Rightarrow> e = Null_Deref | Inr (st, live) \<Rightarrow> heap_ok st live)"

lemma malloc_none: "malloc n st = (0, st') \<Longrightarrow> heap_ok st live \<Longrightarrow> unat n \<le> 2 ^ 32 - 12 \<Longrightarrow> st' = st"
proof -
  assume m: "malloc n st = (0, st')" and ok: "heap_ok st live" and n: "unat n \<le> 2 ^ 32 - 12"
  obtain a st1 where get: "get_chunk (n + 4) st = (a, st1)" by fastforce
  have "a = 0"
  proof (rule ccontr)
    assume a: "a \<noteq> 0"
    have "lmmA.consistent ((a, n + 4) # map chunk_of live) (malloc_lmm st1)"
      using get_chunk_ok(1) [OF _ _ _ get a, of "map chunk_of live"] ok n unat_plus_4 [OF n] by (simp add: heap_ok_def)
    then have "a + 4 \<noteq> 0" using chunk_plus_4(2) [of _ _ a "n + 4"] by simp
    then show False using m get a by (simp add: malloc_def)
  qed
  then show ?thesis using m get by (auto simp: malloc_def get_chunk_def morecore_def split: prod.splits if_splits)
qed

lemma heap_do_ok: "heap_ok st live \<Longrightarrow> heap_legal oper \<Longrightarrow> heap_result (heap_do oper (st, live))"
proof (cases oper)
  case (H_Malloc n)
  assume ok: "heap_ok st live" "heap_legal oper"
  obtain p st' where m: "malloc n st = (p, st')" by fastforce
  then show ?thesis
    using malloc_ok [OF ok(1) _ m] malloc_none [of n st st' live] ok H_Malloc by (auto simp: heap_result_def)
next
  case (H_Calloc nelt eltsize)
  assume ok: "heap_ok st live" "heap_legal oper"
  obtain p st' where m: "calloc nelt eltsize st = (p, st')" by fastforce
  have "p = 0 \<Longrightarrow> st' = st"
    using m malloc_none [of "nelt * eltsize" st st' live] ok H_Calloc by (auto simp: calloc_def split: prod.splits if_splits)
  then show ?thesis
    using m calloc_ok [OF ok(1) _ m] ok H_Calloc by (auto simp: heap_result_def)
next
  case (H_Free i)
  assume ok: "heap_ok st live" "heap_legal oper"
  show ?thesis
  proof (cases "i < length live")
    case True
    then show ?thesis
      using free_ok [OF ok(1) True, of "fst (live ! i)" "snd (live ! i)"] H_Free by (auto simp: heap_result_def split: if_splits)
  qed (use ok H_Free in \<open>simp add: heap_result_def\<close>)
next
  case (H_Realloc i n)
  assume ok: "heap_ok st live" "heap_legal oper"
  show ?thesis
  proof (cases "i < length live")
    case True
    then show ?thesis
      using realloc_ok [OF ok(1) True, of "fst (live ! i)" "snd (live ! i)" n] ok H_Realloc
      by (auto simp: heap_result_def split: if_splits sum.splits)
  qed (use ok H_Realloc in \<open>simp add: heap_result_def\<close>)
next
  case (H_Write i k v)
  assume ok: "heap_ok st live" "heap_legal oper"
  then show ?thesis
    using write_ok [OF ok(1), of i "fst (live ! i)" "snd (live ! i)" k v] H_Write by (auto simp: heap_result_def)
qed

lemma heap_run_ok: "heap_ok st live \<Longrightarrow> list_all heap_legal opers \<Longrightarrow> heap_result (heap_run opers (st, live))"
proof (induction opers arbitrary: st live)
  case (Cons oper opers)
  have result: "heap_result (heap_do oper (st, live))" using heap_do_ok Cons.prems by simp
  show ?case
  proof (cases "heap_do oper (st, live)")
    case (Inl e)
    then show ?thesis using result by (simp add: heap_result_def)
  next
    case (Inr s')
    obtain st' live' where s': "s' = (st', live')" by fastforce
    then have "heap_ok st' live'" using result Inr by (simp add: heap_result_def)
    then show ?thesis using Cons.IH [of st' live'] Cons.prems Inr s' by simp
  qed
qed (simp add: heap_result_def)

text \<open>C12: a client that uses \<open>malloc\<close>, \<open>calloc\<close>, \<open>realloc\<close> and \<open>free\<close> with sizes that do not wrap, and writes only inside the
  blocks it holds, finds in every block exactly what it has put there: zeros after \<open>calloc\<close>, the old contents as far as
  they fit after \<open>realloc\<close>, and its own writes, although the memory manager keeps its lists in the free memory around
  them. The blocks are apart. The only fault of a run is the null pointer that the memory manager reads when no free
  block lies above the one released, and a release goes well exactly when there is one.\<close>

theorem malloc_keeps_contents:
  assumes "lmm_ok lmm" "list_all heap_legal opers"
  shows "case heap_run opers (\<lparr>malloc_lmm = lmm, heap_mem = mem\<rparr>, []) of
      Inl e \<Rightarrow> e = Null_Deref
    | Inr (st, live) \<Rightarrow>
        (\<forall>(a, bs) \<in> set live. a + 4 \<noteq> 0 \<and> bytes_at (heap_mem st) (unat (a + 4)) (length bs) = bs) \<and>
        (\<forall>i < length live. \<forall>j < length live. i \<noteq> j \<longrightarrow>
           block (unat (fst (live ! i) + 4)) (length (snd (live ! i))) \<inter>
           block (unat (fst (live ! j) + 4)) (length (snd (live ! j))) = {}) \<and>
        (\<forall>i < length live. if free_above (malloc_lmm st) (fst (live ! i)) then \<exists>st'. free (fst (live ! i) + 4) st = Inr st'
           else free (fst (live ! i) + 4) st = Inl Null_Deref)"
proof -
  have "heap_ok \<lparr>malloc_lmm = lmm, heap_mem = mem\<rparr> []"
    using assms(1) by (simp add: heap_ok_def lmmA.consistent_def lmmA.held_def)
  note result = heap_run_ok [OF this assms(2)]
  show ?thesis
  proof (cases "heap_run opers (\<lparr>malloc_lmm = lmm, heap_mem = mem\<rparr>, [])")
    case (Inl e)
    then show ?thesis using result by (simp add: heap_result_def)
  next
    case (Inr s)
    obtain st live where s: "s = (st, live)" by fastforce
    have ok: "heap_ok st live" using result Inr s by (simp add: heap_result_def)
    have ptr: "a + 4 \<noteq> 0" "unat (a + 4) = unat a + 4" "block (unat (a + 4)) (length bs) \<subseteq> block_bytes (chunk_of (a, bs))"
        "bytes_at (heap_mem st) (unat (a + 4)) (length bs) = bs" if b: "(a, bs) \<in> set live" for a bs
    proof -
      have good: "block_good st (a, bs)" using ok b by (auto simp: heap_ok_def)
      show "a + 4 \<noteq> 0" and plus: "unat (a + 4) = unat a + 4" using held_pointer [OF ok b] by simp_all
      show "block (unat (a + 4)) (length bs) \<subseteq> block_bytes (chunk_of (a, bs))"
        using chunk_bytes(2) [of bs a] good by (auto simp: plus block_def block_good_def)
      show "bytes_at (heap_mem st) (unat (a + 4)) (length bs) = bs" using good by (simp add: plus block_good_def)
    qed
    have "block (unat (fst (live ! i) + 4)) (length (snd (live ! i))) \<inter> block (unat (fst (live ! j) + 4)) (length (snd (live ! j))) = {}"
      if "i < length live" "j < length live" "i \<noteq> j" for i j
      using held_apart [OF ok that] ptr(3) [of "fst (live ! i)" "snd (live ! i)"] ptr(3) [of "fst (live ! j)" "snd (live ! j)"]
        nth_mem [OF that(1)] nth_mem [OF that(2)] by auto
    moreover have "if free_above (malloc_lmm st) (fst (live ! i)) then \<exists>st'. free (fst (live ! i) + 4) st = Inr st'
        else free (fst (live ! i) + 4) st = Inl Null_Deref" if "i < length live" for i
      using free_ok [OF ok that, of "fst (live ! i)" "snd (live ! i)"] by (auto split: if_splits)
    ultimately show ?thesis using Inr s ptr(1,4) by auto
  qed
qed

lemmas malloc_simps = malloc_def calloc_def get_chunk_def demo_lmm_eq lmm_alloc_def align_up_def align_down_def ALIGN_MASK_def
  set_lmm_def Let_def

theorem malloc_keeps_contents_witness:
  "\<exists>st bs. heap_run [H_Malloc 8, H_Write 0 3 7] (\<lparr>malloc_lmm = demo_lmm, heap_mem = \<lambda>x. 0\<rparr>, []) = Inr (st, [(4120, bs)]) \<and>
     bytes_at (heap_mem st) 4124 8 = bs \<and> bs ! 3 = 7"
proof -
  let ?run = "heap_run [H_Malloc 8, H_Write 0 3 7] (\<lparr>malloc_lmm = demo_lmm, heap_mem = \<lambda>x. 0\<rparr>, [])"
  obtain st bs where run: "?run = Inr (st, [(4120, bs)])" and bs: "length bs = 8" "bs ! 3 = 7"
    by (simp add: malloc_simps bytes_at_def)
  have "list_all heap_legal [H_Malloc 8, H_Write 0 3 7]" by simp
  from malloc_keeps_contents [OF demo_lmm_ok this, of "\<lambda>x. 0"] show ?thesis using run bs by auto
qed

section \<open>Sizes that wrap and blocks that cannot be released\<close>

lemma malloc_wraps: "fst (malloc 0xFFFFFFFF \<lparr>malloc_lmm = demo_lmm, heap_mem = mem\<rparr>) = 4124"
  by (simp add: malloc_simps)

lemma calloc_wraps: "fst (calloc 65536 65536 \<lparr>malloc_lmm = demo_lmm, heap_mem = mem\<rparr>) = 4124"
  by (simp add: malloc_simps)

lemma free_null: "free 0 st = Inl Null_Deref"
  by (simp add: free_def)

lemma free_last_block:
  "heap_run [H_Malloc 4068, H_Free 0] (\<lparr>malloc_lmm = demo_lmm, heap_mem = mem\<rparr>, []) = Inl Null_Deref"
  by (simp add: malloc_simps free_def lmm_free_def chunk_size_def free_nodes_def put_lmm_def)

end
