(* ===== verification/Doprnt.thy ===== *)
theory Doprnt
  imports CString
begin

text \<open>
  The formatted output of the Mach C library: \<^verbatim>\<open>_doprnt\<close> (\<^verbatim>\<open>src/mach/libmach/c/doprnt.c\<close>) and its
  clients \<^verbatim>\<open>printf.c\<close> and \<^verbatim>\<open>sprintf.c\<close>. A C string is the list of its characters before the
  terminator, so the end of the list is where the code reads \<open>0\<close>. The library is built for a machine
  where \<^verbatim>\<open>int\<close>, \<^verbatim>\<open>long\<close> and pointers have 32 bits: the variable arguments are a list of words, a
  string argument is the address of a string that the parameter \<open>strs\<close> gives, and signed
  arithmetic wraps. With these widths \<^verbatim>\<open>_doprnt_truncates\<close> changes nothing. The character output is a
  parameter of \<open>doprnt\<close>, as it is in the source.
\<close>

section \<open>Arguments, output and signed characters\<close>

type_synonym 'o putc = "char \<Rightarrow> 'o \<Rightarrow> 'o outcome"

definition va_arg :: "u32 list \<Rightarrow> (u32 \<times> u32 list) outcome" where
  "va_arg args = (case args of [] \<Rightarrow> Inl Out_Of_Bounds | a # rest \<Rightarrow> Inr (a, rest))"

text \<open>The characters of a loop that outputs them one after the other.\<close>

fun emit :: "'o putc \<Rightarrow> string \<Rightarrow> 'o \<Rightarrow> 'o outcome" where
  "emit putc [] out = Inr out"
| "emit putc (c # cs) out = obind (putc c out) (emit putc cs)"

definition schar :: "char \<Rightarrow> int" where
  "schar c = (let n = of_char c in if n < 128 then n else n - 256)"

section \<open>Numbers\<close>

definition digs :: string where
  "digs = ''0123456789abcdef'' @ [CHR 0x00]"

text \<open>
  The loop that builds a number from the end of a buffer: \<open>p\<close> cells of the buffer are left, \<open>ds\<close> is
  what stands behind them.
\<close>

fun digit_loop :: "u32 \<Rightarrow> u32 \<Rightarrow> nat \<Rightarrow> string \<Rightarrow> string outcome" where
  "digit_loop u base p ds =
     (if base = 0 then Inl Div_By_Zero
      else if length digs \<le> unat (u mod base) then Inl Out_Of_Bounds
      else (case p of
              0 \<Rightarrow> Inl Out_Of_Bounds
            | Suc p' \<Rightarrow>
                (let ds' = digs ! unat (u mod base) # ds; u' = u div base in
                 if u' \<noteq> 0 then digit_loop u' base p' ds' else Inr ds')))"

declare digit_loop.simps [simp del]

abbreviation MAXBUF :: nat where
  "MAXBUF \<equiv> 32"

definition printnum :: "u32 \<Rightarrow> u32 \<Rightarrow> 'o putc \<Rightarrow> 'o \<Rightarrow> 'o outcome" where
  "printnum u base putc out = obind (digit_loop u base MAXBUF []) (\<lambda>ds. emit putc ds out)"

section \<open>The fields of a conversion\<close>

record fmt_spec =
  f_length :: u32
  f_prec :: u32
  f_ladjust :: bool
  f_padc :: char
  f_plus_sign :: "char option"
  f_altfmt :: bool

definition fmt_spec0 :: fmt_spec where
  "fmt_spec0 = \<lparr>f_length = 0, f_prec = - 1, f_ladjust = False, f_padc = CHR '' '', f_plus_sign = None, f_altfmt = False\<rparr>"

fun parse_flags :: "string \<Rightarrow> fmt_spec \<Rightarrow> string \<times> fmt_spec" where
  "parse_flags [] s = ([], s)"
| "parse_flags (c # fmt) s =
     (if c = CHR ''#'' then parse_flags fmt (s\<lparr>f_altfmt := True\<rparr>)
      else if c = CHR ''-'' then parse_flags fmt (s\<lparr>f_ladjust := True\<rparr>)
      else if c = CHR ''+'' then parse_flags fmt (s\<lparr>f_plus_sign := Some (CHR ''+'')\<rparr>)
      else if c = CHR '' '' then
        parse_flags fmt (if f_plus_sign s = None then s\<lparr>f_plus_sign := Some (CHR '' '')\<rparr> else s)
      else (c # fmt, s))"

definition parse_zero :: "string \<Rightarrow> fmt_spec \<Rightarrow> string \<times> fmt_spec" where
  "parse_zero fmt s =
     (case fmt of
        [] \<Rightarrow> (fmt, s)
      | c # rest \<Rightarrow> if c = CHR ''0'' then (rest, s\<lparr>f_padc := CHR ''0''\<rparr>) else (fmt, s))"

fun parse_digits :: "string \<Rightarrow> u32 \<Rightarrow> string \<times> u32" where
  "parse_digits [] n = ([], n)"
| "parse_digits (c # fmt) n =
     (if isdigit c then parse_digits fmt (10 * n + of_nat (of_char c - 48)) else (c # fmt, n))"

definition parse_width :: "string \<Rightarrow> u32 list \<Rightarrow> fmt_spec \<Rightarrow> (string \<times> u32 list \<times> fmt_spec) outcome" where
  "parse_width fmt args s =
     (case fmt of
        [] \<Rightarrow> Inr (fmt, args, s)
      | c # rest \<Rightarrow>
          if isdigit c then
            (case parse_digits fmt (f_length s) of (fmt', n) \<Rightarrow> Inr (fmt', args, s\<lparr>f_length := n\<rparr>))
          else if c = CHR ''*'' then
            obind (va_arg args) (\<lambda>(n, args').
              Inr (rest, args',
                   if sint n < 0 then s\<lparr>f_ladjust := \<not> f_ladjust s, f_length := - n\<rparr> else s\<lparr>f_length := n\<rparr>))
          else Inr (fmt, args, s))"

definition parse_prec :: "string \<Rightarrow> u32 list \<Rightarrow> fmt_spec \<Rightarrow> (string \<times> u32 list \<times> fmt_spec) outcome" where
  "parse_prec fmt args s =
     (case fmt of
        c # d # rest \<Rightarrow>
          if c \<noteq> CHR ''.'' then Inr (fmt, args, s)
          else if isdigit d then
            (case parse_digits (d # rest) 0 of (fmt', n) \<Rightarrow> Inr (fmt', args, s\<lparr>f_prec := n\<rparr>))
          else if d = CHR ''*'' then
            obind (va_arg args) (\<lambda>(n, args'). Inr (rest, args', s\<lparr>f_prec := n\<rparr>))
          else Inr (d # rest, args, s)
      | [c] \<Rightarrow> Inr (if c = CHR ''.'' then [] else fmt, args, s)
      | [] \<Rightarrow> Inr (fmt, args, s))"

definition parse_long :: "string \<Rightarrow> string" where
  "parse_long fmt = (case fmt of [] \<Rightarrow> [] | c # rest \<Rightarrow> if c = CHR ''l'' then rest else fmt)"

definition parse_spec :: "string \<Rightarrow> u32 list \<Rightarrow> (string \<times> u32 list \<times> fmt_spec) outcome" where
  "parse_spec fmt args =
     (case parse_flags fmt fmt_spec0 of
        (fmt1, s1) \<Rightarrow>
          (case parse_zero fmt1 s1 of
             (fmt2, s2) \<Rightarrow>
               obind (parse_width fmt2 args s2) (\<lambda>(fmt3, args3, s3).
                 obind (parse_prec fmt3 args3 s3) (\<lambda>(fmt4, args4, s4).
                   Inr (parse_long fmt4, args4, s4)))))"

section \<open>Strings\<close>

text \<open>The number of characters that will be printed.\<close>

fun count_loop :: "string \<Rightarrow> u32 \<Rightarrow> u32 \<Rightarrow> u32" where
  "count_loop [] n prec = n"
| "count_loop (c # p) n prec = (if sint n < sint prec then count_loop p (n + 1) prec else n)"

text \<open>Blanks up to the field width; the second component is what \<open>n\<close> is then.\<close>

function blank_loop :: "u32 \<Rightarrow> u32 \<Rightarrow> string" where
  "blank_loop n len = (if sint n < sint len then CHR '' '' # blank_loop (n + 1) len else [])"
  by pat_completeness auto
termination
  by (relation "measure (\<lambda>(n, len). nat (sint len - sint n))") (simp_all add: sint_Suc_word)

declare blank_loop.simps [simp del]

text \<open>The characters printed, and the counter after the loop.\<close>

fun text_loop :: "string \<Rightarrow> u32 \<Rightarrow> u32 \<Rightarrow> string \<times> u32" where
  "text_loop [] n prec = ([], n)"
| "text_loop (c # p) n prec =
     (if sint prec < sint (n + 1) then ([], n + 1)
      else (case text_loop p (n + 1) prec of (cs, n') \<Rightarrow> (c # cs, n')))"

definition conv_string :: "string \<Rightarrow> fmt_spec \<Rightarrow> string" where
  "conv_string p s =
     (let prec = if f_prec s = - 1 then 0x7fffffff else f_prec s;
          front = if 0 < sint (f_length s) \<and> \<not> f_ladjust s
                  then blank_loop (count_loop p 0 prec) (f_length s) else [] in
      case text_loop p 0 prec of
        (cs, n) \<Rightarrow> front @ cs @ (if f_ladjust s then blank_loop n (f_length s) else []))"

definition print_string :: "(u32 \<Rightarrow> string option) \<Rightarrow> u32 \<Rightarrow> fmt_spec \<Rightarrow> 'o putc \<Rightarrow> 'o \<Rightarrow> 'o outcome" where
  "print_string strs p s putc out =
     (if p = 0 then emit putc (conv_string [] s) out
      else (case strs p of
              None \<Rightarrow> Inl Out_Of_Bounds
            | Some cs \<Rightarrow> emit putc (conv_string cs s) out))"

section \<open>Device registers\<close>

text \<open>A shift counts modulo the word size, as the shift instructions of the machine do.\<close>

definition shift_count :: "int \<Rightarrow> nat" where
  "shift_count n = nat (n mod 32)"

definition separator :: "bool \<Rightarrow> char" where
  "separator any = (if any then CHR '','' else CHR ''<'')"

definition bit_field :: "u32 \<Rightarrow> int \<Rightarrow> int \<Rightarrow> u32" where
  "bit_field u i j = drop_bit (shift_count (j - 1)) u AND (push_bit (shift_count (i - j)) 2 - 1)"

function bits_loop :: "u32 \<Rightarrow> u32 \<Rightarrow> string \<Rightarrow> bool \<Rightarrow> 'o putc \<Rightarrow> 'o \<Rightarrow> 'o outcome" where
  "bits_loop u base [] any putc out = (if any then putc (CHR ''>'') out else Inr out)"
| "bits_loop u base (ic # p) any putc out =
     (let i = schar ic; printable = (\<lambda>c. 32 < schar c) in
      case p of
        [] \<Rightarrow> obind (putc (separator any) out) (\<lambda>_. Inl Out_Of_Bounds)
      | jc # q \<Rightarrow>
          if schar jc \<le> 32 then
            obind (emit putc (separator any # takeWhile printable q) out) (\<lambda>out1.
              obind (printnum (bit_field u i (schar jc)) base putc out1) (\<lambda>out2.
                bits_loop u base (dropWhile printable q) True putc out2))
          else if u AND push_bit (shift_count (i - 1)) 1 \<noteq> 0 then
            obind (emit putc (separator any # takeWhile printable p) out)
              (bits_loop u base (dropWhile printable p) True putc)
          else bits_loop u base (dropWhile printable p) any putc out)"
  by pat_completeness auto
termination
  by (relation "measure (\<lambda>(u, base, p, any, putc, out). length p)")
     (auto simp: le_imp_less_Suc length_dropWhile_le le_SucI split: if_splits)

definition print_bits :: "(u32 \<Rightarrow> string option) \<Rightarrow> u32 \<Rightarrow> u32 \<Rightarrow> 'o putc \<Rightarrow> 'o \<Rightarrow> 'o outcome" where
  "print_bits strs u p putc out =
     (if p = 0 then Inl Null_Deref
      else (case strs p of
              None \<Rightarrow> Inl Out_Of_Bounds
            | Some [] \<Rightarrow> printnum u 0 putc out
            | Some (b # q) \<Rightarrow>
                (let base = word_of_int (schar b) in
                 obind (printnum u base putc out) (\<lambda>out1.
                   if u = 0 then Inr out1 else bits_loop u base q False putc out1))))"

section \<open>Signed and unsigned numbers\<close>

text \<open>\<^verbatim>\<open>while (--length >= 0) putc(c)\<close>, and the counter after it.\<close>

function pad_loop :: "char \<Rightarrow> u32 \<Rightarrow> string \<times> u32" where
  "pad_loop c n =
     (if 0 \<le> sint (n - 1) then (case pad_loop c (n - 1) of (cs, n') \<Rightarrow> (c # cs, n')) else ([], n - 1))"
  by pat_completeness auto

termination
  by (relation "measure (\<lambda>(c, n). unat n)") (auto dest: unat_dec_word)

declare pad_loop.simps [simp del]

definition number_prefix :: "u32 \<Rightarrow> u32 \<Rightarrow> fmt_spec \<Rightarrow> string" where
  "number_prefix u base s =
     (if u \<noteq> 0 \<and> f_altfmt s then if base = 8 then ''0'' else if base = 16 then ''0x'' else [] else [])"

definition sign_text :: "char option \<Rightarrow> string" where
  "sign_text sign_char = (case sign_char of None \<Rightarrow> [] | Some c \<Rightarrow> [c])"

definition conv_number :: "u32 \<Rightarrow> char option \<Rightarrow> u32 \<Rightarrow> fmt_spec \<Rightarrow> string outcome" where
  "conv_number u sign_char base s =
     obind (digit_loop u base MAXBUF []) (\<lambda>ds.
       let sg = sign_text sign_char;
           prefix = number_prefix u base s;
           len = f_length s - of_nat (length ds) - of_nat (length sg) - of_nat (length prefix);
           (front, len1) = (if f_padc s = CHR '' '' \<and> \<not> f_ladjust s then pad_loop (CHR '' '') len else ([], len));
           (zeros, len2) = (if f_padc s = CHR ''0'' then pad_loop (CHR ''0'') len1 else ([], len1));
           (back, len3) = (if f_ladjust s then pad_loop (CHR '' '') len2 else ([], len2))
       in Inr (front @ sg @ prefix @ zeros @ ds @ back))"

definition print_unsigned :: "u32 \<Rightarrow> u32 \<Rightarrow> fmt_spec \<Rightarrow> 'o putc \<Rightarrow> 'o \<Rightarrow> 'o outcome" where
  "print_unsigned u base s putc out = obind (conv_number u None base s) (\<lambda>cs. emit putc cs out)"

definition print_signed :: "u32 \<Rightarrow> u32 \<Rightarrow> fmt_spec \<Rightarrow> 'o putc \<Rightarrow> 'o \<Rightarrow> 'o outcome" where
  "print_signed n base s putc out =
     obind (if 0 \<le> sint n then conv_number n (f_plus_sign s) base s
            else conv_number (- n) (Some (CHR ''-'')) base s) (\<lambda>cs. emit putc cs out)"

section \<open>Conversions\<close>

definition unsigned_base :: "char \<Rightarrow> u32 \<Rightarrow> u32 option" where
  "unsigned_base c radix =
     (if c = CHR ''o'' \<or> c = CHR ''O'' then Some 8
      else if c = CHR ''u'' \<or> c = CHR ''U'' then Some 10
      else if c = CHR ''x'' \<or> c = CHR ''X'' then Some 16
      else if c = CHR ''n'' \<or> c = CHR ''N'' then Some radix
      else None)"

definition signed_base :: "char \<Rightarrow> u32 \<Rightarrow> u32 option" where
  "signed_base c radix =
     (if c = CHR ''d'' \<or> c = CHR ''D'' then Some 10
      else if c = CHR ''z'' \<or> c = CHR ''Z'' then Some 16
      else if c = CHR ''r'' \<or> c = CHR ''R'' then Some radix
      else None)"

definition conversion :: "(u32 \<Rightarrow> string option) \<Rightarrow> u32 \<Rightarrow> char \<Rightarrow> fmt_spec \<Rightarrow> u32 list \<Rightarrow> 'o putc \<Rightarrow> 'o \<Rightarrow>
    (u32 list \<times> 'o) outcome" where
  "conversion strs radix c s args putc out =
     (if c = CHR ''b'' \<or> c = CHR ''B'' then
        obind (va_arg args) (\<lambda>(u, args1).
          obind (va_arg args1) (\<lambda>(p, args2).
            obind (print_bits strs u p putc out) (\<lambda>out'. Inr (args2, out'))))
      else if c = CHR ''c'' then
        obind (va_arg args) (\<lambda>(n, args1).
          obind (putc (char_of (unat n)) out) (\<lambda>out'. Inr (args1, out')))
      else if c = CHR ''s'' then
        obind (va_arg args) (\<lambda>(p, args1).
          obind (print_string strs p s putc out) (\<lambda>out'. Inr (args1, out')))
      else (case unsigned_base c radix of
              Some base \<Rightarrow>
                obind (va_arg args) (\<lambda>(u, args1).
                  obind (print_unsigned u base s putc out) (\<lambda>out'. Inr (args1, out')))
            | None \<Rightarrow>
                (case signed_base c radix of
                   Some base \<Rightarrow>
                     obind (va_arg args) (\<lambda>(n, args1).
                       obind (print_signed n base s putc out) (\<lambda>out'. Inr (args1, out')))
                 | None \<Rightarrow> obind (putc c out) (\<lambda>out'. Inr (args, out')))))"

lemma parse_flags_length: "length (fst (parse_flags fmt s)) \<le> length fmt"
  by (induction fmt s rule: parse_flags.induct) auto

lemma parse_zero_length: "length (fst (parse_zero fmt s)) \<le> length fmt"
  by (auto simp: parse_zero_def split: list.split)

lemma parse_digits_length: "length (fst (parse_digits fmt n)) \<le> length fmt"
  by (induction fmt n rule: parse_digits.induct) auto

lemma parse_width_length:
  assumes "parse_width fmt args s = Inr (fmt', args', s')"
  shows "length fmt' \<le> length fmt"
  using assms parse_digits_length [of fmt "f_length s"]
  by (auto simp: parse_width_def obind_Inr split: list.splits if_splits prod.splits)

lemma parse_prec_length:
  assumes "parse_prec fmt args s = Inr (fmt', args', s')"
  shows "length fmt' \<le> length fmt"
  using assms parse_digits_length [of "tl fmt" 0]
  by (auto simp: parse_prec_def obind_Inr split: list.splits if_splits prod.splits)

lemma parse_long_length: "length (parse_long fmt) \<le> length fmt"
  by (auto simp: parse_long_def split: list.split)

lemma parse_spec_length:
  assumes "parse_spec fmt args = Inr (fmt', args', s')"
  shows "length fmt' \<le> length fmt"
proof -
  obtain fmt1 s1 where 1: "parse_flags fmt fmt_spec0 = (fmt1, s1)" by fastforce
  obtain fmt2 s2 where 2: "parse_zero fmt1 s1 = (fmt2, s2)" by fastforce
  from assms 1 2 obtain fmt3 args3 s3 fmt4 args4 s4
    where 3: "parse_width fmt2 args s2 = Inr (fmt3, args3, s3)"
      and 4: "parse_prec fmt3 args3 s3 = Inr (fmt4, args4, s4)" and 5: "fmt' = parse_long fmt4"
    by (auto simp: parse_spec_def obind_Inr)
  from parse_flags_length [of fmt fmt_spec0] parse_zero_length [of fmt1 s1] parse_width_length [OF 3]
    parse_prec_length [OF 4] parse_long_length [of fmt4] show ?thesis by (simp add: 1 2 5)
qed

text \<open>A \<^verbatim>\<open>%\<close> at the end of the format ends the output.\<close>

function doprnt :: "(u32 \<Rightarrow> string option) \<Rightarrow> u32 \<Rightarrow> string \<Rightarrow> u32 list \<Rightarrow> 'o putc \<Rightarrow> 'o \<Rightarrow> 'o outcome" where
  "doprnt strs radix [] args putc out = Inr out"
| "doprnt strs radix (c # fmt) args putc out =
     (if c \<noteq> CHR ''%'' then obind (putc c out) (\<lambda>out'. doprnt strs radix fmt args putc out')
      else obind (parse_spec fmt args) (\<lambda>(fmt1, args1, s).
             case fmt1 of
               [] \<Rightarrow> Inr out
             | d # fmt2 \<Rightarrow>
                 obind (conversion strs radix d s args1 putc out) (\<lambda>(args2, out').
                   doprnt strs radix fmt2 args2 putc out')))"
  by pat_completeness auto
termination
  by (relation "measure (\<lambda>(strs, radix, fmt, args, putc, out). length fmt)")
     (auto dest: parse_spec_length)

section \<open>Output on the console\<close>

abbreviation PRINTF_BUFMAX :: nat where
  "PRINTF_BUFMAX \<equiv> 128"

text \<open>The buffered characters \<^verbatim>\<open>buf[0..index)\<close> and what has been written on the console.\<close>

record printf_state =
  pf_buf :: string
  pf_console :: string

abbreviation newline :: char where
  "newline \<equiv> CHR 0x0A"

definition flush :: "printf_state \<Rightarrow> printf_state" where
  "flush st = st\<lparr>pf_buf := [], pf_console := pf_console st @ pf_buf st\<rparr>"

text \<open>\<open>puts\<close> writes the characters before the terminator, which has just been stored behind the
  buffered ones, and a newline.\<close>

definition printf_char :: "printf_state putc" where
  "printf_char c st =
     (if c = newline then
        if PRINTF_BUFMAX \<le> length (pf_buf st) then Inl Out_Of_Bounds
        else Inr (st\<lparr>pf_buf := [],
                     pf_console := pf_console st @ takeWhile (\<lambda>d. d \<noteq> CHR 0x00) (pf_buf st) @ [newline]\<rparr>)
      else if c = CHR 0x00 \<or> PRINTF_BUFMAX \<le> length (pf_buf st) then
        (let st' = flush st in Inr (st'\<lparr>pf_console := pf_console st' @ [c]\<rparr>))
      else Inr (st\<lparr>pf_buf := pf_buf st @ [c]\<rparr>))"

definition vprintf :: "(u32 \<Rightarrow> string option) \<Rightarrow> string \<Rightarrow> u32 list \<Rightarrow> string \<Rightarrow> string outcome" where
  "vprintf strs fmt args console =
     obind (doprnt strs 0 fmt args printf_char \<lparr>pf_buf = [], pf_console = console\<rparr>) (\<lambda>st.
       Inr (pf_console (if pf_buf st \<noteq> [] then flush st else st)))"

text \<open>
  \<open>vprintf\<close> and \<open>vsprintf\<close> are declared with variable arguments of their own. The \<^verbatim>\<open>va_list\<close> that
  \<open>printf\<close> and \<open>sprintf\<close> pass is the address \<open>ap\<close> of their first variable argument; it is the first
  word the callee reads, and \<open>frame\<close> is what the stack holds behind it.
\<close>

definition printf :: "(u32 \<Rightarrow> string option) \<Rightarrow> u32 \<Rightarrow> u32 list \<Rightarrow> string \<Rightarrow> u32 list \<Rightarrow> string \<Rightarrow> string outcome" where
  "printf strs ap frame fmt args console = vprintf strs fmt (ap # frame) console"

section \<open>Output into a buffer\<close>

text \<open>The buffer has \<open>cap\<close> characters; the state is what has been written.\<close>

definition savechar :: "nat \<Rightarrow> string putc" where
  "savechar cap c s = (if length s < cap then Inr (s @ [c]) else Inl Out_Of_Bounds)"

definition vsprintf :: "(u32 \<Rightarrow> string option) \<Rightarrow> nat \<Rightarrow> string \<Rightarrow> u32 list \<Rightarrow> string outcome" where
  "vsprintf strs cap fmt args =
     obind (doprnt strs 0 fmt args (savechar cap) []) (\<lambda>s. savechar cap (CHR 0x00) s)"

definition sprintf :: "(u32 \<Rightarrow> string option) \<Rightarrow> u32 \<Rightarrow> u32 list \<Rightarrow> nat \<Rightarrow> string \<Rightarrow> u32 list \<Rightarrow> string outcome" where
  "sprintf strs ap frame cap fmt args = vsprintf strs cap fmt (ap # frame)"

end
