(* ===== verification/Doscan.thy ===== *)
theory Doscan
  imports Doprnt
begin

text \<open>
  The formatted input of the Mach C library: \<^verbatim>\<open>_doscan\<close> (\<^verbatim>\<open>src/mach/libmach/c/doscan.c\<close>) as
  \<^verbatim>\<open>sscanf.c\<close> calls it, and the number conversions \<^verbatim>\<open>strtoul.c\<close> and \<^verbatim>\<open>atol.c\<close>. The input is an array
  of characters with its terminator, read at an index; a read behind the array is an access out of
  bounds. The format is a C string, given without its terminator.
\<close>

section \<open>Reading from a string\<close>

definition readchar :: "string \<Rightarrow> nat \<Rightarrow> (char \<times> nat) outcome" where
  "readchar buf i = (if i < length buf then Inr (buf ! i, Suc i) else Inl Out_Of_Bounds)"

definition unchar :: "nat \<Rightarrow> nat" where
  "unchar i = i - 1"

lemma readchar_Inr: "readchar buf i = Inr (c, j) \<longleftrightarrow> i < length buf \<and> c = buf ! i \<and> j = Suc i"
  by (auto simp: readchar_def)

text \<open>\<^verbatim>\<open>while (isspace(c = getc()));\<close>\<close>

function space_loop :: "string \<Rightarrow> nat \<Rightarrow> nat outcome" where
  "space_loop buf i = obind (readchar buf i) (\<lambda>(c, i'). if isspace c then space_loop buf i' else Inr i')"
  by pat_completeness auto
termination
  by (relation "measure (\<lambda>(buf, i). length buf - i)") (auto simp: readchar_Inr)

text \<open>The loops over the digits of a number; \<open>c\<close> is the character read last.\<close>

definition dec_digit :: "char \<Rightarrow> u32 option" where
  "dec_digit c = (if isdigit c then Some (of_nat (of_char c - 48)) else None)"

definition hex_digit :: "char \<Rightarrow> u32 option" where
  "hex_digit c =
     (let n = of_char c :: nat in
      if 48 \<le> n \<and> n \<le> 57 then Some (of_nat (n - 48))
      else if 97 \<le> n \<and> n \<le> 102 then Some (of_nat (n - 97 + 10))
      else if 65 \<le> n \<and> n \<le> 70 then Some (of_nat (n - 65 + 10))
      else None)"

function number_loop :: "(char \<Rightarrow> u32 option) \<Rightarrow> u32 \<Rightarrow> string \<Rightarrow> char \<Rightarrow> nat \<Rightarrow> u32 \<Rightarrow> (u32 \<times> nat) outcome" where
  "number_loop digit base buf c i n =
     (case digit c of
        None \<Rightarrow> Inr (n, i)
      | Some d \<Rightarrow> obind (readchar buf i) (\<lambda>(c', i'). number_loop digit base buf c' i' (n * base + d)))"
  by pat_completeness auto
termination
  by (relation "measure (\<lambda>(digit, base, buf, c, i, n). length buf - i)") (auto simp: readchar_Inr)

declare space_loop.simps [simp del] number_loop.simps [simp del]

definition scan_number :: "(char \<Rightarrow> u32 option) \<Rightarrow> u32 \<Rightarrow> string \<Rightarrow> nat \<Rightarrow> (u32 \<times> nat) outcome" where
  "scan_number digit base buf i =
     obind (readchar buf i) (\<lambda>(c, i1).
       let neg = (c = CHR ''-'') in
       obind (if neg then readchar buf i1 else Inr (c, i1)) (\<lambda>(c2, i2).
         obind (number_loop digit base buf c2 i2 0) (\<lambda>(n, i3).
           Inr (if neg then - n else n, unchar i3))))"

function string_loop :: "string \<Rightarrow> char \<Rightarrow> nat \<Rightarrow> string \<Rightarrow> (string \<times> nat) outcome" where
  "string_loop buf c i cs =
     (if isspace c then Inr (cs, i)
      else obind (readchar buf i) (\<lambda>(c', i'). string_loop buf c' i' (cs @ [c])))"
  by pat_completeness auto
termination
  by (relation "measure (\<lambda>(buf, c, i, cs). length buf - i)") (auto simp: readchar_Inr)

declare string_loop.simps [simp del]

definition scan_string :: "string \<Rightarrow> nat \<Rightarrow> (string \<times> nat) outcome" where
  "scan_string buf i =
     obind (readchar buf i) (\<lambda>(c, i1).
       obind (string_loop buf c i1 []) (\<lambda>(cs, i2). Inr (cs, unchar i2)))"

section \<open>Conversions\<close>

text \<open>What is stored through the pointer arguments, in this order.\<close>

datatype scan_value = Scan_Int u32 | Scan_Str string

type_synonym scan_stores = "(u32 \<times> scan_value) list"

definition scan_store :: "bool \<Rightarrow> scan_value \<Rightarrow> u32 list \<Rightarrow> scan_stores \<Rightarrow> (u32 list \<times> scan_stores) outcome" where
  "scan_store discard v vp st =
     (if discard then Inr (vp, st)
      else obind (va_arg vp) (\<lambda>(p, vp'). if p = 0 then Inl Null_Deref else Inr (vp', st @ [(p, v)])))"

fun more_fmt :: "string \<Rightarrow> bool \<Rightarrow> string \<times> bool" where
  "more_fmt [] discard = ([], discard)"
| "more_fmt (c # fmt) discard = (if c = CHR ''*'' then more_fmt fmt True else (c # fmt, discard))"

definition scan_conversion :: "char \<Rightarrow> bool \<Rightarrow> u32 list \<Rightarrow> string \<Rightarrow> nat \<Rightarrow> scan_stores \<Rightarrow>
    (u32 list \<times> nat \<times> scan_stores) outcome" where
  "scan_conversion c discard vp buf i st =
     (if c = CHR ''d'' then
        obind (scan_number dec_digit 10 buf i) (\<lambda>(n, i').
          obind (scan_store discard (Scan_Int n) vp st) (\<lambda>(vp', st'). Inr (vp', i', st')))
      else if c = CHR ''x'' then
        obind (scan_number hex_digit 16 buf i) (\<lambda>(n, i').
          obind (scan_store discard (Scan_Int n) vp st) (\<lambda>(vp', st'). Inr (vp', i', st')))
      else if c = CHR ''s'' then
        obind (scan_string buf i) (\<lambda>(cs, i').
          obind (scan_store discard (Scan_Str cs) vp st) (\<lambda>(vp', st'). Inr (vp', i', st')))
      else Inr (vp, i, st))"

lemma more_fmt_length: "length (fst (more_fmt fmt d)) \<le> length fmt"
  by (induction fmt d rule: more_fmt.induct) auto

text \<open>The result is the number of conversions and what they stored. A format that ends inside a
  conversion is read behind its terminator.\<close>

function doscan :: "string \<Rightarrow> u32 list \<Rightarrow> string \<Rightarrow> nat \<Rightarrow> nat \<Rightarrow> scan_stores \<Rightarrow> (nat \<times> scan_stores) outcome" where
  "doscan [] vp buf i vals st = Inr (vals, st)"
| "doscan (c # fmt) vp buf i vals st =
     (if c \<noteq> CHR ''%'' then
        if isspace c then obind (space_loop buf i) (\<lambda>i'. doscan fmt vp buf (unchar i') vals st)
        else obind (readchar buf i) (\<lambda>(d, i'). if c = d then doscan fmt vp buf i' vals st else Inr (vals, st))
      else (case more_fmt fmt False of
              ([], discard) \<Rightarrow> Inl Out_Of_Bounds
            | (d # fmt', discard) \<Rightarrow>
                obind (scan_conversion d discard vp buf i st) (\<lambda>(vp', i', st').
                  doscan fmt' vp' buf i' (if discard then vals else Suc vals) st')))"
  by pat_completeness auto
termination
proof (relation "measure (\<lambda>(fmt, vp, buf, i, vals, st). length fmt)", goal_cases)
  case (4 c fmt vp buf i vals st r discard d fmt' x vp' y i' st')
  then show ?case using more_fmt_length [of fmt False] by (cases "more_fmt fmt False") auto
qed auto

definition sscanf :: "string \<Rightarrow> string \<Rightarrow> u32 list \<Rightarrow> scan_stores outcome" where
  "sscanf buf fmt vp = obind (doscan fmt vp buf 0 0 []) (\<lambda>(vals, st). Inr st)"

section \<open>Numbers of the C library\<close>

text \<open>The digits that \<open>strtoul\<close> accepts, and its loop; the rest of the string is where it stops.\<close>

definition strtoul_digit :: "char \<Rightarrow> nat \<Rightarrow> nat option" where
  "strtoul_digit c base =
     (let n = of_char c :: nat in
      if 48 \<le> n \<and> n \<le> 57 \<and> n - 48 < base then Some (n - 48)
      else if 97 \<le> n \<and> n \<le> 122 \<and> n - 97 + 10 < base then Some (n - 97 + 10)
      else if 65 \<le> n \<and> n \<le> 90 \<and> n - 65 + 10 < base then Some (n - 65 + 10)
      else None)"

fun strtoul_loop :: "string \<Rightarrow> nat \<Rightarrow> u32 \<Rightarrow> u32 \<times> string" where
  "strtoul_loop [] base v = (v, [])"
| "strtoul_loop (c # p) base v =
     (case strtoul_digit c base of
        None \<Rightarrow> (v, c # p)
      | Some d \<Rightarrow> strtoul_loop p base (v * of_nat base + of_nat d))"

definition strtoul :: "string \<Rightarrow> nat \<Rightarrow> u32 \<times> string" where
  "strtoul p base = strtoul_loop (dropWhile isspace p) base 0"

fun atol_loop :: "string \<Rightarrow> u32 \<Rightarrow> u32" where
  "atol_loop [] n = n"
| "atol_loop (c # str) n = (if isdigit c then atol_loop str (n * 10 + of_nat (of_char c) - 48) else n)"

definition atol :: "string \<Rightarrow> u32" where
  "atol str = atol_loop str 0"

end
