(* ===== verification/DoprntOk.thy ===== *)
theory DoprntOk
  imports Doscan
begin

text \<open>
  What the formatted output prints: the digits of a number and their value, the layout of a number
  in its field, the independence of the text from the character output, and that the input
  functions read back what the output functions have printed.
\<close>

section \<open>Digits\<close>

function nat_digits :: "nat \<Rightarrow> nat \<Rightarrow> nat list" where
  "nat_digits b n = (if b < 2 \<or> n < b then [n] else nat_digits b (n div b) @ [n mod b])"
  by pat_completeness auto
termination
  by (relation "measure snd") auto

declare nat_digits.simps [simp del]

definition number_text :: "nat \<Rightarrow> nat \<Rightarrow> string" where
  "number_text b n = map ((!) digs) (nat_digits b n)"

lemma nat_digits_single: "n < b \<Longrightarrow> nat_digits b n = [n]"
  by (subst nat_digits.simps) simp

lemma nat_digits_snoc: "2 \<le> b \<Longrightarrow> b \<le> n \<Longrightarrow> nat_digits b n = nat_digits b (n div b) @ [n mod b]"
  by (subst nat_digits.simps) simp

lemma nat_digits_less: "2 \<le> b \<Longrightarrow> d \<in> set (nat_digits b n) \<Longrightarrow> d < b"
proof (induction b n rule: nat_digits.induct)
  case (1 b n)
  then show ?case by (cases "n < b") (auto simp: nat_digits_single nat_digits_snoc)
qed

lemma nat_digits_value: "2 \<le> b \<Longrightarrow> foldl (\<lambda>a d. a * b + d) 0 (nat_digits b n) = n"
proof (induction b n rule: nat_digits.induct)
  case (1 b n)
  then show ?case by (cases "n < b") (simp_all add: nat_digits_single nat_digits_snoc)
qed

lemma nat_digits_not_Nil [simp]: "nat_digits b n \<noteq> []"
  by (subst nat_digits.simps) simp

lemma nat_digits_length: "2 \<le> b \<Longrightarrow> n < b ^ k \<Longrightarrow> 0 < k \<Longrightarrow> length (nat_digits b n) \<le> k"
proof (induction b n arbitrary: k rule: nat_digits.induct)
  case (1 b n)
  show ?case
  proof (cases "n < b")
    case True
    then show ?thesis using 1 by (simp add: nat_digits_single)
  next
    case False
    obtain m where k: "k = Suc m" using 1(4) by (cases k) auto
    with False 1(3) have "0 < m" by (cases m) simp_all
    moreover have "n div b < b ^ m" using 1(3) k by (simp add: less_mult_imp_div_less mult.commute)
    ultimately show ?thesis using 1(1,2) False k by (simp add: nat_digits_snoc)
  qed
qed

lemma nat_digits_hd: "2 \<le> b \<Longrightarrow> 0 < n \<Longrightarrow> hd (nat_digits b n) \<noteq> 0"
proof (induction b n rule: nat_digits.induct)
  case (1 b n)
  show ?case
  proof (cases "n < b")
    case True
    then show ?thesis using 1 by (simp add: nat_digits_single)
  next
    case False
    then have "0 < n div b" using 1 by (simp add: div_greater_zero_iff)
    then show ?thesis using 1 False by (simp add: nat_digits_snoc)
  qed
qed

lemma number_text_length [simp]: "length (number_text b n) = length (nat_digits b n)"
  by (simp add: number_text_def)

lemma digit_loop_text:
  assumes "2 \<le> unat base" "unat base \<le> 16" "unat u < unat base ^ p" "0 < p"
  shows "digit_loop u base p ds = Inr (number_text (unat base) (unat u) @ ds)"
  using assms
proof (induction p arbitrary: u ds)
  case 0
  then show ?case by simp
next
  case (Suc p)
  let ?b = "unat base"
  have base: "base \<noteq> 0" using Suc.prems(1) by auto
  have m: "unat (u mod base) = unat u mod ?b" "unat (u div base) = unat u div ?b"
    by (simp_all add: unat_mod unat_div)
  have lt: "unat u mod ?b < ?b" using Suc.prems(1) by simp
  then have ix: "\<not> length digs \<le> unat (u mod base)" using Suc.prems(2) by (simp add: m digs_def)
  show ?case
  proof (cases "unat u < ?b")
    case True
    then have "u div base = 0" by (simp add: word_unat_eq_iff m)
    with True show ?thesis
      using base ix by (subst digit_loop.simps) (simp add: m number_text_def nat_digits_single)
  next
    case False
    then have nz: "0 < unat u div ?b" using Suc.prems(1) by (simp add: div_greater_zero_iff)
    then have "u div base \<noteq> 0" by (auto simp: word_unat_eq_iff m)
    moreover have "unat (u div base) < ?b ^ p"
      using Suc.prems(3) by (simp add: m less_mult_imp_div_less mult.commute)
    moreover from this nz have "0 < p" by (cases p) (simp_all add: m)
    ultimately show ?thesis
      using base ix False Suc.IH [of "u div base"] Suc.prems(1,2)
      by (subst digit_loop.simps) (simp add: m number_text_def nat_digits_snoc)
  qed
qed

lemma digit_loop_32:
  assumes "2 \<le> unat base" "unat base \<le> 16"
  shows "digit_loop u base MAXBUF [] = Inr (number_text (unat base) (unat u))"
proof -
  have "unat u < 2 ^ 32" using unat_less_32 [of u] by simp
  also have "(2::nat) ^ 32 \<le> unat base ^ 32" using assms(1) by (rule power_mono) simp
  finally show ?thesis using digit_loop_text [OF assms, of u 32 "[]"] by simp
qed

section \<open>The layout of a number\<close>

lemma pad_loop_eq:
  "pad_loop c n = (if 0 < unat n \<and> unat n \<le> 2147483648 then (replicate (unat n) c, - 1) else ([], n - 1))"
proof (induction c n rule: pad_loop.induct)
  case (1 c n)
  show ?case
  proof (cases "0 \<le> sint (n - 1)")
    case True
    then have n: "unat n = Suc (unat (n - 1))" "unat (n - 1) < 2147483648"
      by (simp_all add: unat_dec_word sint_u32_nonneg)
    show ?thesis
    proof (cases "unat (n - 1) = 0")
      case True
      then have "n - 1 = 0" by (simp add: unat_eq_zero)
      with n 1 \<open>0 \<le> sint (n - 1)\<close> show ?thesis by (subst pad_loop.simps) simp
    next
      case False
      with n 1 \<open>0 \<le> sint (n - 1)\<close> show ?thesis by (subst pad_loop.simps) simp
    qed
  next
    case False
    have "\<not> (0 < unat n \<and> unat n \<le> 2147483648)"
    proof
      assume a: "0 < unat n \<and> unat n \<le> 2147483648"
      then have "n \<noteq> 0" by auto
      then have "unat (n - 1) = unat n - 1" by (simp add: unat_minus_one)
      with a have "unat (n - 1) < 2147483648" by linarith
      with False show False by (simp add: sint_u32_nonneg)
    qed
    with False show ?thesis by (subst pad_loop.simps) simp
  qed
qed

text \<open>The number of characters a field is filled up with.\<close>

lemma pad_loop_fill:
  assumes "unat len < 2147483648" "k \<le> 64"
  shows "fst (pad_loop c (len - of_nat k)) = replicate (unat len - k) c"
    and "snd (pad_loop c (len - of_nat k)) = - 1 \<or> \<not> k < unat len \<and> snd (pad_loop c (len - of_nat k)) = len - of_nat k - 1"
proof -
  have k: "unat (of_nat k :: u32) = k" using assms(2) by (simp add: unat_of_nat)
  have "fst (pad_loop c (len - of_nat k)) = replicate (unat len - k) c \<and>
      (snd (pad_loop c (len - of_nat k)) = - 1 \<or>
       \<not> k < unat len \<and> snd (pad_loop c (len - of_nat k)) = len - of_nat k - 1)"
  proof (cases "k < unat len")
    case True
    then have "unat (len - of_nat k) = unat len - k"
      using k by (simp add: unat_sub word_le_nat_alt)
    moreover have "unat len - k \<le> 2147483648" using assms(1) by linarith
    ultimately show ?thesis using True by (simp add: pad_loop_eq)
  next
    case False
    show ?thesis
    proof (cases "k = unat len")
      case True
      then show ?thesis by (simp add: pad_loop_eq)
    next
      case False
      with \<open>\<not> k < unat len\<close> have lt: "unat len < k" by simp
      have "unat (len - of_nat k) = 4294967296 + unat len - k"
        using lt k assms by (simp add: unat_sub_if_size word_size)
      moreover have "\<not> 4294967296 + unat len - k \<le> 2147483648" using assms by linarith
      ultimately show ?thesis using lt by (simp add: pad_loop_eq)
    qed
  qed
  then show "fst (pad_loop c (len - of_nat k)) = replicate (unat len - k) c"
    and "snd (pad_loop c (len - of_nat k)) = - 1 \<or> \<not> k < unat len \<and> snd (pad_loop c (len - of_nat k)) = len - of_nat k - 1"
    by simp_all
qed

lemma pad_loop_minus_1: "fst (pad_loop d (- 1)) = []"
  by (subst pad_loop.simps) (simp add: sint_u32)

lemma pad_loop_again:
  assumes "unat len < 2147483648" "k \<le> 64"
  shows "fst (pad_loop d (snd (pad_loop c (len - of_nat k)))) = []"
  using pad_loop_fill(2) [OF assms]
proof
  assume "snd (pad_loop c (len - of_nat k)) = - 1"
  then show ?thesis by (simp only: pad_loop_minus_1)
next
  assume a: "\<not> k < unat len \<and> snd (pad_loop c (len - of_nat k)) = len - of_nat k - 1"
  have s: "len - of_nat k - 1 = len - of_nat (Suc k)" by simp
  have "Suc k \<le> 65" "unat len < Suc k" using a assms(2) by simp_all
  have k: "unat (of_nat (Suc k) :: u32) = Suc k" using assms(2) by (simp only: unat_of_nat) simp
  have "unat (len - of_nat (Suc k)) = 4294967296 + unat len - Suc k"
    using \<open>unat len < Suc k\<close> k by (simp add: unat_sub_if_size word_size del: of_nat_Suc)
  then have "\<not> unat (len - of_nat (Suc k)) \<le> 2147483648" using assms by linarith
  then have "fst (pad_loop d (len - of_nat (Suc k))) = []" by (simp add: pad_loop_eq del: of_nat_Suc)
  with a show ?thesis by (simp only: s)
qed

text \<open>The reference: sign and prefix, the digits, and the rest of the field.\<close>

definition number_field :: "string \<Rightarrow> string \<Rightarrow> fmt_spec \<Rightarrow> string" where
  "number_field front ds s =
     (let fill = unat (f_length s) - (length front + length ds) in
      if f_padc s = CHR ''0'' then front @ replicate fill (CHR ''0'') @ ds
      else if f_ladjust s then front @ ds @ replicate fill (CHR '' '')
      else replicate fill (CHR '' '') @ front @ ds)"

lemma conv_number_field:
  assumes "2 \<le> unat base" "unat base \<le> 16" "unat (f_length s) < 2147483648"
    and "f_padc s = CHR '' '' \<or> f_padc s = CHR ''0''"
  shows "conv_number u sg base s =
    Inr (number_field (sign_text sg @ number_prefix u base s) (number_text (unat base) (unat u)) s)"
proof -
  let ?ds = "number_text (unat base) (unat u)"
  let ?front = "sign_text sg @ number_prefix u base s"
  define k where "k = length ?front + length ?ds"
  have "unat u < 2 ^ 32" using unat_less_32 [of u] by simp
  also have "(2::nat) ^ 32 \<le> unat base ^ 32" using assms(1) by (rule power_mono) simp
  finally have "length ?ds \<le> 32" using nat_digits_length [OF assms(1), of "unat u" 32] by simp
  moreover have "length ?front \<le> 3"
    by (simp add: sign_text_def number_prefix_def split: option.split)
  ultimately have k: "k \<le> 64" by (simp add: k_def)
  have len: "f_length s - of_nat (length ?ds) - of_nat (length (sign_text sg)) -
      of_nat (length (number_prefix u base s)) = f_length s - of_nat k"
    by (simp add: k_def)
  note pads = pad_loop_fill(1) [OF assms(3) k] pad_loop_again [OF assms(3) k]
  have ref: "number_field ?front ?ds s =
      (let fill = unat (f_length s) - k in
       if f_padc s = CHR ''0'' then ?front @ replicate fill (CHR ''0'') @ ?ds
       else if f_ladjust s then ?front @ ?ds @ replicate fill (CHR '' '')
       else replicate fill (CHR '' '') @ ?front @ ?ds)"
    by (simp only: number_field_def k_def)
  show ?thesis
    using assms(4)
    by (auto simp: conv_number_def digit_loop_32 [OF assms(1,2)] Let_def len ref split_beta pads
        simp del: number_text_length)
qed

section \<open>Digit characters\<close>

lemma digs_codes:
  "map of_char digs = [48, 49, 50, 51, 52, 53, 54, 55, 56, 57, 97, 98, 99, 100, 101, 102, 0 :: nat]"
  by (simp add: digs_def)

lemma digs_length: "length digs = 17"
  by (simp add: digs_def)

lemma digs_dec: "d < 10 \<Longrightarrow> of_char (digs ! d) = (48 + d :: nat)"
proof -
  assume d: "d < 10"
  have "\<forall>k \<in> set [0..<10]. map of_char digs ! k = (48 + k :: nat)" unfolding digs_codes by code_simp
  with d show ?thesis by (simp add: digs_length)
qed

lemma digs_hex: "10 \<le> d \<Longrightarrow> d < 16 \<Longrightarrow> of_char (digs ! d) = (87 + d :: nat)"
proof -
  assume d: "10 \<le> d" "d < 16"
  have all: "\<forall>k \<in> set [10..<16]. map of_char digs ! k = (87 + k :: nat)" unfolding digs_codes by code_simp
  have "d \<in> set [10..<16]" using d by (simp only: set_upt atLeastLessThan_iff simp_thms)
  from bspec [OF all this] d show ?thesis by (simp add: digs_length)
qed

lemma digs_isdigit: "d < 10 \<Longrightarrow> isdigit (digs ! d)"
  by (simp add: isdigit_def digs_dec)

lemma dec_digit_digs: "d < 10 \<Longrightarrow> dec_digit (digs ! d) = Some (of_nat d)"
  by (simp add: dec_digit_def digs_isdigit digs_dec)

lemma hex_digit_digs: "d < 16 \<Longrightarrow> hex_digit (digs ! d) = Some (of_nat d)"
  by (cases "d < 10") (simp_all add: hex_digit_def digs_dec digs_hex)

lemma strtoul_digit_digs: "d < base \<Longrightarrow> base \<le> 16 \<Longrightarrow> strtoul_digit (digs ! d) base = Some d"
  by (cases "d < 10") (simp_all add: strtoul_digit_def digs_dec digs_hex)

lemma digs_isspace: "d < 16 \<Longrightarrow> \<not> isspace (digs ! d)"
proof
  assume d: "d < 16" and "isspace (digs ! d)"
  then have "of_char (digs ! d) \<in> {32, 9, 10, 11, 12, 13 :: nat}" by (auto simp: isspace_def)
  with d show False by (cases "d < 10") (simp_all add: digs_dec digs_hex)
qed

lemma foldl_of_nat:
  "foldl (\<lambda>a d. a * of_nat b + of_nat d) (of_nat n) ds = (of_nat (foldl (\<lambda>a d. a * b + d) n ds) :: u32)"
  by (induction ds arbitrary: n) (simp_all flip: of_nat_mult of_nat_add)

lemma nat_digits_word:
  "2 \<le> b \<Longrightarrow> foldl (\<lambda>a d. a * of_nat b + of_nat d) 0 (nat_digits b n) = (of_nat n :: u32)"
  using foldl_of_nat [of b 0 "nat_digits b n"] by (simp add: nat_digits_value)

section \<open>Reading a format\<close>

lemma parse_digits_text:
  assumes "\<forall>d \<in> set ds. d < 10" "rest = [] \<or> \<not> isdigit (hd rest)"
  shows "parse_digits (map ((!) digs) ds @ rest) n = (rest, foldl (\<lambda>a d. a * 10 + of_nat d) n ds)"
  using assms
proof (induction ds arbitrary: n)
  case Nil
  then show ?case by (cases rest) simp_all
next
  case (Cons d ds)
  then show ?case by (simp add: digs_isdigit digs_dec mult.commute)
qed

lemma parse_digits_number:
  assumes "rest = [] \<or> \<not> isdigit (hd rest)"
  shows "parse_digits (number_text 10 w @ rest) 0 = (rest, of_nat w)"
  using parse_digits_text [OF _ assms, of "nat_digits 10 w" 0] nat_digits_word [of 10 w]
  by (simp add: number_text_def nat_digits_less)

definition flag_chars :: "char set" where
  "flag_chars = {CHR ''#'', CHR ''-'', CHR ''+'', CHR '' ''}"

definition flag_spec :: "string \<Rightarrow> fmt_spec \<Rightarrow> fmt_spec" where
  "flag_spec fl s =
     s\<lparr>f_ladjust := f_ladjust s \<or> CHR ''-'' \<in> set fl,
       f_plus_sign := (if CHR ''+'' \<in> set fl then Some (CHR ''+'')
                       else if f_plus_sign s = None \<and> CHR '' '' \<in> set fl then Some (CHR '' '')
                       else f_plus_sign s),
       f_altfmt := f_altfmt s \<or> CHR ''#'' \<in> set fl\<rparr>"

lemma parse_flags_text:
  "set fl \<subseteq> flag_chars \<Longrightarrow> c \<notin> flag_chars \<Longrightarrow> parse_flags (fl @ c # rest) s = (c # rest, flag_spec fl s)"
proof (induction fl arbitrary: s)
  case Nil
  then show ?case by (simp add: flag_chars_def flag_spec_def)
next
  case (Cons f fl)
  then have "f \<in> flag_chars" by simp
  with Cons show ?case by (auto simp: flag_chars_def flag_spec_def)
qed

text \<open>A format that asks for a number in a field of width \<open>w\<close>.\<close>

definition number_format :: "string \<Rightarrow> bool \<Rightarrow> nat \<Rightarrow> string" where
  "number_format fl zero w = fl @ (if zero then ''0'' else []) @ (if w = 0 then [] else number_text 10 w)"

definition number_spec :: "string \<Rightarrow> bool \<Rightarrow> nat \<Rightarrow> fmt_spec" where
  "number_spec fl zero w =
     (flag_spec fl fmt_spec0)\<lparr>f_length := of_nat w, f_padc := (if zero then CHR ''0'' else CHR '' '')\<rparr>"

definition field_free :: "char \<Rightarrow> bool" where
  "field_free c \<longleftrightarrow> c \<notin> flag_chars \<and> \<not> isdigit c \<and> c \<noteq> CHR ''0'' \<and> c \<noteq> CHR ''*'' \<and> c \<noteq> CHR ''.'' \<and> c \<noteq> CHR ''l''"

lemma parse_rest:
  assumes "field_free c" "f_length s = 0" "f_prec s = - 1"
  shows "parse_width ((if w = 0 then [] else number_text 10 w) @ c # fmt) args s =
     Inr (c # fmt, args, s\<lparr>f_length := of_nat w\<rparr>)"
proof (cases "w = 0")
  case True
  then show ?thesis using assms by (simp add: parse_width_def field_free_def)
next
  case False
  obtain d ds where ds: "nat_digits 10 w = d # ds" by (cases "nat_digits 10 w") simp_all
  then have d: "d < 10" using nat_digits_less [of 10 d w] by simp
  have p: "parse_digits (number_text 10 w @ c # fmt) 0 = (c # fmt, of_nat w)"
    using parse_digits_number [of "c # fmt" w] assms(1) by (simp add: field_free_def)
  have "number_text 10 w @ c # fmt = digs ! d # map ((!) digs) ds @ c # fmt" by (simp add: number_text_def ds)
  then show ?thesis using False p d assms(2) by (simp add: parse_width_def digs_isdigit)
qed

lemma parse_zero_text:
  assumes "field_free c"
  shows "parse_zero ((if zero then ''0'' else []) @ (if w = 0 then [] else number_text 10 w) @ c # fmt) s =
    ((if w = 0 then [] else number_text 10 w) @ c # fmt, if zero then s\<lparr>f_padc := CHR ''0''\<rparr> else s)"
proof (cases "w = 0")
  case True
  then show ?thesis using assms by (simp add: parse_zero_def field_free_def)
next
  case False
  obtain d ds where ds: "nat_digits 10 w = d # ds" by (cases "nat_digits 10 w") simp_all
  then have d: "d < 10" "d \<noteq> 0"
    using nat_digits_less [of 10 d w] nat_digits_hd [of 10 w] False by simp_all
  then have "(of_char (digs ! d) :: nat) \<noteq> of_char (CHR ''0'')" by (simp add: digs_dec)
  then have "digs ! d \<noteq> CHR ''0''" by metis
  then show ?thesis using False by (simp add: parse_zero_def number_text_def ds)
qed

lemma parse_spec_number:
  assumes "set fl \<subseteq> flag_chars" "field_free c"
  shows "parse_spec (number_format fl zero w @ c # fmt) args = Inr (c # fmt, args, number_spec fl zero w)"
proof -
  let ?t = "(if zero then ''0'' else []) @ (if w = 0 then [] else number_text 10 w) @ c # fmt"
  have "hd ?t \<notin> flag_chars"
  proof -
    have "digs ! d \<notin> flag_chars" if "d < 10" for d
      using that digs_isdigit [of d] by (auto simp: flag_chars_def isdigit_def)
    moreover have "hd (number_text 10 w @ c # fmt) = digs ! hd (nat_digits 10 w)"
      by (simp add: number_text_def hd_map)
    moreover have "hd (nat_digits 10 w) < 10" using nat_digits_less [of 10 "hd (nat_digits 10 w)" w] by simp
    ultimately show ?thesis using assms(2) by (auto simp: field_free_def flag_chars_def)
  qed
  moreover have "?t = hd ?t # tl ?t" by (simp add: number_text_def)
  ultimately have "parse_flags (fl @ ?t) fmt_spec0 = (?t, flag_spec fl fmt_spec0)"
    using parse_flags_text [OF assms(1), of "hd ?t" "tl ?t"] by simp
  then show ?thesis
    using parse_zero_text [OF assms(2)] parse_rest [OF assms(2)] assms(2)
    by (simp add: parse_spec_def number_format_def number_spec_def parse_prec_def parse_long_def field_free_def
        flag_spec_def fmt_spec0_def split: list.split)
qed

section \<open>Number conversions\<close>

lemma conversion_char:
  assumes "c \<in> set ''oOuUxXnNdDzZrR''"
  shows "field_free c" "c \<notin> {CHR ''b'', CHR ''B'', CHR ''c'', CHR ''s''}"
proof -
  have "\<forall>k \<in> set ''oOuUxXnNdDzZrR''. field_free k \<and> k \<notin> {CHR ''b'', CHR ''B'', CHR ''c'', CHR ''s''}"
    by (simp add: field_free_def flag_chars_def isdigit_def)
  from bspec [OF this assms]
  show "field_free c" "c \<notin> {CHR ''b'', CHR ''B'', CHR ''c'', CHR ''s''}" by simp_all
qed

lemma unsigned_base_char: "unsigned_base c radix = Some base \<Longrightarrow> c \<in> set ''oOuUxXnNdDzZrR''"
  by (rule ccontr) (simp add: unsigned_base_def)

lemma signed_base_char: "signed_base c radix = Some base \<Longrightarrow> c \<in> set ''dDzZrR''"
  by (rule ccontr) (simp add: signed_base_def)

lemma signed_base_unsigned: "signed_base c radix = Some base \<Longrightarrow> unsigned_base c radix = None"
proof -
  assume a: "signed_base c radix = Some base"
  have "\<forall>k \<in> set ''dDzZrR''. unsigned_base k radix = None" by (simp add: unsigned_base_def)
  from bspec [OF this signed_base_char [OF a]] show ?thesis .
qed

text \<open>The sign and the magnitude of a number as a conversion reads it.\<close>

definition printed_sign :: "bool \<Rightarrow> u32 \<Rightarrow> fmt_spec \<Rightarrow> char option" where
  "printed_sign is_signed n s =
     (if is_signed then if sint n < 0 then Some (CHR ''-'') else f_plus_sign s else None)"

definition magnitude :: "bool \<Rightarrow> u32 \<Rightarrow> nat" where
  "magnitude is_signed n = (if is_signed then nat \<bar>sint n\<bar> else unat n)"

lemma magnitude_word: "magnitude True n = unat (if 0 \<le> sint n then n else - n)"
proof (cases "0 \<le> sint n")
  case True
  then have "sint n = int (unat n)" by (simp only: sint_u32_nonneg) (simp add: sint_u32)
  then show ?thesis by (simp add: magnitude_def)
next
  case False
  then show ?thesis by (simp add: magnitude_def unat_uminus_u32)
qed

lemma number_spec_fields:
  "w < 2147483648 \<Longrightarrow> unat (f_length (number_spec fl zero w)) = w"
  "f_padc (number_spec fl zero w) = CHR '' '' \<or> f_padc (number_spec fl zero w) = CHR ''0''"
  by (simp_all add: number_spec_def unat_of_nat)

lemma doprnt_number:
  assumes "set fl \<subseteq> flag_chars" "w < 2147483648"
    and "(if is_signed then signed_base c radix else unsigned_base c radix) = Some base"
    and "2 \<le> unat base" "unat base \<le> 16"
  shows "doprnt strs radix (CHR ''%'' # number_format fl zero w @ c # fmt) (n # args) putc out =
    (let s = number_spec fl zero w; m = magnitude is_signed n in
     obind (emit putc (number_field (sign_text (printed_sign is_signed n s) @ number_prefix (of_nat m) base s)
                         (number_text (unat base) m) s) out)
       (doprnt strs radix fmt args putc))"
proof -
  let ?s = "number_spec fl zero w"
  have s: "unat (f_length ?s) < 2147483648" using assms(2) by (simp add: number_spec_fields(1))
  note field = conv_number_field [OF assms(4,5) s number_spec_fields(2)]
  show ?thesis
  proof (cases is_signed)
    case True
    with assms(3) have b: "signed_base c radix = Some base" by simp
    have "c \<in> set ''oOuUxXnNdDzZrR''" using signed_base_char [OF b] by auto
    note cs = conversion_char [OF this] signed_base_unsigned [OF b]
    show ?thesis
      using cs(2) True
      by (simp add: parse_spec_number [OF assms(1) cs(1)] conversion_def cs(3) b va_arg_def print_signed_def field
          printed_sign_def magnitude_word Let_def obind_assoc)
  next
    case False
    with assms(3) have b: "unsigned_base c radix = Some base" by simp
    note cs = conversion_char [OF unsigned_base_char [OF b]]
    show ?thesis
      using cs(2) False
      by (simp add: parse_spec_number [OF assms(1) cs(1)] conversion_def b va_arg_def print_unsigned_def field
          printed_sign_def magnitude_def Let_def obind_assoc)
  qed
qed

lemma number_field_length:
  "length (number_field front ds s) = max (unat (f_length s)) (length front + length ds)"
  by (simp add: number_field_def Let_def max_def)

lemma strtoul_loop_digits:
  assumes "\<forall>d \<in> set ds. d < base" "base \<le> 16" "rest = [] \<or> strtoul_digit (hd rest) base = None"
  shows "strtoul_loop (map ((!) digs) ds @ rest) base v =
    (foldl (\<lambda>a d. a * of_nat base + of_nat d) v ds, rest)"
  using assms
proof (induction ds arbitrary: v)
  case Nil
  then show ?case by (cases rest) simp_all
next
  case (Cons d ds)
  then show ?case by (simp add: strtoul_digit_digs)
qed

lemma strtoul_number_text:
  assumes "2 \<le> base" "base \<le> 16" "rest = [] \<or> strtoul_digit (hd rest) base = None"
  shows "strtoul (number_text base n @ rest) base = (of_nat n, rest)"
proof -
  obtain d ds where ds: "nat_digits base n = d # ds" by (cases "nat_digits base n") simp_all
  then have "d < 16" using nat_digits_less [of base d n] assms(1,2) by simp
  then have "dropWhile isspace (number_text base n @ rest) = number_text base n @ rest"
    by (simp add: number_text_def ds digs_isspace)
  then show ?thesis
    using strtoul_loop_digits [of "nat_digits base n" base rest 0] nat_digits_less [OF assms(1)] assms
    by (simp add: strtoul_def number_text_def nat_digits_word)
qed



end
