(* ===== verification/PrintfOk.thy ===== *)
theory PrintfOk
  imports DoprntOk
begin

text \<open>
  The clients of the formatted output. The text of \<open>doprnt\<close> does not depend on the character output, so
  that the console gets exactly the text that a buffer would; what is printed as numbers is read
  back by \<open>sscanf\<close>. The last section shows four defects of the sources.
\<close>

section \<open>The text that is printed\<close>

definition put_text :: "string putc" where
  "put_text c s = Inr (s @ [c])"

lemma put_text_apply: "put_text c s = Inr (s @ [c])"
  by (simp add: put_text_def)

lemma emit_append: "emit putc (a @ b) out = obind (emit putc a out) (emit putc b)"
proof (induction a arbitrary: out)
  case Nil
  then show ?case by simp
next
  case (Cons c a)
  then show ?case by (cases "putc c out") simp_all
qed

lemma emit_append_fun: "emit putc (a @ b) = (\<lambda>out. obind (emit putc a out) (emit putc b))"
  by (rule ext) (rule emit_append)

lemma emit_Cons_fun: "emit putc (c # cs) = (\<lambda>out. obind (putc c out) (emit putc cs))"
  by (rule ext) simp

lemma emit_put_text [simp]: "emit put_text t s = Inr (s @ t)"
  by (induction t arbitrary: s) (simp_all add: put_text_def)

lemma obind_emit_Nil [simp]: "obind m (emit putc []) = m"
  by (cases m) simp_all

text \<open>A run that prints one number, and then goes on.\<close>

lemma printnum_emit:
  assumes "printnum u base put_text s = Inr s'"
  shows "\<exists>t. s' = s @ t \<and> printnum u base putc = emit putc t"
  using assms by (auto simp: printnum_def obind_Inr fun_eq_iff)

lemma bits_loop_emit:
  assumes "bits_loop u base p any put_text s = Inr s'"
  shows "\<exists>t. s' = s @ t \<and> bits_loop u base p any putc = emit putc t"
  using assms
proof (induction "length p" arbitrary: p any s rule: less_induct)
  case less
  let ?pr = "\<lambda>c. 32 < schar c"
  show ?case
  proof (cases p)
    case Nil
    then show ?thesis using less.prems by (cases any) (auto simp: put_text_def fun_eq_iff intro: exI [of _ "''>''"])
  next
    case (Cons ic q)
    show ?thesis
    proof (cases q)
      case Nil
      then show ?thesis using less.prems Cons by (simp add: put_text_def)
    next
      case q: (Cons jc r)
      have short: "length (dropWhile ?pr r) < length p" "length (dropWhile ?pr q) < length p"
        using length_dropWhile_le [of ?pr r] length_dropWhile_le [of ?pr q] Cons q by simp_all
      note IH = less.hyps [OF short(1)] less.hyps [OF short(2)]
      consider (field) "schar jc \<le> 32"
        | (set_bit) "\<not> schar jc \<le> 32" "u AND push_bit (shift_count (schar ic - 1)) 1 \<noteq> 0"
        | (clear) "\<not> schar jc \<le> 32" "u AND push_bit (shift_count (schar ic - 1)) 1 = 0"
        by blast
      then show ?thesis
      proof cases
        case field
        with less.prems Cons q obtain s2
          where 1: "printnum (bit_field u (schar ic) (schar jc)) base put_text
              (s @ separator any # takeWhile ?pr r) = Inr s2"
            and 2: "bits_loop u base (dropWhile ?pr r) True put_text s2 = Inr s'"
          by (auto simp: obind_Inr Let_def simp del: emit.simps)
        from printnum_emit [OF 1, of putc] obtain t1
          where t1: "s2 = (s @ separator any # takeWhile ?pr r) @ t1"
            "printnum (bit_field u (schar ic) (schar jc)) base putc = emit putc t1" by blast
        from IH(1) [OF 2] obtain t2
          where t2: "s' = s2 @ t2" "bits_loop u base (dropWhile ?pr r) True putc = emit putc t2"
          by blast
        show ?thesis
          using field Cons q t1 t2
          by (intro exI [of _ "separator any # takeWhile ?pr r @ t1 @ t2"] conjI ext)
             (simp_all add: emit_append_fun emit_Cons_fun obind_assoc Let_def)
      next
        case set_bit
        with less.prems Cons q
        have 2: "bits_loop u base (dropWhile ?pr q) True put_text (s @ separator any # takeWhile ?pr q) = Inr s'"
          by (simp add: Let_def del: emit.simps)
        from IH(2) [OF 2] obtain t2
          where t2: "s' = (s @ separator any # takeWhile ?pr q) @ t2"
            "bits_loop u base (dropWhile ?pr q) True putc = emit putc t2" by blast
        show ?thesis
          using set_bit Cons q t2
          by (intro exI [of _ "separator any # takeWhile ?pr q @ t2"] conjI ext)
             (simp_all add: emit_append_fun emit_Cons_fun obind_assoc Let_def)
      next
        case clear
        with less.prems Cons q have 2: "bits_loop u base (dropWhile ?pr q) any put_text s = Inr s'"
          by (simp add: Let_def)
        from IH(2) [OF 2] show ?thesis using clear Cons q by (simp add: Let_def fun_eq_iff)
      qed
    qed
  qed
qed

lemma print_bits_emit:
  assumes "print_bits strs u p put_text s = Inr s'"
  shows "\<exists>t. s' = s @ t \<and> print_bits strs u p putc = emit putc t"
proof -
  obtain cs where cs: "p \<noteq> 0" "strs p = Some cs"
    using assms by (auto simp: print_bits_def split: if_splits option.splits)
  show ?thesis
  proof (cases cs)
    case Nil
    then show ?thesis
      using assms cs by (simp add: print_bits_def printnum_def) (subst (asm) digit_loop.simps, simp)
  next
    case (Cons b q)
    let ?base = "word_of_int (schar b) :: u32"
    from assms cs Cons obtain s1 where 1: "printnum u ?base put_text s = Inr s1"
      and 2: "(if u = 0 then Inr s1 else bits_loop u ?base q False put_text s1) = Inr s'"
      by (auto simp: print_bits_def obind_Inr Let_def)
    from printnum_emit [OF 1, of putc] obtain t1
      where t1: "s1 = s @ t1" "printnum u ?base putc = emit putc t1" by blast
    show ?thesis
    proof (cases "u = 0")
      case True
      then show ?thesis
        using t1 2 cs Cons
        by (intro exI [of _ t1] conjI ext) (simp_all add: print_bits_def Let_def obind_def split: sum.split)
    next
      case False
      with 2 have "bits_loop u ?base q False put_text s1 = Inr s'" by simp
      from bits_loop_emit [OF this, of putc] obtain t2
        where t2: "s' = s1 @ t2" "bits_loop u ?base q False putc = emit putc t2" by blast
      show ?thesis
        using t1 t2 False cs Cons
        by (intro exI [of _ "t1 @ t2"] conjI ext) (simp_all add: print_bits_def Let_def emit_append)
    qed
  qed
qed

lemma print_string_emit:
  assumes "print_string strs p f put_text s = Inr s'"
  shows "\<exists>t. s' = s @ t \<and> print_string strs p f putc = emit putc t"
  using assms by (auto simp: print_string_def fun_eq_iff split: option.splits if_splits)

lemma print_unsigned_emit:
  assumes "print_unsigned u base f put_text s = Inr s'"
  shows "\<exists>t. s' = s @ t \<and> print_unsigned u base f putc = emit putc t"
  using assms by (auto simp: print_unsigned_def obind_Inr fun_eq_iff)

lemma print_signed_emit:
  assumes "print_signed u base f put_text s = Inr s'"
  shows "\<exists>t. s' = s @ t \<and> print_signed u base f putc = emit putc t"
proof -
  let ?conv = "if 0 \<le> sint u then conv_number u (f_plus_sign f) base f
      else conv_number (- u) (Some (CHR ''-'')) base f"
  from assms obtain cs where cs: "?conv = Inr cs" "s' = s @ cs"
    by (simp only: print_signed_def obind_Inr emit_put_text) auto
  show ?thesis
    by (intro exI [of _ cs] conjI ext) (simp_all only: print_signed_def cs obind_simps)
qed

lemma conversion_emit:
  assumes "conversion strs radix c f args put_text s = Inr (args', s')"
  shows "\<exists>t. s' = s @ t \<and>
    conversion strs radix c f args putc = (\<lambda>out. obind (emit putc t out) (\<lambda>out'. Inr (args', out')))"
proof -
  consider (bits) "c = CHR ''b'' \<or> c = CHR ''B''" | (char) "c = CHR ''c''" | (str) "c = CHR ''s''"
    | (uns) base where "c \<notin> {CHR ''b'', CHR ''B'', CHR ''c'', CHR ''s''}" "unsigned_base c radix = Some base"
    | (sig) base where "c \<notin> {CHR ''b'', CHR ''B'', CHR ''c'', CHR ''s''}" "unsigned_base c radix = None"
        "signed_base c radix = Some base"
    | (other) "c \<notin> {CHR ''b'', CHR ''B'', CHR ''c'', CHR ''s''}" "unsigned_base c radix = None"
        "signed_base c radix = None"
    by (metis insertE option.exhaust singletonD)
  then show ?thesis
  proof cases
    case bits
    with assms obtain u p where "args = u # p # args'" "print_bits strs u p put_text s = Inr s'"
      by (auto simp: conversion_def obind_Inr va_arg_def split: list.splits)
    then show ?thesis
      using print_bits_emit [of strs u p s s' putc] bits by (auto simp: conversion_def va_arg_def fun_eq_iff)
  next
    case char
    with assms obtain n where n: "args = n # args'" "s' = s @ [char_of (unat n)]"
      by (auto simp: conversion_def obind_Inr va_arg_def put_text_def split: list.splits)
    then show ?thesis
      using char by (intro exI [of _ "[char_of (unat n)]"] conjI ext) (simp_all add: conversion_def va_arg_def)
  next
    case str
    with assms obtain p where "args = p # args'" "print_string strs p f put_text s = Inr s'"
      by (auto simp: conversion_def obind_Inr va_arg_def split: list.splits)
    then show ?thesis
      using print_string_emit [of strs p f s s' putc] str by (auto simp: conversion_def va_arg_def fun_eq_iff)
  next
    case uns
    with assms obtain u where "args = u # args'" "print_unsigned u base f put_text s = Inr s'"
      by (auto simp: conversion_def obind_Inr va_arg_def split: list.splits)
    then show ?thesis
      using print_unsigned_emit [of u base f s s' putc] uns by (auto simp: conversion_def va_arg_def fun_eq_iff)
  next
    case sig
    with assms obtain u where "args = u # args'" "print_signed u base f put_text s = Inr s'"
      by (auto simp: conversion_def obind_Inr va_arg_def split: list.splits)
    then show ?thesis
      using print_signed_emit [of u base f s s' putc] sig by (auto simp: conversion_def va_arg_def fun_eq_iff)
  next
    case other
    with assms show ?thesis
      by (intro exI [of _ "[c]"]) (auto simp: conversion_def put_text_def fun_eq_iff)
  qed
qed

lemma doprnt_emit:
  assumes "doprnt strs radix fmt args put_text s = Inr s'"
  shows "\<exists>t. s' = s @ t \<and> doprnt strs radix fmt args putc = emit putc t"
  using assms
proof (induction "length fmt" arbitrary: fmt args s rule: less_induct)
  case less
  show ?case
  proof (cases fmt)
    case Nil
    then show ?thesis using less.prems by (auto simp: fun_eq_iff)
  next
    case (Cons c rest)
    show ?thesis
    proof (cases "c = CHR ''%''")
      case False
      with less.prems Cons have "doprnt strs radix rest args put_text (s @ [c]) = Inr s'"
        by (simp add: put_text_def)
      from less.hyps [OF _ this] Cons obtain t
        where "s' = (s @ [c]) @ t" "doprnt strs radix rest args putc = emit putc t" by auto
      then show ?thesis
        using Cons False by (intro exI [of _ "c # t"] conjI ext) simp_all
    next
      case True
      with less.prems Cons obtain fmt1 args1 f where ps: "parse_spec rest args = Inr (fmt1, args1, f)"
        by (auto simp: obind_Inr)
      show ?thesis
      proof (cases fmt1)
        case Nil
        then show ?thesis
          using less.prems Cons True ps by (intro exI [of _ "[]"]) (auto simp: fun_eq_iff)
      next
        case fmt1: (Cons d fmt2)
        from less.prems Cons True ps fmt1 obtain args2 s2
          where 1: "conversion strs radix d f args1 put_text s = Inr (args2, s2)"
            and 2: "doprnt strs radix fmt2 args2 put_text s2 = Inr s'"
          by (auto simp: obind_Inr)
        have "length fmt2 < length fmt" using parse_spec_length [OF ps] fmt1 Cons by simp
        from less.hyps [OF this 2] obtain t2
          where t2: "s' = s2 @ t2" "doprnt strs radix fmt2 args2 putc = emit putc t2" by blast
        from conversion_emit [OF 1, of putc] obtain t1 where t1: "s2 = s @ t1"
          "conversion strs radix d f args1 putc = (\<lambda>out. obind (emit putc t1 out) (\<lambda>out'. Inr (args2, out')))"
          by blast
        show ?thesis
          using Cons True ps fmt1 t1 t2
          by (intro exI [of _ "t1 @ t2"] conjI ext) (simp_all add: obind_assoc emit_append)
      qed
    qed
  qed
qed

lemma doprnt_text:
  assumes "doprnt strs radix fmt args put_text [] = Inr t"
  shows "doprnt strs radix fmt args putc out = emit putc t out"
  using doprnt_emit [OF assms, of putc] by auto

section \<open>Strings in a field\<close>

lemma blank_loop_eq: "blank_loop n len = replicate (nat (sint len - sint n)) (CHR '' '')"
proof (induction n len rule: blank_loop.induct)
  case (1 n len)
  show ?case
  proof (cases "sint n < sint len")
    case True
    then have "nat (sint len - sint n) = Suc (nat (sint len - sint (n + 1)))" by (simp add: sint_Suc_word)
    then show ?thesis using 1 True by (subst blank_loop.simps) simp
  next
    case False
    then show ?thesis by (subst blank_loop.simps) simp
  qed
qed

lemma count_loop_eq:
  assumes "unat prec < 2147483648" "unat n \<le> unat prec"
  shows "unat (count_loop p n prec) = min (unat n + length p) (unat prec)"
  using assms(2)
proof (induction p arbitrary: n)
  case Nil
  then show ?case by simp
next
  case (Cons c p)
  then have n: "unat n < 2147483648" using assms(1) by simp
  show ?case
    using Cons.IH [of "n + 1"] Cons.prems n assms(1) by (simp add: sint_less_small unat_Suc_small)
qed

lemma text_loop_eq:
  assumes "unat prec < 2147483648" "unat n + length p < 2147483648" "unat n \<le> unat prec"
  shows "fst (text_loop p n prec) = take (unat prec - unat n) p \<and>
    unat (snd (text_loop p n prec)) =
      (if unat n + length p \<le> unat prec then unat n + length p else Suc (unat prec))"
  using assms(2,3)
proof (induction p arbitrary: n)
  case Nil
  then show ?case by simp
next
  case (Cons c p)
  have n: "unat (n + 1) = Suc (unat n)" using Cons.prems(1) by (simp add: unat_Suc_small)
  with Cons.prems(1) have less: "sint prec < sint (n + 1) \<longleftrightarrow> unat prec < Suc (unat n)"
    using sint_less_small [OF assms(1), of "n + 1"] by simp
  show ?case
  proof (cases "unat n < unat prec")
    case True
    then show ?thesis
      using Cons.IH [of "n + 1"] Cons.prems n less by (simp add: split_beta take_Cons')
  next
    case False
    with Cons.prems have "unat n = unat prec" by simp
    then show ?thesis using n less by simp
  qed
qed

text \<open>
  A string is cut to its precision and put in its field. On the left side of the field, a string that
  was cut counts for one character more than it has.
\<close>

lemma conv_string_field:
  assumes "length p < 2147483648" "unat (f_length s) < 2147483648"
    and "f_prec s = - 1 \<or> unat (f_prec s) < 2147483648" "f_prec s = - 1 \<longrightarrow> length p < 2147483647"
  shows "conv_string p s =
    (let k = if f_prec s = - 1 then length p else min (length p) (unat (f_prec s)); w = unat (f_length s) in
     if f_ladjust s then take k p @ replicate (w - (if k < length p then Suc k else k)) (CHR '' '')
     else replicate (w - k) (CHR '' '') @ take k p)"
proof -
  define prec where "prec = (if f_prec s = - 1 then 0x7fffffff else f_prec s)"
  have prec: "unat prec < 2147483648" using assms(3) by (auto simp: prec_def)
  have k: "(if f_prec s = - 1 then length p else min (length p) (unat (f_prec s))) = min (length p) (unat prec)"
    using assms(4) by (auto simp: prec_def)
  obtain cs n where tl: "text_loop p 0 prec = (cs, n)" by fastforce
  from text_loop_eq [OF prec, of 0 p] assms(1) tl
  have cs: "cs = take (unat prec) p" and n: "unat n = (if length p \<le> unat prec then length p else Suc (unat prec))"
    by simp_all
  have small: "unat n < 2147483648" using n assms(1) prec by (auto split: if_splits)
  have cnt: "unat (count_loop p 0 prec) = min (length p) (unat prec)"
    using count_loop_eq [OF prec, of 0 p] by simp
  then have csmall: "unat (count_loop p 0 prec) < 2147483648" using prec by simp
  have pos: "0 < sint (f_length s) \<longleftrightarrow> 0 < unat (f_length s)"
    using sint_less_small [of 0 "f_length s"] assms(2) by simp
  note blanks = blank_loop_eq [of n "f_length s", unfolded sint_diff_small [OF assms(2) small]]
    blank_loop_eq [of "count_loop p 0 prec" "f_length s", unfolded sint_diff_small [OF assms(2) csmall]]
  show ?thesis
    unfolding conv_string_def prec_def [symmetric] k
    using tl cs n cnt by (auto simp: Let_def blanks pos min_def)
qed

section \<open>The console\<close>

text \<open>No newline comes when the buffer is full; \<open>k\<close> characters are buffered.\<close>

fun lines_fit :: "nat \<Rightarrow> string \<Rightarrow> bool" where
  "lines_fit k [] = True"
| "lines_fit k (c # cs) =
     (if c = newline then k < PRINTF_BUFMAX \<and> lines_fit 0 cs
      else if c = CHR 0x00 \<or> PRINTF_BUFMAX \<le> k then lines_fit 0 cs
      else lines_fit (Suc k) cs)"

lemma lines_fit_short: "k + length t \<le> PRINTF_BUFMAX \<Longrightarrow> lines_fit k t"
proof (induction k t rule: lines_fit.induct)
  case (2 k c cs)
  then show ?case by (cases "c = newline") auto
qed simp

lemma emit_printf_char:
  assumes "CHR 0x00 \<notin> set (pf_buf st)"
  shows "(lines_fit (length (pf_buf st)) t \<longrightarrow>
      (\<exists>st'. emit printf_char t st = Inr st' \<and> CHR 0x00 \<notin> set (pf_buf st') \<and>
         pf_console st' @ pf_buf st' = pf_console st @ pf_buf st @ t)) \<and>
    (\<not> lines_fit (length (pf_buf st)) t \<longrightarrow> emit printf_char t st = Inl Out_Of_Bounds)"
  using assms
proof (induction t arbitrary: st)
  case Nil
  then show ?case by simp
next
  case (Cons c t)
  have whole: "takeWhile (\<lambda>d. d \<noteq> CHR 0x00) (pf_buf st) = pf_buf st"
    using Cons.prems by (auto simp: takeWhile_eq_all_conv)
  consider (line) "c = newline" "length (pf_buf st) < PRINTF_BUFMAX"
    | (over) "c = newline" "PRINTF_BUFMAX \<le> length (pf_buf st)"
    | (direct) "c \<noteq> newline" "c = CHR 0x00 \<or> PRINTF_BUFMAX \<le> length (pf_buf st)"
    | (buffer) "c \<noteq> newline" "c \<noteq> CHR 0x00" "length (pf_buf st) < PRINTF_BUFMAX"
    using not_less by blast
  then show ?case
  proof cases
    case line
    then have "printf_char c st = Inr (st\<lparr>pf_buf := [], pf_console := pf_console st @ pf_buf st @ [newline]\<rparr>)"
      by (simp add: printf_char_def whole)
    then show ?thesis
      using line Cons.IH [of "st\<lparr>pf_buf := [], pf_console := pf_console st @ pf_buf st @ [newline]\<rparr>"] by simp
  next
    case over
    then have "printf_char c st = Inl Out_Of_Bounds" by (simp add: printf_char_def)
    with over show ?thesis by simp
  next
    case direct
    then have "printf_char c st = Inr (st\<lparr>pf_buf := [], pf_console := pf_console st @ pf_buf st @ [c]\<rparr>)"
      by (simp add: printf_char_def flush_def Let_def)
    then show ?thesis
      using direct Cons.IH [of "st\<lparr>pf_buf := [], pf_console := pf_console st @ pf_buf st @ [c]\<rparr>"] by simp
  next
    case buffer
    then have "printf_char c st = Inr (st\<lparr>pf_buf := pf_buf st @ [c]\<rparr>)" by (simp add: printf_char_def)
    then show ?thesis using buffer Cons.IH [of "st\<lparr>pf_buf := pf_buf st @ [c]\<rparr>"] Cons.prems by simp
  qed
qed

text \<open>
  C29: The line buffer of \<open>vprintf\<close> is transparent: whatever the format and the arguments, the
  console gets exactly the text that the formatter produces, in order and complete, unless a newline
  comes when all 128 characters of the buffer are in use; then the terminator is stored behind the buffer.
\<close>

theorem vprintf_transparent:
  assumes "doprnt strs 0 fmt args put_text [] = Inr t"
  shows "vprintf strs fmt args console = (if lines_fit 0 t then Inr (console @ t) else Inl Out_Of_Bounds)"
proof -
  let ?st = "\<lparr>pf_buf = [], pf_console = console\<rparr>"
  have d: "doprnt strs 0 fmt args printf_char ?st = emit printf_char t ?st" by (rule doprnt_text [OF assms])
  show ?thesis
  proof (cases "lines_fit 0 t")
    case True
    then obtain st' where "emit printf_char t ?st = Inr st'" "pf_console st' @ pf_buf st' = console @ t"
      using emit_printf_char [of ?st t] by auto
    with True d show ?thesis by (auto simp: vprintf_def flush_def)
  next
    case False
    with d emit_printf_char [of ?st t] show ?thesis by (simp add: vprintf_def)
  qed
qed

theorem vprintf_transparent_witness:
  "vprintf (\<lambda>_. None) (''n = '' @ CHR ''%'' # number_format [] False 0 @ CHR ''d'' # [newline]) [- 42] ''boot: '' =
     Inr (''boot: n = -42'' @ [newline])"
proof -
  have n: "number_text 10 42 = ''42''" by (simp add: number_text_def nat_digits.simps digs_def)
  have "doprnt (\<lambda>_. None) 0 (''n = '' @ CHR ''%'' # number_format [] False 0 @ CHR ''d'' # [newline]) [- 42] put_text [] =
      Inr (''n = -42'' @ [newline])"
    using doprnt_number [of "[]" 0 True "CHR ''d''" 0 10 "\<lambda>_. None" False "[newline]" "- 42" "[]" put_text "''n = ''"] n
    by (simp add: put_text_def flag_chars_def signed_base_def Let_def magnitude_def printed_sign_def number_prefix_def
        sign_text_def number_field_def number_spec_def flag_spec_def fmt_spec0_def)
  from vprintf_transparent [OF this, of "''boot: ''"] show ?thesis by simp
qed

section \<open>Reading back what was printed\<close>

lemma number_loop_digits:
  assumes "\<forall>d \<in> set ds. digit (digs ! d) = Some (of_nat d)" "digit c = None"
  shows "number_loop digit base (pre @ map ((!) digs) ds @ c # post) (hd (map ((!) digs) ds @ [c]))
      (Suc (length pre)) n = Inr (foldl (\<lambda>a d. a * base + of_nat d) n ds, Suc (length pre + length ds))"
  using assms
proof (induction ds arbitrary: pre n)
  case Nil
  then show ?case by (subst number_loop.simps) simp
next
  case (Cons d ds)
  let ?buf = "pre @ map ((!) digs) (d # ds) @ c # post"
  have "?buf ! Suc (length pre) = (map ((!) digs) ds @ c # post) ! 0" by (simp add: nth_append)
  then have r: "readchar ?buf (Suc (length pre)) = Inr (hd (map ((!) digs) ds @ [c]), Suc (Suc (length pre)))"
    by (cases ds) (simp_all add: readchar_def)
  show ?case
    using Cons.prems Cons.IH [of "pre @ [digs ! d]" "n * base + of_nat d"] r
    by (subst number_loop.simps) simp
qed

text \<open>An item is a number that is printed and read in decimal, with its sign, or in hexadecimal.\<close>

type_synonym item = "bool \<times> u32"

definition item_conv :: "item \<Rightarrow> char" where
  "item_conv it = (if fst it then CHR ''x'' else CHR ''d'')"

definition item_text :: "item \<Rightarrow> string" where
  "item_text it =
     (case it of (h, n) \<Rightarrow>
        if h then number_text 16 (unat n)
        else (if sint n < 0 then ''-'' else []) @ number_text 10 (nat \<bar>sint n\<bar>))"

fun items_fmt :: "item list \<Rightarrow> string" where
  "items_fmt [] = []"
| "items_fmt [it] = [CHR ''%'', item_conv it]"
| "items_fmt (it # its) = CHR ''%'' # item_conv it # CHR '' '' # items_fmt its"

fun items_text :: "item list \<Rightarrow> string" where
  "items_text [] = []"
| "items_text [it] = item_text it"
| "items_text (it # its) = item_text it @ CHR '' '' # items_text its"

lemma doprnt_item:
  "doprnt strs radix (CHR ''%'' # item_conv it # fmt) (snd it # args) putc out =
   obind (emit putc (item_text it) out) (doprnt strs radix fmt args putc)"
proof (cases it)
  case (Pair h n)
  have nf: "number_format [] False 0 = []" by (simp add: number_format_def)
  show ?thesis
  proof (cases h)
    case True
    then show ?thesis
      using doprnt_number [of "[]" 0 False "CHR ''x''" radix 16 strs False fmt n args putc out] Pair
      by (simp add: nf item_conv_def item_text_def unsigned_base_def Let_def magnitude_def printed_sign_def sign_text_def
          number_prefix_def number_field_def number_spec_def flag_spec_def fmt_spec0_def del: doprnt.simps)
  next
    case False
    then show ?thesis
      using doprnt_number [of "[]" 0 True "CHR ''d''" radix 10 strs False fmt n args putc out] Pair
      by (simp add: nf item_conv_def item_text_def signed_base_def Let_def magnitude_def printed_sign_def sign_text_def
          number_prefix_def number_field_def number_spec_def flag_spec_def fmt_spec0_def del: doprnt.simps)
  qed
qed

lemma doprnt_items: "doprnt strs radix (items_fmt its) (map snd its) put_text s = Inr (s @ items_text its)"
proof (induction its arbitrary: s rule: items_fmt.induct)
  case 1
  then show ?case by simp
next
  case (2 it)
  then show ?case using doprnt_item [of strs radix it "[]" "[]" put_text s] by (simp del: doprnt.simps(2))
next
  case (3 it v its)
  have "doprnt strs radix (CHR '' '' # items_fmt (v # its)) (map snd (v # its)) put_text (s @ item_text it) =
      Inr (s @ items_text (it # v # its))"
    using 3 [of "s @ item_text it @ '' ''"] by (simp add: put_text_apply [of "CHR '' ''" "s @ item_text it"])
  then show ?case
    using doprnt_item [of strs radix it "CHR '' '' # items_fmt (v # its)" "map snd (v # its)" put_text s]
    by (simp del: doprnt.simps)
qed

lemma scan_item:
  assumes "dec_digit c = None" "hex_digit c = None"
  shows "scan_number (if fst it then hex_digit else dec_digit) (if fst it then 16 else 10)
      (pre @ item_text it @ c # post) (length pre) = Inr (snd it, length pre + length (item_text it))"
proof -
  obtain h n where it: "it = (h, n)" by (cases it)
  define neg where "neg \<longleftrightarrow> \<not> h \<and> sint n < 0"
  define base where "base = (if h then 16 else 10 :: nat)"
  define m where "m = (if h then unat n else nat \<bar>sint n\<bar>)"
  define digit where "digit = (if h then hex_digit else dec_digit)"
  have dg: "\<forall>d \<in> set (nat_digits base m). digit (digs ! d) = Some (of_nat d)"
    using nat_digits_less [of base _ m] by (auto simp: base_def digit_def hex_digit_digs dec_digit_digs)
  have dc: "digit c = None" using assms by (simp add: digit_def)
  have val: "(if neg then - of_nat m else of_nat m) = n"
    using magnitude_word [of n] by (auto simp: neg_def m_def magnitude_def)
  let ?sg = "if neg then ''-'' else []"
  have tx: "item_text it = ?sg @ number_text base m"
    by (simp add: it item_text_def neg_def base_def m_def)
  let ?ds = "map ((!) digs) (nat_digits base m)"
  let ?buf = "pre @ ?sg @ ?ds @ c # post"
  have first: "hd ?ds \<noteq> CHR ''-''"
  proof -
    have "hd (nat_digits base m) < 16"
      using nat_digits_less [of base "hd (nat_digits base m)" m] by (auto simp: base_def split: if_splits)
    then have "of_char (digs ! hd (nat_digits base m)) \<noteq> (45 :: nat)"
      by (cases "hd (nat_digits base m) < 10") (simp_all add: digs_dec digs_hex)
    then show ?thesis by (auto simp: hd_map)
  qed
  have rd: "readchar ?buf (length (pre @ ?sg)) = Inr (hd (?ds @ [c]), Suc (length (pre @ ?sg)))"
    by (cases "nat_digits base m") (simp_all add: readchar_def nth_append)
  have lp: "number_loop digit (of_nat base) ?buf (hd (?ds @ [c])) (Suc (length (pre @ ?sg))) 0 =
      Inr (of_nat m, Suc (length (pre @ ?sg) + length ?ds))"
    using number_loop_digits [OF dg dc, of "of_nat base" "pre @ ?sg" post 0] nat_digits_word [of base m]
    by (simp add: base_def)
  have scan: "scan_number digit (of_nat base) ?buf (length pre) =
      Inr (if neg then - of_nat m else of_nat m, length pre + length ?sg + length ?ds)"
  proof (cases neg)
    case True
    have "readchar ?buf (length pre) = Inr (CHR ''-'', Suc (length pre))"
      using True by (simp add: readchar_def nth_append)
    then show ?thesis using True rd lp by (simp add: scan_number_def unchar_def)
  next
    case False
    then show ?thesis using rd lp first by (simp add: scan_number_def unchar_def hd_append)
  qed
  show ?thesis
    using scan val by (simp add: tx [unfolded it] number_text_def it digit_def base_def split: if_splits)
qed

lemma scan_item_conversion:
  assumes "dec_digit c = None" "hex_digit c = None" "p \<noteq> 0"
  shows "scan_conversion (item_conv it) False (p # vp) (pre @ item_text it @ c # post) (length pre) st =
    Inr (vp, length pre + length (item_text it), st @ [(p, Scan_Int (snd it))])"
  using scan_item [OF assms(1,2), of it pre post] assms(3)
  by (simp add: scan_conversion_def item_conv_def scan_store_def va_arg_def split: if_splits)

lemma item_text_first: "item_text it \<noteq> [] \<and> \<not> isspace (hd (item_text it))"
proof -
  have "hd (number_text b n) = digs ! hd (nat_digits b n)" for b n by (simp add: number_text_def hd_map)
  moreover have "hd (nat_digits b n) < 16" if "2 \<le> b" "b \<le> 16" for b n
    using nat_digits_less [OF that(1), of "hd (nat_digits b n)" n] that(2) by simp
  ultimately have "\<not> isspace (hd (number_text b n))" if "2 \<le> b" "b \<le> 16" for b n
    using that digs_isspace by simp
  moreover have "number_text b n \<noteq> []" for b n by (simp add: number_text_def)
  moreover have "\<not> isspace (CHR ''-'')" by (simp add: isspace_def)
  ultimately show ?thesis by (cases it) (simp add: item_text_def)
qed

lemma space_loop_item:
  "space_loop (pre @ CHR '' '' # item_text it @ post) (length pre) = Inr (Suc (Suc (length pre)))"
proof -
  obtain c cs where c: "item_text it = c # cs" "\<not> isspace c"
    using item_text_first [of it] by (cases "item_text it") auto
  let ?buf = "pre @ CHR '' '' # c # cs @ post"
  have 1: "readchar ?buf (length pre) = Inr (CHR '' '', Suc (length pre))"
    by (simp add: readchar_def nth_append)
  have 2: "readchar ?buf (Suc (length pre)) = Inr (c, Suc (Suc (length pre)))"
    by (simp add: readchar_def nth_append)
  have "isspace (CHR '' '')" by (simp add: isspace_def)
  with 1 2 c show ?thesis by (simp add: space_loop.simps [of _ "length pre"] space_loop.simps [of _ "Suc (length pre)"])
qed

lemma end_chars:
  "dec_digit (CHR '' '') = None" "hex_digit (CHR '' '') = None"
  "dec_digit (CHR 0x00) = None" "hex_digit (CHR 0x00) = None"
  by (simp_all add: dec_digit_def hex_digit_def isdigit_def)

lemma item_conv_star: "item_conv it \<noteq> CHR ''*''"
  by (simp add: item_conv_def)

lemma items_text_start: "\<exists>post. items_text (it # its) = item_text it @ post"
  by (cases its) auto

lemma doscan_items:
  assumes "length vp = length its" "0 \<notin> set vp"
  shows "doscan (items_fmt its) vp (pre @ items_text its @ [CHR 0x00]) (length pre) vals st =
    Inr (vals + length its, st @ zip vp (map (Scan_Int \<circ> snd) its))"
  using assms
proof (induction its arbitrary: vp pre vals st rule: items_fmt.induct)
  case 1
  then show ?case by simp
next
  case (2 it)
  then obtain p where p: "vp = [p]" "p \<noteq> 0" by (cases vp) auto
  show ?case
    using scan_item_conversion [OF end_chars(3,4) p(2), of it "[]" pre "[]" st] p
    by (simp add: item_conv_star)
next
  case (3 it v its)
  then obtain p ps where p: "vp = p # ps" "p \<noteq> 0" "length ps = length (v # its)" "0 \<notin> set ps"
    by (cases vp) auto
  let ?pre = "pre @ item_text it"
  let ?rest = "items_text (v # its) @ [CHR 0x00]"
  obtain post where "items_text (v # its) = item_text v @ post" using items_text_start by blast
  then have sp: "space_loop (?pre @ CHR '' '' # ?rest) (length ?pre) = Inr (Suc (Suc (length ?pre)))"
    using space_loop_item [of ?pre v "post @ [CHR 0x00]"] by simp
  have conv: "scan_conversion (item_conv it) False (p # ps) (pre @ item_text it @ CHR '' '' # ?rest) (length pre) st =
      Inr (ps, length ?pre, st @ [(p, Scan_Int (snd it))])"
    using scan_item_conversion [OF end_chars(1,2) p(2), of it ps pre ?rest st] by simp
  have "isspace (CHR '' '')" by (simp add: isspace_def)
  with sp conv show ?case
    using "3.IH" [OF p(3,4), of "?pre @ '' ''" "Suc vals" "st @ [(p, Scan_Int (snd it))]"]
    by (simp add: p(1) item_conv_star unchar_def)
qed

lemma item_text_length: "length (item_text it) \<le> 11"
proof -
  obtain h n where it: "it = (h, n)" by (cases it)
  have "nat \<bar>sint n\<bar> < 10 ^ 10"
  proof -
    have "\<bar>sint n\<bar> \<le> 2147483648" using sint_ge [of n] sint_lt [of n] by simp
    then show ?thesis by simp
  qed
  then have "length (nat_digits 10 (nat \<bar>sint n\<bar>)) \<le> 10" by (intro nat_digits_length) simp_all
  moreover have "length (nat_digits 16 (unat n)) \<le> 8"
    using unat_less_32 [of n] by (intro nat_digits_length) simp_all
  ultimately show ?thesis by (auto simp: it item_text_def abs_if)
qed

lemma items_text_length: "length (items_text its) \<le> 12 * length its"
proof (induction its rule: items_text.induct)
  case (2 it)
  then show ?case using item_text_length [of it] by simp
next
  case (3 it v va)
  then show ?case using item_text_length [of it] by simp
qed simp

lemma emit_savechar:
  "emit (savechar cap) t s = (if t = [] \<or> length s + length t \<le> cap then Inr (s @ t) else Inl Out_Of_Bounds)"
proof (induction t arbitrary: s)
  case Nil
  then show ?case by simp
next
  case (Cons c t)
  show ?case
  proof (cases "length s < cap")
    case True
    then have "savechar cap c s = Inr (s @ [c])" by (simp add: savechar_def)
    then show ?thesis using Cons [of "s @ [c]"] True by auto
  next
    case False
    then have "savechar cap c s = Inl Out_Of_Bounds" by (simp add: savechar_def)
    then show ?thesis using False by simp
  qed
qed

text \<open>
  C13: Any numbers that are printed into a buffer in decimal or hexadecimal, separated by blanks, are read back
  by \<open>sscanf\<close> with the same format: negative numbers, the smallest number and zero
  included. A buffer of 12 characters for each number and one more is large enough.
\<close>

theorem print_scan:
  assumes "length vp = length its" "0 \<notin> set vp" "12 * length its < cap"
  shows "\<exists>text. vsprintf strs cap (items_fmt its) (map snd its) = Inr text \<and>
    sscanf text (items_fmt its) vp = Inr (zip vp (map (Scan_Int \<circ> snd) its))"
proof -
  let ?t = "items_text its"
  have len: "length ?t < cap" using items_text_length [of its] assms(3) by simp
  have "doprnt strs 0 (items_fmt its) (map snd its) (savechar cap) [] = emit (savechar cap) ?t []"
    using doprnt_items [of strs 0 its "[]"] by (intro doprnt_text) simp
  also have "\<dots> = Inr ?t" using len by (simp add: emit_savechar)
  finally have "vsprintf strs cap (items_fmt its) (map snd its) = Inr (?t @ [CHR 0x00])"
    using len by (simp add: vsprintf_def savechar_def)
  moreover have "sscanf (?t @ [CHR 0x00]) (items_fmt its) vp = Inr (zip vp (map (Scan_Int \<circ> snd) its))"
    using doscan_items [OF assms(1,2), of "[]" 0 "[]"] by (simp add: sscanf_def)
  ultimately show ?thesis by blast
qed

theorem print_scan_witness:
  "\<exists>text. vsprintf (\<lambda>_. None) 25 ''%d %x'' [- 2147483648, 255] = Inr text \<and>
     sscanf text ''%d %x'' [8, 12] = Inr [(8, Scan_Int (- 2147483648)), (12, Scan_Int 255)]"
  using print_scan [of "[8, 12]" "[(False, - 2147483648), (True, 255)]" 25 "\<lambda>_. None"]
  by (simp add: item_conv_def)

section \<open>Defects\<close>

text \<open>
  \<open>printf\<close> hands its argument list to a function with variable arguments of its own: a number is
  printed as the address of the argument list, whatever the argument is.
\<close>

lemma printf_prints_address:
  "printf strs ap frame ''%x'' args console = Inr (console @ number_text 16 (unat ap))"
proof -
  have "doprnt strs 0 ''%x'' (ap # frame) put_text [] = Inr (number_text 16 (unat ap))"
    using doprnt_item [of strs 0 "(True, ap)" "[]" frame put_text "[]"] by (simp add: item_conv_def item_text_def)
  moreover have "lines_fit 0 (number_text 16 (unat ap))"
    using nat_digits_length [of 16 "unat ap" 8] unat_less_32 [of ap] by (intro lines_fit_short) simp
  ultimately have "vprintf strs ''%x'' (ap # frame) console = Inr (console @ number_text 16 (unat ap))"
    using doprnt_text [of strs 0 "''%x''" "ap # frame" "number_text 16 (unat ap)" printf_char
        "\<lparr>pf_buf = [], pf_console = console\<rparr>"]
      emit_printf_char [of "\<lparr>pf_buf = [], pf_console = console\<rparr>" "number_text 16 (unat ap)"]
    by (auto simp: vprintf_def flush_def)
  then show ?thesis by (simp add: printf_def)
qed

text \<open>A string that is cut to its precision and adjusted to the left gets one blank too few.\<close>

lemma cut_string_short_field:
  "conv_string ''abc'' (fmt_spec0\<lparr>f_length := 5, f_prec := 2, f_ladjust := True\<rparr>) = ''ab  ''"
  "conv_string ''abc'' (fmt_spec0\<lparr>f_length := 5, f_prec := 2\<rparr>) = ''   ab''"
  by (simp_all add: conv_string_def fmt_spec0_def blank_loop.simps)

text \<open>A string at the end of the input is read beyond its terminator.\<close>

lemma scan_string_overruns: "sscanf (''abc'' @ [CHR 0x00]) ''%s'' [8] = Inl Out_Of_Bounds"
  by (simp add: sscanf_def scan_conversion_def scan_string_def readchar_def string_loop.simps isspace_def)

text \<open>The radix conversions divide by zero: \<open>printf\<close> and \<open>sprintf\<close> pass the radix 0.\<close>

lemma radix_conversion_divides_by_zero: "vprintf strs ''%r'' (n # args) console = Inl Div_By_Zero"
proof -
  have "conv_number u sg 0 f = Inl Div_By_Zero" for u sg f
    by (simp add: conv_number_def digit_loop.simps [of _ 0])
  then show ?thesis
    by (simp add: vprintf_def parse_spec_def parse_zero_def parse_width_def parse_prec_def parse_long_def isdigit_def
        conversion_def unsigned_base_def signed_base_def va_arg_def print_signed_def)
qed

end
