(* ===== verification/Spec2Isabelle.thy ===== *)
theory Spec2Isabelle
  imports LmmAligned Scheduler PagerService MachKernelRun MachUser MncCompilerOk Kernel MinixFsOk Kalloc Malloc PrintfOk
begin

text \<open>
  \<^bold>\<open>Verification of MIRIX.\<close> MIRIX is a kernel that runs as a process of a host system, with a Mach layer, a BSD layer and
  the bootstrap code and libraries of Mach beside it. This development models the parts of it that compute and keep state
  and proves what makes them correct; where the code does not do what it means to, it proves that instead.

  \<^bold>\<open>The program.\<close> The kernel proper is in \<^verbatim>\<open>src/mirix\<close>: \<^verbatim>\<open>main.c\<close> hands the command line to \<^verbatim>\<open>kernel_args.c\<close> and the result
  to \<^verbatim>\<open>kernel.c\<close>, which starts the scheduler (\<^verbatim>\<open>scheduler.c\<close>), the message system (\<^verbatim>\<open>ipc/ipc.c\<close>), the POSIX layer
  (\<^verbatim>\<open>posix/posix.c\<close>), the host interface (\<^verbatim>\<open>host/host_interface.c\<close>), the system calls (\<^verbatim>\<open>syscall/syscall.c\<close>), the modules
  (\<^verbatim>\<open>src/modules\<close>) and the root file system (\<^verbatim>\<open>drivers/lazyfs.c\<close>), runs the first program through \<^verbatim>\<open>loader/aout_loader.c\<close>,
  and shuts everything down. System calls use the message system and the host interface. The language M\&C
  (\<^verbatim>\<open>mnc\<close>) has a parser, a compiler to bytecode and a driver of its own. The Mach layer (\<^verbatim>\<open>src/mach/kernel_patches.c\<close> and
  \<^verbatim>\<open>userspace_patches.c\<close>) keeps ports, tasks, message queues and memory regions in tables. The bootstrap task
  (\<^verbatim>\<open>src/mach/bootstrap\<close>) has the default pager, which stores the pages of memory objects in paging partitions, a reader of
  file systems, which finds those partitions and the programs to start, and a memory allocator. The Mach library
  (\<^verbatim>\<open>src/mach/libmach\<close>) has the list memory manager, the C library's allocator on top of it, and formatted output and input.

  \<^bold>\<open>How code is modelled.\<close> A C function is a HOL function of its arguments and of the state it touches, which is a record
  with the fields of the C structure or of the static variables of the file; it answers the result with the new state. Each
  early return is a branch. A call that does not return normally (a null pointer, a freed block used or freed again, an
  access outside an array, a division by zero, a panic, an exit, a wait that nothing ends) is the left case of \<open>outcome\<close>,
  so that theorems about returning calls say that none of this happens. Machine integers are words where they can wrap; they
  are numbers where the text block of the theory says why no wrap-around can occur or where it writes the reduction out.
  Loops are recursive functions with a termination proof; the few loops whose end depends on the state are partial functions
  into an option, and theorems show that they end. Linked lists are lists; heap blocks are named by their addresses where
  ownership matters, and memory is kept byte by byte where an allocator writes into it. What is not in the sources (the
  functions of the host, of Mach itself and of the C library) is an argument: the record \<open>host_os\<close> of \<open>Host\<close>, the functions
  that read and write partitions and devices, the functions that allocate memory. What the code relies on of them is a
  named hypothesis of the theorems (\<open>malloc_ok\<close>, \<open>vm_ok\<close>, \<open>device_ok\<close>, \<open>realloc_ok\<close> and the like), and each theorem with hypotheses
  has a witness that applies it to a concrete input. Console output is modelled in the C library, where it is
  the result, and left out elsewhere.

  \<^bold>\<open>The theories.\<close>

  \<^item> \<open>Prelude\<close>, \<open>Memory\<close> and \<open>CString\<close> hold what the components share: outcomes, tables searched from the front, rings, byte
    order, memory, character classes and number conversions; and three contracts as locales. \<open>slot_table\<close> is a table of slots
    in which the first free one is taken (interpreted on the scheduler and on the descriptors of the POSIX layer),
    \<open>allocator\<close> and \<open>total_allocator\<close> are stores that hand out and take back what they own (interpreted on the list memory
    manager and on the paging partitions). Two more are beside their components: \<open>mailbox\<close> in \<open>Ipc\<close>, and \<open>name_table\<close> in
    \<open>MachTable\<close>, interpreted on the port and task tables of both sides of the Mach layer.

  \<^item> \<open>Ipc\<close> (\<^verbatim>\<open>src/mirix/ipc/ipc.c\<close>): the ring of messages with its semaphore. Any sequence of sends and receives behaves as a
    queue from which a process takes its first message; each call is described on every branch; a blocking receive returns
    once a message for the caller is there.

  \<^item> \<open>Scheduler\<close> (\<^verbatim>\<open>src/mirix/scheduler.c\<close>): the process table and the tick. A process that stays runnable is selected within
    256 quanta from every state, also across the wrap of the tick counter; what a tick selects; adding and removing.

  \<^item> \<open>Host\<close>, \<open>Syscall\<close>, \<open>Posix\<close>, \<open>PosixFiles\<close> (\<^verbatim>\<open>host_interface.c\<close>, \<^verbatim>\<open>syscall.c\<close>, \<^verbatim>\<open>posix.c\<close>, \<^verbatim>\<open>sus_simple.c\<close>): the host as a
    record of functions, the dispatcher and the handlers of the system calls over the message system, and the table of
    descriptors. A message sent by a system call is received by one; the dispatcher against the table of handlers; the
    descriptors in use stand for different open descriptors of the host over any sequence of operations.

  \<^item> \<open>KernelArgs\<close>, \<open>LazyFs\<close>, \<open>BsdProc\<close>, \<open>Kernel\<close> (\<^verbatim>\<open>kernel_args.c\<close>, \<^verbatim>\<open>lazyfs.c\<close>, \<^verbatim>\<open>src/bsd/bsd_proc.c\<close>, \<^verbatim>\<open>kernel.c\<close>, \<^verbatim>\<open>main.c\<close>,
    \<^verbatim>\<open>aout_loader.c\<close>, \<^verbatim>\<open>src/modules\<close>): the kernel from its command line to its exit. Option parsing against what the options
    mean; the process table; boot, main loop and shutdown, with every service that was started stopped and all memory of the
    arguments given back.

  \<^item> \<open>Mnc\<close>, \<open>MncParserOk\<close>, \<open>MncCompiler\<close>, \<open>MncCompilerOk\<close> (\<^verbatim>\<open>src/mirix/mnc\<close>): lexer, parser, compiler and driver. A program written
    from lexemes parses back to them; every tree is well typed; the compiler emits the bytes of a reference encoding and
    touches no other memory; the driver composes the two.

  \<^item> \<open>MachTable\<close>, \<open>MachKernel\<close>, \<open>MachKernelOk\<close>, \<open>MachKernelRun\<close>, \<open>MachUser\<close> (\<^verbatim>\<open>src/mach/kernel_patches.c\<close>, \<^verbatim>\<open>userspace_patches.c\<close>):
    the message queues are stable priority queues; every block is freed once over any legal sequence of calls; and what goes
    wrong with names and queues.

  \<^item> \<open>Pager\<close>, \<open>PagerSpace\<close>, \<open>PagerMap\<close>, \<open>PagerStore\<close>, \<open>PagerMove\<close> (\<^verbatim>\<open>src/mach/bootstrap/default_pager.c\<close>): partitions with bitmaps,
    block maps of one and two levels, reads, writes and the removal of a partition. The bitmap search finds the least free
    page; no page is given out twice or lost; a page that was written is the page that is read, whatever other objects do;
    removing a partition keeps the contents of all pages.

  \<^item> \<open>PagerPort\<close>, \<open>PagerProtocol\<close>, \<open>PagerService\<close> (the same file): the threads that serve the requests for an object, as a step
    relation over interleavings, on top of the page store. Requests are served in order as far as they conflict, no request
    reads stale data, and the service does not get stuck.

  \<^item> \<open>MinixFs\<close>, \<open>MinixFsOk\<close> (\<^verbatim>\<open>src/mach/bootstrap/minix_file_io.c\<close>, \<^verbatim>\<open>minix_ffs_compat.c\<close>): the reader of Minix file systems with
    its cached index blocks. Opening a path and reading gives the bytes of the file that the names lead to; the in-memory
    block map gives the same bytes.

  \<^item> \<open>Kalloc\<close> (\<^verbatim>\<open>src/mach/bootstrap/kalloc.c\<close>, \<^verbatim>\<open>wiring.c\<close>): free lists by powers of two that are chained through the free blocks.
    Blocks are apart and the allocator never changes a block that is held.

  \<^item> \<open>Lmm\<close>, \<open>LmmAligned\<close>, \<open>Malloc\<close> (\<^verbatim>\<open>src/mach/libmach/lmm\<close>, \<^verbatim>\<open>src/mach/libmach/c\<close>): the list memory manager on 32 bit words, with
    allocation by alignment and range, and \<open>malloc\<close>, \<open>calloc\<close>, \<open>realloc\<close> and \<open>free\<close> on it.

  \<^item> \<open>Doprnt\<close>, \<open>Doscan\<close>, \<open>DoprntOk\<close>, \<open>PrintfOk\<close> (\<^verbatim>\<open>doprnt.c\<close>, \<^verbatim>\<open>printf.c\<close>, \<^verbatim>\<open>sprintf.c\<close>, \<^verbatim>\<open>doscan.c\<close>, \<^verbatim>\<open>sscanf.c\<close>, \<^verbatim>\<open>strtoul.c\<close>,
    \<^verbatim>\<open>atol.c\<close> of \<^verbatim>\<open>src/mach/libmach/c\<close>): the formatter over any character output, and the scanner. What an integer conversion prints
    for all flags and widths; that the text does not depend on the character output, so that the line buffer of the console
    changes nothing; that printed numbers are scanned back; and four defects.

  \<^bold>\<open>Bounds and partial functions.\<close> The ticks of the starvation theorem are counted: 256 slots, each for at most one quantum.
  The loop that extends a block map (\<open>extend_loop\<close>) ends since a map never has more than \<open>max_doubled_size\<close> entries, the loop that makes
  room in \<open>Kalloc\<close> after at most two rounds; both are theorems. The blocking receive of \<open>Ipc\<close> takes the states it polls as
  a list, so that it can be told from a receive that waits forever. The Minix theorems are for files of at most 64 MB, the
  size at which block numbers of 16 bits wrap, and \<open>large_file_starts_over\<close> shows what happens beyond. The \<open>malloc\<close> theorem is for
  sizes up to \<open>2 ^ 32 - 12\<close>, beyond which the header makes them wrap (\<open>malloc_wraps\<close>). Field widths are below
  \<open>2 ^ 31\<close>, the largest \<^verbatim>\<open>int\<close>, and bases from 2 to 16, for which there are digits.

  \<^bold>\<open>Not modelled.\<close> Locks inside the components: operations that a mutex serialises are atomic steps. In the default pager, the
  creation and destruction of memory objects on ports and the message loops, which act on port rights of the Mach kernel
  only. In the POSIX layer and its relatives (\<^verbatim>\<open>posix.c\<close>, \<^verbatim>\<open>sus.c\<close>, \<^verbatim>\<open>sus_simple.c\<close>, \<^verbatim>\<open>src/bsd/bsd_syscalls.c\<close>,
  \<^verbatim>\<open>libsyscall\<close>, \<^verbatim>\<open>syscall_wrappers.c\<close>), the functions that only pass a call on to the host. The operations of \<^verbatim>\<open>lazyfs.c\<close> that
  are placeholders. The readers of the other two file systems (\<^verbatim>\<open>ext2_file_io.c\<close>, \<^verbatim>\<open>ffs_file_io.c\<close>), which repeat the Minix reader for
  other disk layouts, and the program loader of the bootstrap task (\<^verbatim>\<open>load.c\<close>, \<^verbatim>\<open>bootstrap.c\<close>), which acts on tasks and
  threads of the Mach kernel. The string functions of the C libraries (\<^verbatim>\<open>src/mach/libmach/c\<close>,
  \<^verbatim>\<open>src/mirix/libc\<close>, \<^verbatim>\<open>strfcns.c\<close>), which are loops of a few lines, and their files. The dispatch over the three readers (\<^verbatim>\<open>file_io.c\<close>).
  The code of \<^verbatim>\<open>src/bsd/tmpfs\<close>, which is written for the NetBSD kernel and not part of the build,
  the interface generator (\<^verbatim>\<open>src/mach/mig\<close>), which is a program of its own, machine-dependent code in assembly
  (\<^verbatim>\<open>src/arch\<close>, \<^verbatim>\<open>src/mach/libthreads\<close>), the libraries for DOS (\<^verbatim>\<open>src/host\<close>), and the third-party programs
  under \<^verbatim>\<open>src/extras\<close>.
\<close>

end
